(* ===== verification/Prelude.thy ===== *)
theory Prelude
  imports Main "HOL-Library.Word" "HOL-Library.Multiset"
begin

unbundle bit_operations_syntax

text \<open>
  Shared vocabulary of the development: machine integers of the target (\<open>usize\<close> is 64 bits
  wide), the bit-counting methods of Rust's integers, byte-addressed memory with
  little-endian reads and writes, and the generic facts on lists, multisets and powers of two
  that the component theories use.

  A \<open>usize\<close> is a \<open>nat\<close>; every operation of the source that can leave the 64-bit range is
  written with the wrapping operations below (the release profile, in which the allocator is
  shipped, compiles \<open>+\<close>, \<open>-\<close>, \<open>*\<close> and \<open><<\<close> to their wrapping forms and drops
  \<open>debug_assert!\<close>). Raw addresses are \<open>nat\<close> with \<open>0\<close> as the null pointer.
\<close>

named_theorems wrap_simps \<open>the wrapping operations when the result is in range\<close>

type_synonym usize = nat
type_synonym addr = nat
type_synonym byte = "8 word"

subsection \<open>Wrapping arithmetic on usize\<close>

definition wadd :: "usize \<Rightarrow> usize \<Rightarrow> usize" where
  "wadd a b = (a + b) mod 2 ^ 64"

definition wsub :: "usize \<Rightarrow> usize \<Rightarrow> usize" where
  "wsub a b = (a + (2 ^ 64 - b mod 2 ^ 64)) mod 2 ^ 64"

definition wmul :: "usize \<Rightarrow> usize \<Rightarrow> usize" where
  "wmul a b = (a * b) mod 2 ^ 64"

text \<open>\<open>1usize << n\<close> in the release profile: the shift amount is taken modulo 64.\<close>

definition wshl :: "usize \<Rightarrow> nat \<Rightarrow> usize" where
  "wshl a n = (a * 2 ^ (n mod 64)) mod 2 ^ 64"

text \<open>\<open>!x\<close>\<close>

definition wnot :: "usize \<Rightarrow> usize" where
  "wnot a = 2 ^ 64 - 1 - a mod 2 ^ 64"

text \<open>\<open>usize::div_ceil\<close>: the quotient, plus one when there is a remainder.\<close>

definition div_ceil :: "usize \<Rightarrow> usize \<Rightarrow> usize" where
  "div_ceil a b = (if a mod b = 0 then a div b else a div b + 1)"

text \<open>\<open>usize::checked_mul\<close>\<close>

definition checked_mul :: "usize \<Rightarrow> usize \<Rightarrow> usize option" where
  "checked_mul a b = (if a * b < 2 ^ 64 then Some (a * b) else None)"

lemma wadd_in_range [wrap_simps]: "a + b < 2 ^ 64 \<Longrightarrow> wadd a b = a + b"
  by (simp add: wadd_def)

lemma wsub_in_range [wrap_simps]: "b \<le> a \<Longrightarrow> a < 2 ^ 64 \<Longrightarrow> wsub a b = a - b"
proof -
  assume "b \<le> a" "a < 2 ^ 64"
  then have "a + (2 ^ 64 - b mod 2 ^ 64) = (a - b) + 2 ^ 64" by simp
  then show ?thesis using \<open>a < 2 ^ 64\<close> by (simp add: wsub_def)
qed

lemma wsub_Suc_mod [simp]: "wsub (Suc n mod 2 ^ 64) (Suc 0) = n mod 2 ^ 64"
proof -
  have "wsub (Suc n mod 2 ^ 64) (Suc 0) = (Suc n + (2 ^ 64 - 1)) mod 2 ^ 64"
    unfolding wsub_def by (simp add: mod_add_left_eq)
  also have "Suc n + (2 ^ 64 - 1) = n + 2 ^ 64" by simp
  finally show ?thesis by simp
qed

lemma wmul_in_range [wrap_simps]: "a * b < 2 ^ 64 \<Longrightarrow> wmul a b = a * b"
  by (simp add: wmul_def)

lemma wshl_in_range [wrap_simps]: "n < 64 \<Longrightarrow> wshl (Suc 0) n = 2 ^ n"
proof -
  assume n: "n < 64"
  then have "(2::nat) ^ n < 2 ^ 64" by (rule power_strict_increasing) simp
  then show ?thesis using n by (simp only: wshl_def mod_less mult_1 One_nat_def [symmetric])
qed

lemma wadd_less [simp]: "wadd a b < 2 ^ 64"
  by (simp add: wadd_def)

lemma wadd_wsub: "x < 2 ^ 64 \<Longrightarrow> y < 2 ^ 64 \<Longrightarrow> wadd (wsub x y) y = x"
proof -
  assume h: "x < 2 ^ 64" "y < 2 ^ 64"
  have "wadd (wsub x y) y = (x + (2 ^ 64 - y mod 2 ^ 64) + y) mod 2 ^ 64"
    unfolding wadd_def wsub_def by (rule mod_add_left_eq)
  also have "x + (2 ^ 64 - y mod 2 ^ 64) + y = x + 2 ^ 64" using h(2) by simp
  finally show ?thesis using h(1) by (simp only: mod_add_self2 mod_less)
qed

lemma div_ceil_bounds:
  assumes "0 < b"
  shows "a \<le> div_ceil a b * b" and "div_ceil a b * b < a + b"
proof -
  have e: "a = b * (a div b) + a mod b" by simp
  have "a mod b < b" using assms by simp
  then show "a \<le> div_ceil a b * b" and "div_ceil a b * b < a + b"
    using e assms by (simp_all add: div_ceil_def algebra_simps, linarith+)
qed

lemma div_ceil_pos: "0 < a \<Longrightarrow> 0 < b \<Longrightarrow> 0 < div_ceil a b"
  by (metis div_ceil_bounds(1) gr0I leD mult_is_0)

subsection \<open>Bit counting\<close>

text \<open>\<open>usize::BITS - leading_zeros\<close>: the position of the highest set bit, plus one.\<close>

fun bit_len :: "nat \<Rightarrow> nat" where
  "bit_len n = (if n = 0 then 0 else Suc (bit_len (n div 2)))"

definition leading_zeros :: "usize \<Rightarrow> nat" where
  "leading_zeros n = 64 - bit_len n"

fun count_ones :: "nat \<Rightarrow> nat" where
  "count_ones n = (if n = 0 then 0 else n mod 2 + count_ones (n div 2))"

definition is_power_of_two :: "usize \<Rightarrow> bool" where
  "is_power_of_two n \<longleftrightarrow> count_ones n = 1"

fun ctz :: "nat \<Rightarrow> nat" where
  "ctz n = (if n = 0 then 0 else if odd n then 0 else Suc (ctz (n div 2)))"

definition trailing_zeros :: "usize \<Rightarrow> nat" where
  "trailing_zeros n = (if n = 0 then 64 else ctz n)"

declare bit_len.simps [simp del] count_ones.simps [simp del] ctz.simps [simp del]

lemma bit_len_0 [simp]: "bit_len 0 = 0"
  by (simp add: bit_len.simps)

lemma bit_len_bounds: "0 < n \<Longrightarrow> 2 ^ (bit_len n - 1) \<le> n \<and> n < 2 ^ bit_len n"
proof (induction n rule: bit_len.induct)
  case (1 n)
  show ?case
  proof (cases "n = 1")
    case True
    then show ?thesis by (simp add: bit_len.simps)
  next
    case False
    with 1 have h: "2 ^ (bit_len (n div 2) - 1) \<le> n div 2 \<and> n div 2 < 2 ^ bit_len (n div 2)"
      and p: "0 < n div 2" by auto
    have "bit_len (n div 2) \<noteq> 0" using p by (simp add: bit_len.simps)
    then obtain k where k: "bit_len (n div 2) = Suc k" by (cases "bit_len (n div 2)") auto
    have e: "bit_len n = Suc (Suc k)" using 1 k by (simp add: bit_len.simps [of n])
    from h k have "2 ^ k \<le> n div 2" "n div 2 < 2 ^ Suc k" by auto
    then show ?thesis unfolding e by auto
  qed
qed

lemma bit_len_unique:
  assumes "2 ^ k \<le> n" and "n < 2 ^ Suc k"
  shows "bit_len n = Suc k"
proof -
  have "0 < n" using assms(1) by (cases n) simp_all
  from bit_len_bounds [OF this] have b: "2 ^ (bit_len n - 1) \<le> n" "n < 2 ^ bit_len n" by auto
  have "k < bit_len n" using assms(1) b(2)
    by (meson le_less_trans nat_power_less_imp_less zero_less_numeral)
  moreover have "bit_len n - 1 < Suc k" using assms(2) b(1)
    by (meson le_less_trans nat_power_less_imp_less zero_less_numeral)
  ultimately show ?thesis by simp
qed

lemma count_ones_power [simp]: "count_ones (2 ^ k) = 1"
  by (induction k) (simp_all add: count_ones.simps)

lemma count_ones_0_iff: "count_ones n = 0 \<longleftrightarrow> n = 0"
proof (induction n rule: count_ones.induct)
  case (1 n)
  then show ?case by (cases "n = 0") (auto simp: count_ones.simps)
qed

lemma count_ones_1D: "count_ones n = 1 \<Longrightarrow> \<exists>k. n = 2 ^ k"
proof (induction n rule: count_ones.induct)
  case (1 n)
  show ?case
  proof (cases "odd n")
    case True
    with 1 have "count_ones (n div 2) = 0"
      by (auto simp: count_ones.simps [of n] odd_iff_mod_2_eq_one split: if_splits)
    then have "n div 2 = 0" by (simp only: count_ones_0_iff)
    with True have "n = 2 ^ 0" by (auto elim: oddE)
    then show ?thesis by blast
  next
    case False
    with 1 have "n \<noteq> 0" "count_ones (n div 2) = 1"
      by (auto simp: count_ones.simps [of n] even_iff_mod_2_eq_zero split: if_splits)
    with "1.IH" obtain k where "n div 2 = 2 ^ k" by blast
    with False have "n = 2 ^ Suc k" by (auto elim: evenE)
    then show ?thesis by blast
  qed
qed

lemma is_power_of_two_iff: "is_power_of_two n \<longleftrightarrow> (\<exists>k. n = 2 ^ k)"
  unfolding is_power_of_two_def using count_ones_1D by force

lemma is_power_of_two_power [simp]: "is_power_of_two (2 ^ k)"
  by (simp add: is_power_of_two_def)

lemma ctz_power [simp]: "ctz (2 ^ k) = k"
  by (induction k) (simp_all add: ctz.simps)

lemma trailing_zeros_power [simp]: "trailing_zeros (2 ^ k) = k"
  by (simp add: trailing_zeros_def)

subsection \<open>Alignment masks\<close>

text \<open>Clearing the low bits with \<open>& !(2 ^ k - 1)\<close> rounds down to a multiple of \<open>2 ^ k\<close>.\<close>

lemma and_wnot_mask:
  assumes "x < 2 ^ 64" and "k \<le> 64"
  shows "x AND wnot (2 ^ k - 1) = x div 2 ^ k * 2 ^ k"
proof -
  have "wnot (2 ^ k - 1) = push_bit k (mask (64 - k))"
  proof -
    have le: "(2::nat) ^ k \<le> 2 ^ 64" using assms(2) by (intro power_increasing) auto
    have lt: "(2::nat) ^ k - 1 < 2 ^ 64"
      using le by (metis One_nat_def Suc_pred less_eq_Suc_le zero_less_numeral zero_less_power)
    have split: "(2::nat) ^ 64 = 2 ^ k * 2 ^ (64 - k)"
      using assms(2) by (simp flip: power_add)
    have "2 ^ 64 - 1 - (2 ^ k - 1) = (2::nat) ^ 64 - 2 ^ k" using le by simp
    also have "\<dots> = 2 ^ k * (2 ^ (64 - k) - 1)"
      unfolding split by (simp add: diff_mult_distrib2)
    finally have "2 ^ 64 - 1 - (2 ^ k - 1) = 2 ^ k * (2 ^ (64 - k) - (1::nat))" .
    then show ?thesis
      using lt by (simp only: wnot_def mod_less push_bit_eq_mult mask_eq_exp_minus_1 mult.commute)
  qed
  moreover have "x AND push_bit k (mask (64 - k)) = push_bit k (drop_bit k x)"
  proof (rule bit_eqI)
    fix n
    have "bit x n \<Longrightarrow> n < 64"
      using assms(1) by (metis bit_take_bit_iff take_bit_nat_eq_self_iff)
    then show "bit (x AND push_bit k (mask (64 - k))) n = bit (push_bit k (drop_bit k x)) n"
      by (auto simp: bit_and_iff bit_push_bit_iff bit_mask_iff bit_drop_bit_eq)
  qed
  ultimately show ?thesis by (simp add: push_bit_eq_mult drop_bit_eq_div)
qed

lemma and_low_mask: "x AND (2 ^ k - 1) = x mod 2 ^ k" for x :: nat
  by (metis mask_eq_exp_minus_1 take_bit_eq_mask take_bit_eq_mod)

end
