(* ===== verification/Memory.thy ===== *)
theory Memory
  imports Prelude
begin

text \<open>
  The address space of the process: bytes at addresses, little-endian reads and writes of
  multi-byte values (\<open>core::ptr::read\<close> and \<open>core::ptr::write\<close> through a cast pointer), the
  block operations \<open>write_bytes\<close> and \<open>copy_nonoverlapping\<close>, and the accounting of memory
  extents that the ownership invariants of all allocators use: a multiset of extents is
  \<open>exclusive\<close> when no address lies in two of them.
\<close>

type_synonym mem = "addr \<Rightarrow> byte"

subsection \<open>Little-endian access\<close>

primrec read_le :: "nat \<Rightarrow> mem \<Rightarrow> addr \<Rightarrow> nat" where
  "read_le 0 m a = 0"
| "read_le (Suc n) m a = unat (m a) + 256 * read_le n m (Suc a)"

primrec write_le :: "nat \<Rightarrow> nat \<Rightarrow> addr \<Rightarrow> mem \<Rightarrow> mem" where
  "write_le 0 v a m = m"
| "write_le (Suc n) v a m = (write_le n (v div 256) (Suc a) m)(a := word_of_nat v)"

abbreviation read_u32 :: "mem \<Rightarrow> addr \<Rightarrow> nat" where
  "read_u32 \<equiv> read_le 4"

abbreviation read_usize :: "mem \<Rightarrow> addr \<Rightarrow> usize" where
  "read_usize \<equiv> read_le 8"

abbreviation write_u32 :: "nat \<Rightarrow> addr \<Rightarrow> mem \<Rightarrow> mem" where
  "write_u32 \<equiv> write_le 4"

abbreviation write_usize :: "usize \<Rightarrow> addr \<Rightarrow> mem \<Rightarrow> mem" where
  "write_usize \<equiv> write_le 8"

definition write_bytes :: "addr \<Rightarrow> byte \<Rightarrow> usize \<Rightarrow> mem \<Rightarrow> mem" where
  "write_bytes p v n m = (\<lambda>a. if p \<le> a \<and> a < p + n then v else m a)"

definition copy_nonoverlapping :: "addr \<Rightarrow> addr \<Rightarrow> usize \<Rightarrow> mem \<Rightarrow> mem" where
  "copy_nonoverlapping src dst n m =
     (\<lambda>a. if dst \<le> a \<and> a < dst + n then m (src + (a - dst)) else m a)"

lemma write_le_other [simp]: "x < a \<or> a + n \<le> x \<Longrightarrow> write_le n v a m x = m x"
  by (induction n arbitrary: a v) auto

lemma write_le_inside: "a \<le> x \<Longrightarrow> x < a + n \<Longrightarrow> write_le n v a m x = write_le n v a m' x"
  by (induction n arbitrary: a v) auto

lemma read_le_cong: "(\<And>x. a \<le> x \<Longrightarrow> x < a + n \<Longrightarrow> m x = m' x) \<Longrightarrow> read_le n m a = read_le n m' a"
  by (induction n arbitrary: a) auto

lemma read_le_same [simp]: "read_le n (write_le n v a m) a = v mod 256 ^ n"
proof (induction n arbitrary: a v)
  case (Suc n)
  have "read_le n (write_le (Suc n) v a m) (Suc a) = read_le n (write_le n (v div 256) (Suc a) m) (Suc a)"
    by (rule read_le_cong) auto
  then have "read_le (Suc n) (write_le (Suc n) v a m) a = v mod 256 + 256 * (v div 256 mod 256 ^ n)"
    by (simp add: Suc unat_of_nat)
  also have "\<dots> = v mod 256 ^ Suc n"
    using mod_mult2_eq [of v 256 "256 ^ n"] by simp
  finally show ?case .
qed simp

lemma read_le_disjoint [simp]:
  "a + n \<le> b \<or> b + k \<le> a \<Longrightarrow> read_le n (write_le k v b m) a = read_le n m a"
  by (rule read_le_cong) auto

lemma read_le_less: "read_le n m a < 256 ^ n"
proof (induction n arbitrary: a)
  case (Suc n)
  have "unat (m a) < 256" using unsigned_less [of "m a"] by simp
  with Suc [of "Suc a"] show ?case by simp
qed simp

lemma read_le_prefix: "read_le k m a = read_le (k + j) m a mod 256 ^ k"
proof (induction k arbitrary: a)
  case (Suc k)
  have "unat (m a) < 256" using unsigned_less [of "m a"] by simp
  then show ?case using Suc [of "Suc a"]
    by (simp add: mod_mult2_eq [of _ 256 "256 ^ k"])
qed simp

lemma read_u32_of_usize: "read_u32 m a = read_usize m a mod 2 ^ 32"
  using read_le_prefix [of 4 m a 4] by simp

lemma read_le_zero: "(\<And>x. a \<le> x \<Longrightarrow> x < a + n \<Longrightarrow> m x = 0) \<Longrightarrow> read_le n m a = 0"
  by (induction n arbitrary: a) auto

subsection \<open>Extents\<close>

definition cover :: "addr set multiset \<Rightarrow> addr \<Rightarrow> nat" where
  "cover M a = size {#E \<in># M. a \<in> E#}"

definition exclusive :: "addr set multiset \<Rightarrow> bool" where
  "exclusive M \<longleftrightarrow> (\<forall>a. cover M a \<le> 1)"

lemma cover_empty [simp]: "cover {#} a = 0"
  by (simp add: cover_def)

lemma cover_add [simp]: "cover (add_mset E M) a = (if a \<in> E then 1 else 0) + cover M a"
  by (simp add: cover_def)

lemma cover_union [simp]: "cover (M + N) a = cover M a + cover N a"
  by (simp add: cover_def)

lemma cover_0: "(\<And>E. E \<in># M \<Longrightarrow> a \<notin> E) \<Longrightarrow> cover M a = 0"
  by (simp add: cover_def filter_mset_eq_mempty_iff)

lemma cover_pos: "E \<in># M \<Longrightarrow> a \<in> E \<Longrightarrow> 0 < cover M a"
  by (auto simp: cover_def filter_mset_eq_mempty_iff simp flip: neq0_conv)

lemma exclusive_empty [simp]: "exclusive {#}"
  by (simp add: exclusive_def)

lemma exclusive_mono: "exclusive N \<Longrightarrow> (\<And>a. cover M a \<le> cover N a) \<Longrightarrow> exclusive M"
  unfolding exclusive_def using order_trans by blast

lemma cover_image_mono: "(\<And>x. x \<in># M \<Longrightarrow> g x \<subseteq> f x) \<Longrightarrow> cover (image_mset g M) a \<le> cover (image_mset f M) a"
proof (induction M)
  case (add x M)
  then have "g x \<subseteq> f x" "cover (image_mset g M) a \<le> cover (image_mset f M) a" by simp_all
  then show ?case by auto
qed simp

lemma exclusive_image_mono: "exclusive (image_mset f M) \<Longrightarrow> (\<And>x. x \<in># M \<Longrightarrow> g x \<subseteq> f x) \<Longrightarrow> exclusive (image_mset g M)"
  by (erule exclusive_mono) (rule cover_image_mono)

lemma exclusive_unionD: "exclusive (M + N) \<Longrightarrow> exclusive M \<and> exclusive N"
  by (auto simp: exclusive_def intro: add_leD1 add_leD2)

lemma exclusive_add_iff:
  "exclusive (add_mset E M) \<longleftrightarrow> exclusive M \<and> (\<forall>F \<in># M. E \<inter> F = {})"
proof
  assume h: "exclusive (add_mset E M)"
  then have "exclusive M" using exclusive_unionD [of "{#E#}" M] by simp
  moreover have "E \<inter> F = {}" if "F \<in># M" for F
  proof (rule ccontr)
    assume "E \<inter> F \<noteq> {}"
    then obtain a where "a \<in> E" "a \<in> F" by blast
    with h [unfolded exclusive_def, rule_format, of a] cover_pos [OF that, of a] show False by simp
  qed
  ultimately show "exclusive M \<and> (\<forall>F \<in># M. E \<inter> F = {})" by blast
next
  assume h: "exclusive M \<and> (\<forall>F \<in># M. E \<inter> F = {})"
  show "exclusive (add_mset E M)"
    unfolding exclusive_def
  proof
    fix a
    have "a \<in> E \<Longrightarrow> cover M a = 0" using h by (intro cover_0) auto
    then show "cover (add_mset E M) a \<le> 1"
      using h by (auto simp: exclusive_def)
  qed
qed

lemma exclusive_disjoint:
  assumes "exclusive (M + N)" "E \<in># M" "F \<in># N" shows "E \<inter> F = {}"
proof (rule ccontr)
  assume "E \<inter> F \<noteq> {}"
  then obtain a where "a \<in> E" "a \<in> F" by blast
  with cover_pos [OF assms(2), of a] cover_pos [OF assms(3), of a] have "2 \<le> cover (M + N) a"
    by simp
  with assms(1) show False by (auto simp: exclusive_def dest: spec [of _ a])
qed

subsection \<open>Intrusive lists\<close>

text \<open>
  \<open>chain nx p as\<close>: following the link field \<open>nx\<close> from \<open>p\<close> visits exactly the nodes
  \<open>as\<close> and ends in null.
\<close>

primrec chain :: "(addr \<Rightarrow> addr) \<Rightarrow> addr \<Rightarrow> addr list \<Rightarrow> bool" where
  "chain nx p [] \<longleftrightarrow> p = 0"
| "chain nx p (a # as) \<longleftrightarrow> p = a \<and> 0 < a \<and> chain nx (nx a) as"

lemma chain_null [simp]: "chain nx 0 as \<longleftrightarrow> as = []"
  by (cases as) auto

lemma chain_nonnull: "0 < p \<Longrightarrow> chain nx p as \<Longrightarrow> \<exists>bs. as = p # bs \<and> chain nx (nx p) bs"
  by (cases as) auto

lemma chain_cong: "(\<And>a. a \<in> set as \<Longrightarrow> nx a = nx' a) \<Longrightarrow> chain nx p as = chain nx' p as"
  by (induction as arbitrary: p) auto

lemma chain_upd [simp]: "a \<notin> set as \<Longrightarrow> chain (nx(a := q)) p as = chain nx p as"
  by (rule chain_cong) auto

lemma chain_unique: "chain nx p as \<Longrightarrow> chain nx p bs \<Longrightarrow> as = bs"
  by (induction as arbitrary: p bs) (auto dest: chain_nonnull)

lemma chain_pos: "chain nx p as \<Longrightarrow> a \<in> set as \<Longrightarrow> 0 < a"
  by (induction as arbitrary: p) auto

subsection \<open>Sums over arrays\<close>

text \<open>Replacing one entry of an array replaces one summand.\<close>

lemma sum_list_update_add:
  fixes f :: "'a \<Rightarrow> 'b::comm_monoid_add"
  assumes "i < length xs"
  shows "sum_list (map f (xs[i := x])) + f (xs ! i) = sum_list (map f xs) + f x"
  using assms
proof (induction xs arbitrary: i)
  case (Cons y ys)
  then show ?case by (cases i) (auto simp: ac_simps)
qed simp

lemma sum_list_update_mset:
  fixes f :: "'a \<Rightarrow> 'b multiset"
  assumes "i < length xs" and "f x + D = f (xs ! i) + A"
  shows "sum_list (map f (xs[i := x])) + D = sum_list (map f xs) + A"
proof -
  have "sum_list (map f (xs[i := x])) + D + f (xs ! i) = sum_list (map f xs) + A + f (xs ! i)"
    using sum_list_update_add [OF assms(1), of f x] assms(2)
    by (metis (no_types, lifting) add.assoc add.commute)
  then show ?thesis by (rule add_right_imp_eq)
qed

end
