(* ===== verification/Page.thy ===== *)
theory Page
  imports Memory
begin

text \<open>
  The page layer, \<open>aethalloc-core/src/page.rs\<close>: \<open>PageAllocator::alloc\<close> and
  \<open>PageAllocator::dealloc\<close> over the system calls \<open>mmap\<close> and \<open>munmap\<close>. The system calls are
  not code of the repository: they are the parameter \<open>K\<close> of every definition that reaches them,
  and the locale \<open>kernel\<close> states what their manual pages promise for the private anonymous
  mappings the allocator asks for. \<open>first_fit\<close> is an executable kernel with these properties,
  on which the locale is interpreted.
\<close>

definition PAGE_SIZE :: usize where
  "PAGE_SIZE = 4096"

subsection \<open>The operating system interface\<close>

record os =
  mem :: mem
  mapped :: "addr set"

text \<open>
  \<open>sys_mmap K s len\<close> is \<open>mmap(NULL, len, PROT_READ | PROT_WRITE, MAP_PRIVATE | MAP_ANONYMOUS, -1, 0)\<close>
  in state \<open>s\<close> (\<open>None\<close> is \<open>MAP_FAILED\<close>); \<open>sys_munmap K s p len\<close> is \<open>munmap(p, len)\<close> with its return code.
\<close>

record syscalls =
  sys_mmap :: "os \<Rightarrow> usize \<Rightarrow> addr option \<times> os"
  sys_munmap :: "os \<Rightarrow> addr \<Rightarrow> usize \<Rightarrow> int \<times> os"

locale kernel =
  fixes K :: syscalls
  assumes mmap_failed: "sys_mmap K s len = (None, s') \<Longrightarrow> s' = s"
    and mmap_aligned: "sys_mmap K s len = (Some p, s') \<Longrightarrow> p mod 4096 = 0"
    and mmap_nonnull: "sys_mmap K s len = (Some p, s') \<Longrightarrow> 0 < p"
    and mmap_user_half: "sys_mmap K s len = (Some p, s') \<Longrightarrow> p + len \<le> 2 ^ 63"
    and mmap_fresh: "sys_mmap K s len = (Some p, s') \<Longrightarrow> {p..<p + len} \<inter> mapped s = {}"
    and mmap_mapped: "sys_mmap K s len = (Some p, s') \<Longrightarrow> len mod 4096 = 0 \<Longrightarrow>
      mapped s' = mapped s \<union> {p..<p + len}"
    and mmap_zeroed: "sys_mmap K s len = (Some p, s') \<Longrightarrow> p \<le> a \<Longrightarrow> a < p + len \<Longrightarrow> mem s' a = 0"
    and mmap_frame: "sys_mmap K s len = (Some p, s') \<Longrightarrow> a \<in> mapped s \<Longrightarrow> mem s' a = mem s a"
    and munmap_mapped: "sys_munmap K s p len = (0, s') \<Longrightarrow> len mod 4096 = 0 \<Longrightarrow>
      mapped s' = mapped s - {p..<p + len}"
    and munmap_frame: "sys_munmap K s p len = (0, s') \<Longrightarrow> a \<in> mapped s' \<Longrightarrow> mem s' a = mem s a"
    and munmap_failed: "sys_munmap K s p len = (r, s') \<Longrightarrow> r \<noteq> 0 \<Longrightarrow> s' = s"
    and munmap_ok: "p mod 4096 = 0 \<Longrightarrow> 0 < len \<Longrightarrow> p + len \<le> 2 ^ 63 \<Longrightarrow> fst (sys_munmap K s p len) = 0"

subsection \<open>PageAllocator\<close>

text \<open>\<open>NonNull::<u8>::dangling()\<close> is the address \<open>align_of::<u8>()\<close>, which is 1.\<close>

definition PageAllocator_alloc :: "syscalls \<Rightarrow> usize \<Rightarrow> os \<Rightarrow> addr option \<times> os" where
  "PageAllocator_alloc K pages s =
     (if pages = 0 then (Some 1, s)
      else let size = wmul pages PAGE_SIZE in
        (case sys_mmap K s size of
           (None, s') \<Rightarrow> (None, s')
         | (Some ptr, s') \<Rightarrow> ((if ptr = 0 then None else Some ptr), s')))"

text \<open>The result code only feeds a \<open>debug_assert_eq!\<close>, which the release profile drops.\<close>

definition PageAllocator_dealloc :: "syscalls \<Rightarrow> addr \<Rightarrow> usize \<Rightarrow> os \<Rightarrow> os" where
  "PageAllocator_dealloc K ptr pages s =
     (if pages = 0 then s
      else let size = wmul pages PAGE_SIZE in snd (sys_munmap K s ptr size))"

text \<open>What a successful or failed request for \<open>pages\<close> pages establishes.\<close>

definition pages_granted :: "usize \<Rightarrow> os \<Rightarrow> addr \<Rightarrow> os \<Rightarrow> bool" where
  "pages_granted pages s p s' \<longleftrightarrow>
     p mod 4096 = 0 \<and> 0 < p \<and> p + pages * 4096 \<le> 2 ^ 63 \<and>
     {p..<p + pages * 4096} \<inter> mapped s = {} \<and>
     mapped s' = mapped s \<union> {p..<p + pages * 4096} \<and>
     (\<forall>a. p \<le> a \<and> a < p + pages * 4096 \<longrightarrow> mem s' a = 0) \<and>
     (\<forall>a \<in> mapped s. mem s' a = mem s a)"

context kernel
begin

lemma PageAllocator_alloc_Some:
  assumes "PageAllocator_alloc K pages s = (Some p, s')" and "0 < pages" and "pages < 2 ^ 52"
  shows "pages_granted pages s p s'"
proof -
  have r: "wmul pages PAGE_SIZE = pages * 4096"
    using assms(3) by (simp add: wmul_in_range PAGE_SIZE_def)
  have m: "sys_mmap K s (pages * 4096) = (Some p, s')"
    using assms(1,2) by (simp add: PageAllocator_alloc_def r split: prod.splits option.splits if_splits)
  show ?thesis
    unfolding pages_granted_def
    using mmap_aligned [OF m] mmap_nonnull [OF m] mmap_user_half [OF m] mmap_fresh [OF m]
      mmap_mapped [OF m] mmap_zeroed [OF m] mmap_frame [OF m] by auto
qed

lemma PageAllocator_alloc_None:
  "PageAllocator_alloc K pages s = (None, s') \<Longrightarrow> s' = s"
  using mmap_failed mmap_nonnull
  by (fastforce simp: PageAllocator_alloc_def Let_def split: if_splits prod.splits option.splits)

lemma PageAllocator_dealloc_ok:
  assumes "0 < pages" and "pages < 2 ^ 51" and "p mod 4096 = 0" and "p + pages * 4096 \<le> 2 ^ 63"
  shows "mapped (PageAllocator_dealloc K p pages s) = mapped s - {p..<p + pages * 4096}"
    and "a \<in> mapped s - {p..<p + pages * 4096} \<Longrightarrow>
      mem (PageAllocator_dealloc K p pages s) a = mem s a"
proof -
  have r: "wmul pages PAGE_SIZE = pages * 4096"
    using assms(2) by (simp add: wmul_in_range PAGE_SIZE_def)
  obtain c s' where u: "sys_munmap K s p (pages * 4096) = (c, s')" by fastforce
  have "c = 0" using munmap_ok [of p "pages * 4096" s] assms u by simp
  with u have u: "sys_munmap K s p (pages * 4096) = (0, s')" by simp
  have d: "PageAllocator_dealloc K p pages s = s'"
    using assms(1) u by (simp add: PageAllocator_dealloc_def r)
  show m: "mapped (PageAllocator_dealloc K p pages s) = mapped s - {p..<p + pages * 4096}"
    using munmap_mapped [OF u] d by simp
  show "a \<in> mapped s - {p..<p + pages * 4096} \<Longrightarrow>
      mem (PageAllocator_dealloc K p pages s) a = mem s a"
    using munmap_frame [OF u] d m by simp
qed

end

subsection \<open>A first-fit kernel\<close>

text \<open>
  Maps at the lowest multiple of \<open>g\<close> with room for the request, among the first \<open>n\<close> after null;
  \<open>first_fit\<close> takes every page boundary.
\<close>

definition fit_step :: "nat \<Rightarrow> nat \<Rightarrow> syscalls" where
  "fit_step g n = \<lparr>
     sys_mmap = (\<lambda>s len.
       case find (\<lambda>i. {g * i..<g * i + len} \<inter> mapped s = {} \<and> g * i + len \<le> 2 ^ 63) [1..<Suc n] of
         None \<Rightarrow> (None, s)
       | Some i \<Rightarrow> (Some (g * i),
           \<lparr>mem = (\<lambda>a. if g * i \<le> a \<and> a < g * i + len then 0 else mem s a),
            mapped = mapped s \<union> {g * i..<g * i + len}\<rparr>)),
     sys_munmap = (\<lambda>s p len.
       if p mod 4096 = 0 \<and> 0 < len
       then (0, s\<lparr>mapped := mapped s - {p..<p + len}\<rparr>) else (-1, s))\<rparr>"

abbreviation first_fit :: "nat \<Rightarrow> syscalls" where
  "first_fit \<equiv> fit_step 4096"

lemma find_SomeD: "find P xs = Some x \<Longrightarrow> P x \<and> x \<in> set xs"
  by (induction xs) (auto split: if_splits)

lemma fit_step_mmap:
  assumes "sys_mmap (fit_step g n) s len = (Some p, s')"
  shows "p mod g = 0" and "0 < g \<Longrightarrow> 0 < p" and "p + len \<le> 2 ^ 63" and "{p..<p + len} \<inter> mapped s = {}"
    and "mapped s' = mapped s \<union> {p..<p + len}"
    and "mem s' = (\<lambda>a. if p \<le> a \<and> a < p + len then 0 else mem s a)"
  using assms by (auto simp: fit_step_def simp del: upt_Suc split: option.splits dest!: find_SomeD)

lemma fit_step_kernel:
  assumes "0 < g" and "4096 dvd g"
  shows "kernel (fit_step g n)"
proof (unfold_locales, goal_cases)
  case 1 then show ?case by (auto simp: fit_step_def split: option.splits)
next
  case (2 s len p s')
  have "p mod g = 0" using 2 by (rule fit_step_mmap)
  then show ?case using assms(2) by (metis dvd_trans mod_0_imp_dvd mod_eq_0_iff_dvd)
next
  case 3 then show ?case using assms(1) by (rule fit_step_mmap)
next
  case 4 then show ?case by (rule fit_step_mmap)
next
  case 5 then show ?case by (rule fit_step_mmap)
next
  case 6 then show ?case using fit_step_mmap(5) by blast
next
  case 7 then show ?case using fit_step_mmap(6) by simp
next
  case 8 then show ?case using fit_step_mmap(4,6) by fastforce
qed (auto simp: fit_step_def split: if_splits)

interpretation ff: kernel "first_fit n"
  by (rule fit_step_kernel) simp_all

text \<open>The address space whose first \<open>k\<close> pages after the null page are mapped, and the kernel's next answer.\<close>

definition pages_to :: "nat \<Rightarrow> mem \<Rightarrow> os" where
  "pages_to k m = \<lparr>mem = m, mapped = {4096..<4096 * Suc k}\<rparr>"

lemma pages_to_simps [simp]:
  "mem (pages_to k m) = m" "mapped (pages_to k m) = {4096..<4096 * Suc k}"
  "(pages_to k m)\<lparr>mem := m'\<rparr> = pages_to k m'"
  by (simp_all add: pages_to_def)

lemma find_first:
  "find P (xs @ x # ys) = Some x" if "\<And>y. y \<in> set xs \<Longrightarrow> \<not> P y" and "P x"
  using that by (induction xs) auto

lemma PageAllocator_pages_to:
  assumes "k < n" and "0 < j" and "4096 * Suc k + j * 4096 \<le> 2 ^ 63"
  shows "PageAllocator_alloc (first_fit n) j (pages_to k m) =
    (Some (4096 * Suc k), pages_to (k + j) (\<lambda>a. if 4096 * Suc k \<le> a \<and> a < 4096 * Suc k + j * 4096 then 0 else m a))"
proof -
  have w: "wmul j PAGE_SIZE = j * 4096" using assms(3) by (simp add: wmul_in_range PAGE_SIZE_def)
  have l: "[1..<Suc n] = [1..<Suc k] @ Suc k # [Suc (Suc k)..<Suc n]"
    using assms(1) upt_add_eq_append [of 1 "Suc k" "n - k"] by (simp add: upt_conv_Cons del: upt_Suc)
  have "find (\<lambda>i. {4096 * i..<4096 * i + j * 4096} \<inter> {4096..<4096 * Suc k} = {} \<and> 4096 * i + j * 4096 \<le> 2 ^ 63) [1..<Suc n]
    = Some (Suc k)"
    unfolding l
  proof (rule find_first)
    fix i assume "i \<in> set [1..<Suc k]"
    then have "4096 * i \<in> {4096 * i..<4096 * i + j * 4096} \<inter> {4096..<4096 * Suc k}" using assms(2) by auto
    then show "\<not> ({4096 * i..<4096 * i + j * 4096} \<inter> {4096..<4096 * Suc k} = {} \<and> 4096 * i + j * 4096 \<le> 2 ^ 63)" by blast
  qed (use assms(3) in auto)
  then show ?thesis
    using assms(2) by (auto simp: PageAllocator_alloc_def w fit_step_def pages_to_def Let_def ivl_disj_un_two(3) simp del: upt_Suc)
qed

end
