(* ===== verification/SizeClass.thy ===== *)
theory SizeClass
  imports Page
begin

text \<open>
  Size classification, \<open>aethalloc-core/src/size_class.rs\<close>: the four size classes with their
  rounding rules, rounding to a power of two, and the slab index.
\<close>

datatype SizeClass = Tiny | Small | Medium | Large

definition SizeClass_classify :: "usize \<Rightarrow> SizeClass" where
  "SizeClass_classify sz =
     (if sz = 0 then Tiny
      else if sz \<le> 128 then Tiny
      else if sz \<le> 8 * 1024 then Small
      else if sz \<le> 256 * 1024 then Medium
      else Large)"

definition round_up_pow2 :: "usize \<Rightarrow> usize" where
  "round_up_pow2 sz =
     (if sz = 0 then 1
      else if is_power_of_two sz then sz
      else wshl 1 (64 - leading_zeros sz))"

definition SizeClass_alloc_size :: "SizeClass \<Rightarrow> usize \<Rightarrow> usize" where
  "SizeClass_alloc_size c requested =
     (case c of
        Tiny \<Rightarrow>
          if requested = 0 then 16
          else let pow2 = round_up_pow2 requested in if pow2 < 16 then 16 else pow2
      | Small \<Rightarrow> round_up_pow2 requested
      | Medium \<Rightarrow> round_up_pow2 requested
      | Large \<Rightarrow> wmul (div_ceil requested PAGE_SIZE) PAGE_SIZE)"

definition slab_index :: "usize \<Rightarrow> usize option" where
  "slab_index sz =
     (if sz = 0 \<or> sz > 8 * 1024 then None
      else let alloc_size = round_up_pow2 sz in
        if alloc_size < 16 then None
        else let idx = trailing_zeros alloc_size in
          if 4 \<le> idx \<and> idx \<le> 13 then Some (idx - 4) else None)"

subsection \<open>Rounding up to a power of two\<close>

lemma round_up_pow2_exp:
  assumes "0 < sz" and "sz \<le> 2 ^ 63"
  shows "\<exists>k \<le> 63. round_up_pow2 sz = 2 ^ k \<and> sz \<le> 2 ^ k \<and> (\<forall>j. sz \<le> 2 ^ j \<longrightarrow> k \<le> j)"
proof (cases "is_power_of_two sz")
  case True
  then obtain k where k: "sz = 2 ^ k" by (auto simp: is_power_of_two_iff)
  have "k \<le> 63" using assms(2) unfolding k by (rule power_le_imp_le_exp [rotated]) simp
  with True k assms(1) show ?thesis
    by (intro exI [of _ k]) (simp add: round_up_pow2_def)
next
  case False
  define k where "k = bit_len sz"
  have b: "2 ^ (k - 1) \<le> sz" "sz < 2 ^ k"
    using bit_len_bounds [OF assms(1)] by (simp_all add: k_def)
  have ne: "sz \<noteq> 2 ^ j" for j using False by auto
  have k63: "k \<le> 63"
  proof (rule ccontr)
    assume "\<not> k \<le> 63"
    then have "(2::nat) ^ 63 \<le> 2 ^ (k - 1)" by (intro power_increasing) auto
    with b(1) assms(2) have "sz = 2 ^ 63" by linarith
    with ne show False by blast
  qed
  have "round_up_pow2 sz = wshl 1 k"
    using assms(1) False k63 by (simp add: round_up_pow2_def leading_zeros_def k_def)
  then have r: "round_up_pow2 sz = 2 ^ k" using k63 by (simp add: wshl_in_range)
  have "k \<le> j" if "sz \<le> 2 ^ j" for j
  proof -
    have "2 ^ (k - 1) < (2::nat) ^ j" using b(1) ne [of "k - 1"] that by linarith
    then show ?thesis by (simp add: power_strict_increasing_iff)
  qed
  with r b(2) k63 show ?thesis by (intro exI [of _ k]) auto
qed

lemma round_up_pow2_power [simp]: "round_up_pow2 (2 ^ k) = 2 ^ k"
  by (simp add: round_up_pow2_def)

lemma round_up_pow2_ge: "0 < sz \<Longrightarrow> sz \<le> 2 ^ 63 \<Longrightarrow> sz \<le> round_up_pow2 sz"
  by (metis round_up_pow2_exp)

lemma round_up_pow2_le: "0 < sz \<Longrightarrow> sz \<le> 2 ^ j \<Longrightarrow> j \<le> 63 \<Longrightarrow> round_up_pow2 sz \<le> 2 ^ j"
proof -
  assume h: "0 < sz" "sz \<le> 2 ^ j" "j \<le> 63"
  have "sz \<le> 2 ^ 63" using h(2,3) by (meson order_trans power_increasing one_le_numeral)
  from round_up_pow2_exp [OF h(1) this] h(2) show ?thesis by auto
qed

lemma round_up_pow2_lt: "0 < sz \<Longrightarrow> sz \<le> 2 ^ 63 \<Longrightarrow> round_up_pow2 sz < 2 * sz"
proof -
  assume h: "0 < sz" "sz \<le> 2 ^ 63"
  from round_up_pow2_exp [OF h] obtain k where
    k: "round_up_pow2 sz = 2 ^ k" "\<forall>j. sz \<le> 2 ^ j \<longrightarrow> k \<le> j" by blast
  show ?thesis
  proof (cases k)
    case (Suc j)
    with k(2) have "\<not> sz \<le> 2 ^ j" by auto
    with k(1) Suc show ?thesis by simp
  qed (use k(1) h(1) in simp)
qed

lemma round_up_pow2_mono: "0 < a \<Longrightarrow> a \<le> b \<Longrightarrow> b \<le> 2 ^ 63 \<Longrightarrow> round_up_pow2 a \<le> round_up_pow2 b"
  using round_up_pow2_exp [of b] round_up_pow2_le [of a] by (metis less_le_trans order_trans)

lemma round_up_pow2_idem:
  assumes "0 < sz" and "sz \<le> 2 ^ 63"
  shows "round_up_pow2 (max (round_up_pow2 sz) 16) = max (round_up_pow2 sz) 16"
proof -
  from round_up_pow2_exp [OF assms] obtain k where k: "round_up_pow2 sz = 2 ^ k" by blast
  have "max (2 ^ k) 16 = (2::nat) ^ max k 4"
  proof (cases "k \<le> 4")
    case True
    then have "(2::nat) ^ k \<le> 2 ^ 4" by (intro power_increasing) auto
    with True show ?thesis by simp
  next
    case False
    then have "(2::nat) ^ 4 \<le> 2 ^ k" by (intro power_increasing) auto
    with False show ?thesis by simp
  qed
  then show ?thesis by (simp only: k round_up_pow2_power)
qed

subsection \<open>Properties\<close>

lemma wmul_pages: "n \<le> 2 ^ 63 \<Longrightarrow> wmul (div_ceil n 4096) 4096 = div_ceil n 4096 * 4096"
  by (rule wmul_in_range) (use div_ceil_bounds(2) [of 4096 n] in simp)

text \<open>
  \<open>round_up_pow2\<close> is the least power of two that is not below its argument, for every argument
  up to 2^63, the largest power of two of a \<open>usize\<close>.
\<close>

theorem round_up_pow2_least:
  assumes "0 < sz" and "sz \<le> 2 ^ 63"
  shows "is_power_of_two (round_up_pow2 sz) \<and> sz \<le> round_up_pow2 sz \<and> round_up_pow2 sz \<le> 2 ^ 63 \<and>
    (\<forall>q. is_power_of_two q \<and> sz \<le> q \<longrightarrow> round_up_pow2 sz \<le> q)"
proof -
  from round_up_pow2_exp [OF assms] obtain k where
    k: "k \<le> 63" "round_up_pow2 sz = 2 ^ k" "sz \<le> 2 ^ k" "\<forall>j. sz \<le> 2 ^ j \<longrightarrow> k \<le> j" by blast
  have "(2::nat) ^ k \<le> 2 ^ 63" using k(1) by (intro power_increasing) auto
  moreover have "\<forall>q. is_power_of_two q \<and> sz \<le> q \<longrightarrow> 2 ^ k \<le> q"
    using k(4) by (auto simp: is_power_of_two_iff)
  ultimately show ?thesis using k(2,3) by (simp add: is_power_of_two_iff)
qed

theorem round_up_pow2_least_witness:
  "is_power_of_two (round_up_pow2 1025) \<and> 1025 \<le> round_up_pow2 1025 \<and> round_up_pow2 1025 \<le> 2 ^ 11"
proof -
  have "is_power_of_two (2 ^ 11 :: nat)" unfolding is_power_of_two_iff by blast
  moreover have "(1025::nat) \<le> 2 ^ 11" "(0::nat) < 1025" "(1025::nat) \<le> 2 ^ 63" by simp_all
  ultimately show ?thesis using round_up_pow2_least [of 1025] by blast
qed

text \<open>
  The size a class allocates for a request it classified is at least the request, below twice
  the request plus one page, and never drops to a smaller class.
\<close>

theorem alloc_size_sound:
  assumes "sz \<le> 2 ^ 63"
  shows "sz \<le> SizeClass_alloc_size (SizeClass_classify sz) sz \<and>
    SizeClass_alloc_size (SizeClass_classify sz) sz < 2 * sz + 4096 \<and>
    SizeClass_classify (SizeClass_alloc_size (SizeClass_classify sz) sz) = SizeClass_classify sz"
proof (cases "sz = 0")
  case True
  then show ?thesis by (simp add: SizeClass_classify_def SizeClass_alloc_size_def)
next
  case False
  note r = round_up_pow2_ge [of sz] round_up_pow2_lt [of sz] round_up_pow2_le [of sz 7] round_up_pow2_le [of sz 13]
    round_up_pow2_le [of sz 18]
  note d = wmul_pages [OF assms] div_ceil_bounds [of 4096 sz]
  from False assms r d show ?thesis
    by (auto simp: SizeClass_classify_def SizeClass_alloc_size_def Let_def PAGE_SIZE_def split: if_splits)
qed

theorem alloc_size_sound_witness:
  "300 \<le> SizeClass_alloc_size (SizeClass_classify 300) 300 \<and> SizeClass_classify (SizeClass_alloc_size (SizeClass_classify 300) 300) = SizeClass_classify 300"
  using alloc_size_sound [of 300] by simp

text \<open>
  \<open>slab_index\<close> is defined exactly for the sizes from 9 to 8192 bytes, and its value \<open>i\<close> is
  the class whose slots of \<open>16 * 2^i\<close> bytes hold the request with less than half of the slot unused.
\<close>

theorem slab_index_spec:
  assumes "sz < 2 ^ 64"
  shows "case slab_index sz of
      None \<Rightarrow> sz \<le> 8 \<or> 8192 < sz
    | Some i \<Rightarrow> 8 < sz \<and> sz \<le> 8192 \<and> i \<le> 9 \<and> sz \<le> 16 * 2 ^ i \<and> 16 * 2 ^ i < 2 * sz"
proof (cases "sz = 0 \<or> 8192 < sz")
  case True
  then show ?thesis by (auto simp: slab_index_def)
next
  case False
  then have h: "0 < sz" "sz \<le> 2 ^ 63" "sz \<le> 2 ^ 13" by auto
  from round_up_pow2_exp [OF h(1,2)] obtain k where
    k: "round_up_pow2 sz = 2 ^ k" "sz \<le> 2 ^ k" "\<forall>j. sz \<le> 2 ^ j \<longrightarrow> k \<le> j" by blast
  have k13: "k \<le> 13" using k(3) h(3) by blast
  have lt: "2 ^ k < 2 * sz" using round_up_pow2_lt [OF h(1,2)] k(1) by simp
  show ?thesis
  proof (cases "k < 4")
    case True
    then have "(2::nat) ^ k \<le> 2 ^ 3" by (intro power_increasing) auto
    with k h(1) False show ?thesis by (simp add: slab_index_def)
  next
    case ge: False
    then have "(2::nat) ^ 4 \<le> 2 ^ k" by (intro power_increasing) auto
    then have "slab_index sz = Some (k - 4)" using h False k(1) k13 ge by (simp add: slab_index_def Let_def)
    moreover have "(2::nat) ^ k = 16 * 2 ^ (k - 4)" using ge power_add [of "2::nat" 4 "k - 4"] by simp
    moreover have "8 < sz" using lt \<open>(2::nat) ^ 4 \<le> 2 ^ k\<close> by simp
    ultimately show ?thesis using False k13 k(2) lt \<open>(2::nat) ^ k = 16 * 2 ^ (k - 4)\<close> by simp
  qed
qed

theorem slab_index_spec_witness:
  "case slab_index 4096 of None \<Rightarrow> False | Some i \<Rightarrow> i \<le> 9 \<and> 4096 \<le> 16 * (2::nat) ^ i \<and> 16 * 2 ^ i < 2 * (4096::nat)"
  using slab_index_spec [of 4096] by (simp split: option.splits)

end
