(* ===== verification/Heap_Contract.thy ===== *)
theory Heap_Contract
  imports Memory
begin

text \<open>
  The contract every allocator of the repository offers to the program that uses it, as a
  transition system over configurations \<open>(L, s)\<close>: \<open>L\<close> is the multiset of live blocks
  (address, usable bytes) the program holds, \<open>s\<close> the state of the allocator together with the
  address space. The program may request a block, give back a block it holds (on a thread \<open>t\<close> that
  may free), and write any byte of a block it holds. The locale \<open>heap_allocator\<close> lists the laws of a provider and derives
  what the program relies on along every run.
\<close>

type_synonym live = "(addr \<times> usize) multiset"

definition extents :: "live \<Rightarrow> addr set multiset" where
  "extents L = image_mset (\<lambda>(p, n). {p..<p + n}) L"

lemma extents_simps [simp]:
  "extents {#} = {#}"
  "extents (add_mset (p, n) L) = add_mset {p..<p + n} (extents L)"
  by (simp_all add: extents_def)

lemma extents_memI: "(p, n) \<in># L \<Longrightarrow> {p..<p + n} \<in># extents L"
  unfolding extents_def by force

lemma extents_memE:
  assumes "E \<in># extents L" obtains p n where "(p, n) \<in># L" "E = {p..<p + n}"
  using assms by (auto simp: extents_def)

datatype ('r, 't) event = Alloc 'r | Free 't addr usize | Write addr byte

inductive heap_step ::
  "('r \<Rightarrow> bool) \<Rightarrow> ('r \<Rightarrow> usize) \<Rightarrow> ('r \<Rightarrow> 's \<Rightarrow> addr option \<times> 's) \<Rightarrow> ('t \<Rightarrow> bool) \<Rightarrow> ('t \<Rightarrow> addr \<times> usize \<Rightarrow> 's \<Rightarrow> 's) \<Rightarrow>
   (addr \<Rightarrow> byte \<Rightarrow> 's \<Rightarrow> 's) \<Rightarrow> live \<times> 's \<Rightarrow> ('r, 't) event \<Rightarrow> live \<times> 's \<Rightarrow> bool"
  for valid usable alloc frees dealloc poke where
  alloc_ok: "valid r \<Longrightarrow> alloc r s = (Some p, s') \<Longrightarrow>
    heap_step valid usable alloc frees dealloc poke (L, s) (Alloc r) (add_mset (p, usable r) L, s')"
| alloc_null: "valid r \<Longrightarrow> alloc r s = (None, s') \<Longrightarrow>
    heap_step valid usable alloc frees dealloc poke (L, s) (Alloc r) (L, s')"
| free: "frees t \<Longrightarrow>
    heap_step valid usable alloc frees dealloc poke (add_mset (p, n) L, s) (Free t p n) (L, dealloc t (p, n) s)"
| client_write: "(p, n) \<in># L \<Longrightarrow> p \<le> a \<Longrightarrow> a < p + n \<Longrightarrow>
    heap_step valid usable alloc frees dealloc poke (L, s) (Write a v) (L, poke a v s)"

inductive heap_run ::
  "('r \<Rightarrow> bool) \<Rightarrow> ('r \<Rightarrow> usize) \<Rightarrow> ('r \<Rightarrow> 's \<Rightarrow> addr option \<times> 's) \<Rightarrow> ('t \<Rightarrow> bool) \<Rightarrow> ('t \<Rightarrow> addr \<times> usize \<Rightarrow> 's \<Rightarrow> 's) \<Rightarrow>
   (addr \<Rightarrow> byte \<Rightarrow> 's \<Rightarrow> 's) \<Rightarrow> live \<times> 's \<Rightarrow> ('r, 't) event list \<Rightarrow> live \<times> 's \<Rightarrow> bool"
  for valid usable alloc frees dealloc poke where
  run_nil: "heap_run valid usable alloc frees dealloc poke c [] c"
| run_snoc: "heap_run valid usable alloc frees dealloc poke c es c' \<Longrightarrow>
    heap_step valid usable alloc frees dealloc poke c' e c'' \<Longrightarrow>
    heap_run valid usable alloc frees dealloc poke c (es @ [e]) c''"

text \<open>The run a list of events performs, as a function of the events.\<close>

primrec heap_exec1 ::
  "('r \<Rightarrow> bool) \<Rightarrow> ('r \<Rightarrow> usize) \<Rightarrow> ('r \<Rightarrow> 's \<Rightarrow> addr option \<times> 's) \<Rightarrow> ('t \<Rightarrow> bool) \<Rightarrow> ('t \<Rightarrow> addr \<times> usize \<Rightarrow> 's \<Rightarrow> 's) \<Rightarrow>
   (addr \<Rightarrow> byte \<Rightarrow> 's \<Rightarrow> 's) \<Rightarrow> ('r, 't) event \<Rightarrow> live \<times> 's \<Rightarrow> (live \<times> 's) option" where
  "heap_exec1 valid usable alloc frees dealloc poke (Alloc r) c =
     (if valid r
      then case alloc r (snd c) of (Some p, s') \<Rightarrow> Some (add_mset (p, usable r) (fst c), s') | (None, s') \<Rightarrow> Some (fst c, s')
      else None)"
| "heap_exec1 valid usable alloc frees dealloc poke (Free t p n) c =
     (if frees t \<and> (p, n) \<in># fst c then Some (fst c - {#(p, n)#}, dealloc t (p, n) (snd c)) else None)"
| "heap_exec1 valid usable alloc frees dealloc poke (Write a v) c =
     (if \<exists>(p, n) \<in># fst c. p \<le> a \<and> a < p + n then Some (fst c, poke a v (snd c)) else None)"

primrec heap_exec ::
  "('r \<Rightarrow> bool) \<Rightarrow> ('r \<Rightarrow> usize) \<Rightarrow> ('r \<Rightarrow> 's \<Rightarrow> addr option \<times> 's) \<Rightarrow> ('t \<Rightarrow> bool) \<Rightarrow> ('t \<Rightarrow> addr \<times> usize \<Rightarrow> 's \<Rightarrow> 's) \<Rightarrow>
   (addr \<Rightarrow> byte \<Rightarrow> 's \<Rightarrow> 's) \<Rightarrow> ('r, 't) event list \<Rightarrow> live \<times> 's \<Rightarrow> (live \<times> 's) option" where
  "heap_exec valid usable alloc frees dealloc poke [] c = Some c"
| "heap_exec valid usable alloc frees dealloc poke (e # es) c =
     (case heap_exec1 valid usable alloc frees dealloc poke e c of
        None \<Rightarrow> None | Some c' \<Rightarrow> heap_exec valid usable alloc frees dealloc poke es c')"

lemma heap_exec1_step:
  assumes "heap_exec1 valid usable alloc frees dealloc poke e c = Some c'"
  shows "heap_step valid usable alloc frees dealloc poke c e c'"
proof (cases e)
  case (Alloc r)
  obtain o' s' where a: "alloc r (snd c) = (o', s')" by (cases "alloc r (snd c)")
  with Alloc assms show ?thesis
    by (cases c; cases o') (auto intro: heap_step.intros split: if_splits)
next
  case (Free t p n)
  with assms have "(p, n) \<in># fst c" "frees t" and c': "c' = (fst c - {#(p, n)#}, dealloc t (p, n) (snd c))" by (auto split: if_splits)
  then have "c = (add_mset (p, n) (fst c - {#(p, n)#}), snd c)" by (cases c) simp
  then show ?thesis unfolding Free c' using heap_step.free [of frees t] \<open>frees t\<close> by metis
next
  case (Write a v)
  with assms show ?thesis by (cases c) (auto intro: heap_step.client_write split: if_splits)
qed

lemma heap_exec_run:
  assumes "heap_run valid usable alloc frees dealloc poke c0 es0 c"
    and "heap_exec valid usable alloc frees dealloc poke es c = Some c'"
  shows "heap_run valid usable alloc frees dealloc poke c0 (es0 @ es) c'"
  using assms
proof (induction es arbitrary: es0 c)
  case (Cons e es)
  from Cons.prems(2) obtain c1 where c1: "heap_exec1 valid usable alloc frees dealloc poke e c = Some c1"
    "heap_exec valid usable alloc frees dealloc poke es c1 = Some c'" by (auto split: option.splits)
  have "heap_run valid usable alloc frees dealloc poke c0 (es0 @ [e]) c1"
    by (rule run_snoc [OF Cons.prems(1) heap_exec1_step [OF c1(1)]])
  from Cons.IH [OF this c1(2)] show ?case by simp
qed simp

lemmas heap_execI = heap_exec_run [OF run_nil, simplified]

locale heap_allocator =
  fixes inv :: "live \<Rightarrow> 's \<Rightarrow> bool"
    and valid :: "'r \<Rightarrow> bool"
    and usable :: "'r \<Rightarrow> usize"
    and alloc :: "'r \<Rightarrow> 's \<Rightarrow> addr option \<times> 's"
    and frees :: "'t \<Rightarrow> bool"
    and dealloc :: "'t \<Rightarrow> addr \<times> usize \<Rightarrow> 's \<Rightarrow> 's"
    and poke :: "addr \<Rightarrow> byte \<Rightarrow> 's \<Rightarrow> 's"
    and peek :: "'s \<Rightarrow> addr \<Rightarrow> byte"
    and space :: "'s \<Rightarrow> addr set"
  assumes alloc_inv: "inv L s \<Longrightarrow> valid r \<Longrightarrow> alloc r s = (Some p, s') \<Longrightarrow> inv (add_mset (p, usable r) L) s'"
    and alloc_fail: "inv L s \<Longrightarrow> valid r \<Longrightarrow> alloc r s = (None, s') \<Longrightarrow> inv L s'"
    and alloc_keeps: "inv L s \<Longrightarrow> valid r \<Longrightarrow> alloc r s = (res, s') \<Longrightarrow> (p, n) \<in># L \<Longrightarrow> p \<le> a \<Longrightarrow> a < p + n \<Longrightarrow>
      peek s' a = peek s a"
    and dealloc_inv: "inv (add_mset (p, n) L) s \<Longrightarrow> frees t \<Longrightarrow> inv L (dealloc t (p, n) s)"
    and dealloc_keeps: "inv (add_mset (p, n) L) s \<Longrightarrow> frees t \<Longrightarrow> (q, k) \<in># L \<Longrightarrow> q \<le> a \<Longrightarrow> a < q + k \<Longrightarrow>
      peek (dealloc t (p, n) s) a = peek s a"
    and poke_inv: "inv L s \<Longrightarrow> (p, n) \<in># L \<Longrightarrow> p \<le> a \<Longrightarrow> a < p + n \<Longrightarrow> inv L (poke a v s)"
    and poke_peek: "peek (poke a v s) b = (if b = a then v else peek s b)"
    and inv_exclusive: "inv L s \<Longrightarrow> exclusive (extents L)"
    and inv_space: "inv L s \<Longrightarrow> (p, n) \<in># L \<Longrightarrow> 0 < p \<and> {p..<p + n} \<subseteq> space s"
begin

lemma step_inv:
  "heap_step valid usable alloc frees dealloc poke c e c' \<Longrightarrow> inv (fst c) (snd c) \<Longrightarrow> inv (fst c') (snd c')"
  by (cases rule: heap_step.cases, assumption)
    (auto intro: alloc_inv alloc_fail dealloc_inv poke_inv)

lemma run_inv:
  "heap_run valid usable alloc frees dealloc poke c es c' \<Longrightarrow> inv (fst c) (snd c) \<Longrightarrow> inv (fst c') (snd c')"
  by (induction rule: heap_run.induct) (auto intro: step_inv)

lemma run_exclusive:
  "heap_run valid usable alloc frees dealloc poke (L, s) es (L', s') \<Longrightarrow> inv L s \<Longrightarrow>
    exclusive (extents L') \<and> (\<forall>(p, n) \<in># L'. 0 < p \<and> {p..<p + n} \<subseteq> space s')"
  by (drule run_inv) (auto dest: inv_exclusive inv_space)

lemma alloc_disjoint:
  assumes "inv L s" "valid r" "alloc r s = (Some p, s')" "(q, k) \<in># L"
  shows "{p..<p + usable r} \<inter> {q..<q + k} = {}"
  using inv_exclusive [OF alloc_inv [OF assms(1-3)]] extents_memI [OF assms(4)]
  unfolding extents_simps exclusive_add_iff by blast

lemma step_keeps:
  assumes "heap_step valid usable alloc frees dealloc poke (L, s) e (L', s')" and "inv L s"
    and "(p, n) \<in># L" "p \<le> a" "a < p + n" and "\<And>v. e \<noteq> Write a v" and "\<And>t. e \<noteq> Free t p n"
  shows "(p, n) \<in># L' \<and> peek s' a = peek s a"
  using assms
  by (cases rule: heap_step.cases) (auto simp: poke_peek dest: alloc_keeps dealloc_keeps)

lemma run_keeps:
  assumes "heap_run valid usable alloc frees dealloc poke c es c'" and "inv (fst c) (snd c)"
    and "(p, n) \<in># fst c" "p \<le> a" "a < p + n"
    and "\<And>v. Write a v \<notin> set es" and "\<And>t. Free t p n \<notin> set es"
  shows "(p, n) \<in># fst c' \<and> peek (snd c') a = peek (snd c) a"
  using assms
proof (induction rule: heap_run.induct)
  case (run_snoc c es c' e c'')
  then have "(p, n) \<in># fst c' \<and> peek (snd c') a = peek (snd c) a" by simp
  moreover have "inv (fst c') (snd c')" using run_snoc by (blast intro: run_inv)
  ultimately show ?case
    using run_snoc step_keeps [of "fst c'" "snd c'" e "fst c''" "snd c''" p n a] by auto
qed simp

end

end
