(* ===== verification/Slab.thy ===== *)
theory Slab
  imports SizeClass Heap_Contract
begin

text \<open>
  The slab allocator, \<open>aethalloc-core/src/slab.rs\<close>: fixed-size slots carved from at most
  \<open>MAX_SLAB_PAGES\<close> pages by bump allocation, freed slots kept on a list whose links live in the
  free slots themselves as \<open>Option<usize>\<close> values (sixteen bytes: discriminant, then payload).
\<close>

definition SLAB_CLASSES :: usize where
  "SLAB_CLASSES = 11"

definition MAX_SLAB_PAGES :: usize where
  "MAX_SLAB_PAGES = 4"

record Slab =
  slot_size :: usize
  slots_per_page :: usize
  free_head :: "usize option"
  allocated :: usize
  slab_pages :: "addr option list"
  num_pages :: usize
  next_slot :: usize

definition read_option :: "mem \<Rightarrow> addr \<Rightarrow> usize option" where
  "read_option m a = (if read_usize m a = 0 then None else Some (read_usize m (a + 8)))"

definition write_option :: "usize option \<Rightarrow> addr \<Rightarrow> mem \<Rightarrow> mem" where
  "write_option v a m =
     (case v of None \<Rightarrow> write_usize 0 a m | Some x \<Rightarrow> write_usize x (a + 8) (write_usize 1 a m))"

definition Slab_new :: "usize \<Rightarrow> Slab" where
  "Slab_new sz = \<lparr>slot_size = sz, slots_per_page = PAGE_SIZE div sz, free_head = None, allocated = 0,
     slab_pages = replicate MAX_SLAB_PAGES None, num_pages = 0, next_slot = 0\<rparr>"

text \<open>\<open>None\<close> is the early return of \<open>?\<close>; both callers keep the array index below the bound.\<close>

definition Slab_alloc_new_page :: "syscalls \<Rightarrow> Slab \<times> os \<Rightarrow> bool \<times> Slab \<times> os" where
  "Slab_alloc_new_page K = (\<lambda>(self, s).
     case PageAllocator_alloc K 1 s of
       (None, s') \<Rightarrow> (False, self, s')
     | (Some page, s') \<Rightarrow>
         (True, self\<lparr>slab_pages := (slab_pages self)[num_pages self := Some page],
                     num_pages := num_pages self + 1, next_slot := 0\<rparr>, s'))"

definition Slab_bump :: "Slab \<times> os \<Rightarrow> addr option \<times> Slab \<times> os" where
  "Slab_bump = (\<lambda>(self, s).
     let page = the (slab_pages self ! (num_pages self - 1));
         offset = wmul (next_slot self) (slot_size self)
     in (Some (page + offset),
         self\<lparr>next_slot := next_slot self + 1, allocated := wadd (allocated self) 1\<rparr>, s))"

definition Slab_alloc :: "syscalls \<Rightarrow> Slab \<times> os \<Rightarrow> addr option \<times> Slab \<times> os" where
  "Slab_alloc K st =
     (case free_head (fst st) of
        Some free_ptr \<Rightarrow>
          (Some free_ptr,
           (fst st)\<lparr>free_head := read_option (mem (snd st)) free_ptr,
                    allocated := wadd (allocated (fst st)) 1\<rparr>, snd st)
      | None \<Rightarrow>
          (case (if num_pages (fst st) = 0 then Slab_alloc_new_page K st else (True, st)) of
             (False, st1) \<Rightarrow> (None, st1)
           | (True, st1) \<Rightarrow>
               if next_slot (fst st1) \<ge> slots_per_page (fst st1)
               then if num_pages (fst st1) \<ge> MAX_SLAB_PAGES then (None, st1)
                    else (case Slab_alloc_new_page K st1 of
                            (False, st2) \<Rightarrow> (None, st2)
                          | (True, st2) \<Rightarrow> Slab_bump st2)
               else Slab_bump st1))"

text \<open>The loop that looks for the page of a pointer.\<close>

definition Slab_owns :: "Slab \<Rightarrow> addr \<Rightarrow> bool" where
  "Slab_owns self p =
     (\<exists>i \<in> {0..<num_pages self}.
        let page_start = the (slab_pages self ! i); page_end = page_start + PAGE_SIZE
        in p \<ge> page_start \<and> p < page_end)"

definition Slab_dealloc :: "addr \<Rightarrow> Slab \<times> os \<Rightarrow> Slab \<times> os" where
  "Slab_dealloc p = (\<lambda>(self, s).
     if \<not> Slab_owns self p then (self, s)
     else (self\<lparr>free_head := Some p, allocated := wsub (allocated self) 1\<rparr>,
           s\<lparr>mem := write_option (free_head self) p (mem s)\<rparr>))"

fun Slab_drop_pages :: "syscalls \<Rightarrow> addr option list \<Rightarrow> os \<Rightarrow> os" where
  "Slab_drop_pages K [] s = s"
| "Slab_drop_pages K (None # ps) s = Slab_drop_pages K ps s"
| "Slab_drop_pages K (Some page # ps) s = Slab_drop_pages K ps (PageAllocator_dealloc K page 1 s)"

definition Slab_drop :: "syscalls \<Rightarrow> Slab \<times> os \<Rightarrow> os" where
  "Slab_drop K = (\<lambda>(self, s). Slab_drop_pages K (take (num_pages self) (slab_pages self)) s)"

subsection \<open>Invariant\<close>

text \<open>The free list, followed through the links stored in the free slots.\<close>

primrec slab_chain :: "mem \<Rightarrow> usize option \<Rightarrow> addr list \<Rightarrow> bool" where
  "slab_chain m h [] \<longleftrightarrow> h = None"
| "slab_chain m h (a # as) \<longleftrightarrow> h = Some a \<and> slab_chain m (read_option m a) as"

definition slab_page :: "Slab \<Rightarrow> nat \<Rightarrow> addr" where
  "slab_page self i = the (slab_pages self ! i)"

text \<open>The part of the newest page that has never been handed out.\<close>

definition slab_fresh :: "Slab \<Rightarrow> addr set" where
  "slab_fresh self =
     (if num_pages self = 0 then {}
      else {slab_page self (num_pages self - 1) + next_slot self * slot_size self
            ..< slab_page self (num_pages self - 1) + 4096})"

definition slab_slot :: "Slab \<Rightarrow> addr \<Rightarrow> bool" where
  "slab_slot self p \<longleftrightarrow>
     0 < p \<and> p mod slot_size self = 0 \<and>
     (\<exists>i < num_pages self. slab_page self i \<le> p \<and> p + slot_size self \<le> slab_page self i + 4096)"

definition slab_extents :: "usize \<Rightarrow> addr list \<Rightarrow> addr set multiset" where
  "slab_extents n fs = image_mset (\<lambda>p. {p..<p + n}) (mset fs)"

definition slab_shape :: "Slab \<Rightarrow> os \<Rightarrow> bool" where
  "slab_shape self s \<longleftrightarrow>
     16 \<le> slot_size self \<and> (\<exists>k \<le> 12. slot_size self = 2 ^ k) \<and>
     slots_per_page self = 4096 div slot_size self \<and>
     length (slab_pages self) = MAX_SLAB_PAGES \<and> num_pages self \<le> MAX_SLAB_PAGES \<and>
     next_slot self \<le> slots_per_page self \<and>
     (\<forall>i < num_pages self. slab_pages self ! i \<noteq> None \<and> 0 < slab_page self i \<and>
        slab_page self i mod 4096 = 0 \<and> slab_page self i + 4096 \<le> 2 ^ 63 \<and>
        {slab_page self i..<slab_page self i + 4096} \<subseteq> mapped s)"

definition slab_inv :: "live \<Rightarrow> Slab \<times> os \<Rightarrow> bool" where
  "slab_inv L = (\<lambda>(self, s).
     slab_shape self s \<and>
     (\<forall>(p, n) \<in># L. n = slot_size self \<and> slab_slot self p) \<and>
     allocated self = size L mod 2 ^ 64 \<and>
     (\<exists>fs. slab_chain (mem s) (free_head self) fs \<and> (\<forall>p \<in> set fs. slab_slot self p) \<and>
        exclusive (slab_extents (slot_size self) fs + extents L + {#slab_fresh self#})))"

lemma slab_extents_simps [simp]:
  "slab_extents n [] = {#}"
  "slab_extents n (p # fs) = add_mset {p..<p + n} (slab_extents n fs)"
  by (simp_all add: slab_extents_def)

lemma read_option_cong:
  "(\<And>x. a \<le> x \<Longrightarrow> x < a + 16 \<Longrightarrow> m x = m' x) \<Longrightarrow> read_option m a = read_option m' a"
  unfolding read_option_def using read_le_cong [of a 8 m m'] read_le_cong [of "a + 8" 8 m m'] by simp

lemma slab_chain_cong:
  "(\<And>p x. p \<in> set fs \<Longrightarrow> p \<le> x \<Longrightarrow> x < p + 16 \<Longrightarrow> m x = m' x) \<Longrightarrow> slab_chain m h fs = slab_chain m' h fs"
proof (induction fs arbitrary: h)
  case (Cons a fs)
  have "read_option m a = read_option m' a" by (rule read_option_cong, rule Cons.prems [of a]) auto
  moreover have "slab_chain m g fs = slab_chain m' g fs" for g
    by (rule Cons.IH, rule Cons.prems) auto
  ultimately show ?case by simp
qed simp

lemma read_write_option [simp]:
  "(\<And>x. v = Some x \<Longrightarrow> x < 2 ^ 64) \<Longrightarrow> read_option (write_option v a m) a = v"
  by (cases v) (simp_all add: read_option_def write_option_def)

lemma write_option_other [simp]: "x < a \<or> a + 16 \<le> x \<Longrightarrow> write_option v a m x = m x"
  by (cases v) (auto simp: write_option_def)

lemma slab_slot_mapped:
  assumes "slab_shape self s" and "slab_slot self p"
  shows "{p..<p + slot_size self} \<subseteq> mapped s"
proof -
  obtain i where i: "i < num_pages self" "slab_page self i \<le> p" "p + slot_size self \<le> slab_page self i + 4096"
    using assms(2) by (auto simp: slab_slot_def)
  then have "{p..<p + slot_size self} \<subseteq> {slab_page self i..<slab_page self i + 4096}" by auto
  also have "\<dots> \<subseteq> mapped s" using assms(1) i(1) by (simp add: slab_shape_def)
  finally show ?thesis .
qed

lemma slab_fresh_mapped:
  assumes "slab_shape self s" shows "slab_fresh self \<subseteq> mapped s"
proof (cases "num_pages self = 0")
  case False
  then have "slab_fresh self \<subseteq> {slab_page self (num_pages self - 1)..<slab_page self (num_pages self - 1) + 4096}"
    by (auto simp: slab_fresh_def)
  also have "\<dots> \<subseteq> mapped s" using assms False by (simp add: slab_shape_def)
  finally show ?thesis .
qed (simp add: slab_fresh_def)

text \<open>All memory the slab accounts for is mapped.\<close>

lemma slab_all_mapped:
  assumes "slab_shape self s" and "\<forall>p \<in> set fs. slab_slot self p"
    and "\<forall>(p, n) \<in># L. n = slot_size self \<and> slab_slot self p"
    and "E \<in># slab_extents (slot_size self) fs + extents L + {#slab_fresh self#}"
  shows "E \<subseteq> mapped s"
proof -
  consider p where "slab_slot self p" "E = {p..<p + slot_size self}" | "E = slab_fresh self"
    using assms(2-4) by (auto simp: slab_extents_def extents_def)
  then show ?thesis
    by cases (simp_all add: slab_slot_mapped [OF assms(1)] slab_fresh_mapped [OF assms(1)])
qed

subsection \<open>The operations keep the invariant\<close>

lemma slab_page_append:
  assumes "slab_shape self s" and "num_pages self < MAX_SLAB_PAGES"
  shows "i < num_pages self \<Longrightarrow>
      slab_page (self\<lparr>slab_pages := (slab_pages self)[num_pages self := Some p], num_pages := n, next_slot := j\<rparr>) i
        = slab_page self i"
    and "slab_page (self\<lparr>slab_pages := (slab_pages self)[num_pages self := Some p], num_pages := n, next_slot := j\<rparr>)
      (num_pages self) = p"
  using assms by (auto simp: slab_page_def slab_shape_def)

lemma slab_inv_new_page:
  assumes inv: "slab_inv L (self, s)" and room: "num_pages self < MAX_SLAB_PAGES"
    and pg: "pages_granted 1 s p s'"
  shows "slab_inv L (self\<lparr>slab_pages := (slab_pages self)[num_pages self := Some p],
                          num_pages := num_pages self + 1, next_slot := 0\<rparr>, s')"
    (is "slab_inv L (?self, s')")
proof -
  from inv obtain fs where sh: "slab_shape self s" and
    live: "\<forall>(p, n) \<in># L. n = slot_size self \<and> slab_slot self p" and
    cnt: "allocated self = size L mod 2 ^ 64" and
    ch: "slab_chain (mem s) (free_head self) fs" and fs: "\<forall>p \<in> set fs. slab_slot self p" and
    ex: "exclusive (slab_extents (slot_size self) fs + extents L + {#slab_fresh self#})"
    by (auto simp: slab_inv_def)
  note app = slab_page_append [OF sh room]
  have mp: "mapped s' = mapped s \<union> {p..<p + 4096}" and keep: "\<And>a. a \<in> mapped s \<Longrightarrow> mem s' a = mem s a"
    and new: "{p..<p + 4096} \<inter> mapped s = {}"
    using pg by (auto simp: pages_granted_def)
  have slot: "slab_slot ?self q" if "slab_slot self q" for q
    using that app(1) less_Suc_eq unfolding slab_slot_def by auto
  have len: "num_pages self < length (slab_pages self)" using sh room by (simp add: slab_shape_def)
  have page_ok: "slab_pages ?self ! i \<noteq> None \<and> 0 < slab_page ?self i \<and> slab_page ?self i mod 4096 = 0 \<and>
      slab_page ?self i + 4096 \<le> 2 ^ 63 \<and> {slab_page ?self i..<slab_page ?self i + 4096} \<subseteq> mapped s'" if i: "i < Suc (num_pages self)" for i
  proof (cases "i = num_pages self")
    case True
    have "0 < p" "p mod 4096 = 0" "p + 4096 \<le> 2 ^ 63" using pg by (auto simp: pages_granted_def)
    then show ?thesis unfolding True app(2) using len mp by simp
  next
    case False
    with i have lt: "i < num_pages self" by simp
    then show ?thesis unfolding app(1) [OF lt] using sh mp by (auto simp: slab_shape_def)
  qed
  have shape: "slab_shape ?self s'"
    unfolding slab_shape_def using sh room page_ok by (auto simp: slab_shape_def)
  have fresh: "slab_fresh ?self = {p..<p + 4096}" using app(2) by (simp add: slab_fresh_def)
  have chain: "slab_chain (mem s') (free_head self) fs"
  proof (subst slab_chain_cong [where m' = "mem s"])
    fix q x assume q: "q \<in> set fs" "q \<le> x" "x < q + 16"
    have "16 \<le> slot_size self" using sh by (simp add: slab_shape_def)
    with q have "x \<in> {q..<q + slot_size self}" by simp
    then show "mem s' x = mem s x" using slab_slot_mapped [OF sh] fs q(1) keep by blast
  qed (rule ch)
  have "exclusive (slab_extents (slot_size self) fs + extents L)"
    using ex exclusive_unionD by blast
  moreover have "{p..<p + 4096} \<inter> F = {}" if "F \<in># slab_extents (slot_size self) fs + extents L" for F
    using slab_all_mapped [OF sh fs live, of F] that new by auto
  ultimately have "exclusive (slab_extents (slot_size self) fs + extents L + {#slab_fresh ?self#})"
    unfolding fresh by (simp add: exclusive_add_iff)
  then show ?thesis
    using shape live slot cnt chain fs by (auto simp: slab_inv_def)
qed

lemma slab_inv_bump:
  assumes inv: "slab_inv L (self, s)" and pos: "0 < num_pages self"
    and room: "next_slot self < slots_per_page self"
    and b: "Slab_bump (self, s) = (r, st')"
  shows "\<exists>p. r = Some p \<and> slab_inv (add_mset (p, slot_size self) L) st' \<and> snd st' = s \<and>
    slot_size (fst st') = slot_size self"
proof -
  from inv obtain fs where sh: "slab_shape self s" and
    live: "\<forall>(p, n) \<in># L. n = slot_size self \<and> slab_slot self p" and
    cnt: "allocated self = size L mod 2 ^ 64" and
    ch: "slab_chain (mem s) (free_head self) fs" and fs: "\<forall>p \<in> set fs. slab_slot self p" and
    ex: "exclusive (slab_extents (slot_size self) fs + extents L + {#slab_fresh self#})"
    by (auto simp: slab_inv_def)
  let ?pg = "slab_page self (num_pages self - 1)"
  let ?p = "?pg + next_slot self * slot_size self"
  let ?self = "self\<lparr>next_slot := next_slot self + 1, allocated := wadd (allocated self) 1\<rparr>"
  obtain k where k: "k \<le> 12" "slot_size self = 2 ^ k" and big: "16 \<le> slot_size self"
    using sh by (auto simp: slab_shape_def)
  have sl: "Suc (next_slot self) * slot_size self \<le> 4096"
  proof -
    have "Suc (next_slot self) \<le> 4096 div slot_size self" using room sh by (simp add: slab_shape_def)
    then show ?thesis by (metis div_times_less_eq_dividend mult_le_mono1 order_trans)
  qed
  have pg: "0 < ?pg" "?pg mod 4096 = 0"
    using sh pos by (auto simp: slab_shape_def)
  have "(2::nat) ^ k dvd 4096" using le_imp_power_dvd [OF k(1), of "2::nat"] by simp
  then have al: "?p mod slot_size self = 0" using pg(2) k(2) by (metis mod_mult_self1 dvd_trans mod_0_imp_dvd mod_eq_0_iff_dvd)
  have slot: "slab_slot self ?p"
    unfolding slab_slot_def using al pg pos sl
    by (intro conjI exI [of _ "num_pages self - 1"]) (auto simp: algebra_simps)
  have r: "r = Some ?p" "st' = (?self, s)"
    using b sl by (auto simp: Slab_bump_def slab_page_def Let_def wmul_in_range)
  have fresh: "slab_fresh self = {?p..<?p + slot_size self} \<union> slab_fresh ?self"
    "{?p..<?p + slot_size self} \<inter> slab_fresh ?self = {}"
    using pos sl by (auto simp: slab_fresh_def slab_page_def algebra_simps)
  have "exclusive (slab_extents (slot_size self) fs + extents (add_mset (?p, slot_size self) L) + {#slab_fresh ?self#})"
    by (rule exclusive_mono [OF ex]) (use fresh in auto)
  moreover have "slab_shape ?self s" using sh room by (auto simp: slab_shape_def slab_page_def)
  moreover have "slab_slot ?self q = slab_slot self q" for q by (simp add: slab_slot_def slab_page_def)
  moreover have "allocated ?self = size (add_mset (?p, slot_size self) L) mod 2 ^ 64"
    by (simp add: wadd_def cnt mod_Suc_eq)
  ultimately have "slab_inv (add_mset (?p, slot_size self) L) st'"
    unfolding slab_inv_def r using live slot ch fs by auto
  then show ?thesis using r by simp
qed

lemma slab_inv_pop:
  assumes inv: "slab_inv L (self, s)" and h: "free_head self = Some p"
  shows "slab_inv (add_mset (p, slot_size self) L)
    (self\<lparr>free_head := read_option (mem s) p, allocated := wadd (allocated self) 1\<rparr>, s)"
    (is "slab_inv _ (?self, s)")
proof -
  from inv obtain gs where sh: "slab_shape self s" and
    live: "\<forall>(p, n) \<in># L. n = slot_size self \<and> slab_slot self p" and
    cnt: "allocated self = size L mod 2 ^ 64" and
    gs: "slab_chain (mem s) (free_head self) gs" "\<forall>p \<in> set gs. slab_slot self p"
      "exclusive (slab_extents (slot_size self) gs + extents L + {#slab_fresh self#})"
    by (auto simp: slab_inv_def)
  obtain fs where "gs = p # fs" using gs(1) h by (cases gs) auto
  with gs h have ch: "slab_chain (mem s) (read_option (mem s) p) fs" and
    fs: "slab_slot self p" "\<forall>p \<in> set fs. slab_slot self p" and
    ex: "exclusive (slab_extents (slot_size self) (p # fs) + extents L + {#slab_fresh self#})"
    by auto
  have "slab_shape ?self s" using sh by (auto simp: slab_shape_def slab_page_def)
  moreover have "slab_slot ?self q = slab_slot self q" for q by (simp add: slab_slot_def slab_page_def)
  moreover have "slab_fresh ?self = slab_fresh self" by (simp add: slab_fresh_def slab_page_def)
  moreover have "allocated ?self = size (add_mset (p, slot_size self) L) mod 2 ^ 64"
    by (simp add: wadd_def cnt mod_Suc_eq)
  ultimately show ?thesis using live ch fs ex by (auto simp: slab_inv_def)
qed

lemma slab_inv_push:
  assumes inv: "slab_inv (add_mset (p, n) L) (self, s)"
  shows "slab_inv L (Slab_dealloc p (self, s))"
    and "a \<notin> {p..<p + n} \<Longrightarrow> mem (snd (Slab_dealloc p (self, s))) a = mem s a"
    and "mapped (snd (Slab_dealloc p (self, s))) = mapped s"
proof -
  let ?self = "self\<lparr>free_head := Some p, allocated := wsub (allocated self) 1\<rparr>"
  let ?s = "s\<lparr>mem := write_option (free_head self) p (mem s)\<rparr>"
  from inv obtain fs where sh: "slab_shape self s" and
    live: "n = slot_size self" "slab_slot self p" "\<forall>(p, n) \<in># L. n = slot_size self \<and> slab_slot self p" and
    cnt: "allocated self = Suc (size L) mod 2 ^ 64" and
    ch: "slab_chain (mem s) (free_head self) fs" and fs: "\<forall>p \<in> set fs. slab_slot self p" and
    ex: "exclusive (slab_extents (slot_size self) fs + extents (add_mset (p, n) L) + {#slab_fresh self#})"
    by (auto simp: slab_inv_def)
  have big: "16 \<le> slot_size self" using sh by (simp add: slab_shape_def)
  have "Slab_owns self p"
    using live(2) big unfolding Slab_owns_def slab_slot_def slab_page_def
    by (fastforce simp: PAGE_SIZE_def Let_def)
  then have d: "Slab_dealloc p (self, s) = (?self, ?s)" by (simp add: Slab_dealloc_def)
  have fit: "x < 2 ^ 64" if "free_head self = Some x" for x
  proof -
    have "slab_slot self x" using ch fs that by (cases fs) auto
    then show ?thesis using sh unfolding slab_slot_def slab_shape_def by fastforce
  qed
  show "mapped (snd (Slab_dealloc p (self, s))) = mapped s" by (simp add: d)
  show "a \<notin> {p..<p + n} \<Longrightarrow> mem (snd (Slab_dealloc p (self, s))) a = mem s a"
    using live(1) big by (auto simp: d)
  have ch': "slab_chain (mem ?s) (Some p) (p # fs)"
  proof -
    have "slab_chain (mem ?s) (free_head self) fs"
    proof (subst slab_chain_cong [where m' = "mem s"])
      fix q x assume q: "q \<in> set fs" "q \<le> x" "x < q + 16"
      have "{q..<q + slot_size self} \<inter> {p..<p + n} = {}"
        using ex q(1) by (intro exclusive_disjoint [where M = "slab_extents (slot_size self) fs"
          and N = "extents (add_mset (p, n) L) + {#slab_fresh self#}"])
          (auto simp: slab_extents_def ac_simps)
      with q(2,3) big live(1) show "mem ?s x = mem s x" by (auto intro!: write_option_other)
    qed (rule ch)
    then show ?thesis using fit by simp
  qed
  have "slab_shape ?self ?s" using sh by (auto simp: slab_shape_def slab_page_def)
  moreover have "slab_slot ?self q = slab_slot self q" for q by (simp add: slab_slot_def slab_page_def)
  moreover have "slab_fresh ?self = slab_fresh self" by (simp add: slab_fresh_def slab_page_def)
  moreover have "allocated ?self = size L mod 2 ^ 64" using wsub_Suc_mod [of "size L"] cnt by simp
  moreover have "exclusive (slab_extents (slot_size self) (p # fs) + extents L + {#slab_fresh self#})"
    using ex live(1) by simp
  ultimately show "slab_inv L (Slab_dealloc p (self, s))"
    unfolding d slab_inv_def using live fs ch' by (auto simp del: slab_extents_simps slab_chain.simps intro!: exI [of _ "p # fs"])
qed

context kernel
begin

lemma Slab_alloc_new_page_cases:
  assumes "slab_inv L st" and "num_pages (fst st) < MAX_SLAB_PAGES"
    and "Slab_alloc_new_page K st = (ok, st')"
  shows "slab_inv L st' \<and> slot_size (fst st') = slot_size (fst st) \<and>
    slots_per_page (fst st') = slots_per_page (fst st) \<and>
    mapped (snd st) \<subseteq> mapped (snd st') \<and>
    (\<forall>a \<in> mapped (snd st). mem (snd st') a = mem (snd st) a) \<and>
    (ok \<longrightarrow> next_slot (fst st') = 0 \<and> num_pages (fst st') = Suc (num_pages (fst st)))"
proof -
  obtain self s where st: "st = (self, s)" by (cases st)
  obtain r s' where r: "PageAllocator_alloc K 1 s = (r, s')" by fastforce
  show ?thesis
  proof (cases r)
    case None
    then have "s' = s" using PageAllocator_alloc_None r by simp
    with None assms r st show ?thesis by (auto simp: Slab_alloc_new_page_def)
  next
    case (Some p)
    with r have g: "pages_granted 1 s p s'" by (auto intro: PageAllocator_alloc_Some)
    from assms r st Some slab_inv_new_page [OF _ _ g, of L self] show ?thesis
      using g by (auto simp: Slab_alloc_new_page_def pages_granted_def)
  qed
qed

lemma Slab_alloc_cases:
  assumes inv: "slab_inv L st" and al: "Slab_alloc K st = (r, st')"
  shows "(case r of None \<Rightarrow> slab_inv L st' | Some p \<Rightarrow> slab_inv (add_mset (p, slot_size (fst st)) L) st') \<and>
    slot_size (fst st') = slot_size (fst st) \<and> mapped (snd st) \<subseteq> mapped (snd st') \<and>
    (\<forall>a \<in> mapped (snd st). mem (snd st') a = mem (snd st) a)"
proof -
  have bump: ?thesis if s1: "slab_inv L st1" "slot_size (fst st1) = slot_size (fst st)"
      "0 < num_pages (fst st1)" "next_slot (fst st1) < slots_per_page (fst st1)"
      "mapped (snd st) \<subseteq> mapped (snd st1)"
      "\<forall>a \<in> mapped (snd st). mem (snd st1) a = mem (snd st) a" "Slab_bump st1 = (r, st')" for st1
    using slab_inv_bump [of L "fst st1" "snd st1" r st'] s1 by auto
  have spp: "slab_inv L st1 \<Longrightarrow> 0 < slots_per_page (fst st1)" for st1
    by (auto simp: slab_inv_def slab_shape_def div_greater_zero_iff intro: power_le_imp_le_exp
      split: prod.splits dest: power_increasing [of _ 12 "2::nat"])
  show ?thesis
  proof (cases "free_head (fst st)")
    case (Some p)
    then have "r = Some p" and "st' = ((fst st)\<lparr>free_head := read_option (mem (snd st)) p,
        allocated := wadd (allocated (fst st)) 1\<rparr>, snd st)"
      using al by (simp_all add: Slab_alloc_def)
    with slab_inv_pop [of L "fst st" "snd st" p] inv Some show ?thesis by simp
  next
    case None
    define c where "c = (if num_pages (fst st) = 0 then Slab_alloc_new_page K st else (True, st))"
    obtain ok st1 where c: "c = (ok, st1)" by (cases c)
    have s1: "slab_inv L st1 \<and> slot_size (fst st1) = slot_size (fst st) \<and>
        mapped (snd st) \<subseteq> mapped (snd st1) \<and>
        (\<forall>a \<in> mapped (snd st). mem (snd st1) a = mem (snd st) a) \<and> (ok \<longrightarrow> 0 < num_pages (fst st1))"
      using Slab_alloc_new_page_cases [OF inv, of ok st1] c inv
      by (auto simp: c_def MAX_SLAB_PAGES_def split: if_splits)
    have al': "(r, st') = (if \<not> ok then (None, st1)
      else if next_slot (fst st1) \<ge> slots_per_page (fst st1)
           then if num_pages (fst st1) \<ge> MAX_SLAB_PAGES then (None, st1)
                else (case Slab_alloc_new_page K st1 of (False, st2) \<Rightarrow> (None, st2) | (True, st2) \<Rightarrow> Slab_bump st2)
           else Slab_bump st1)"
      using al None c unfolding Slab_alloc_def c_def [symmetric] by (auto split: bool.splits)
    show ?thesis
    proof (cases "ok \<and> num_pages (fst st1) < MAX_SLAB_PAGES \<and> slots_per_page (fst st1) \<le> next_slot (fst st1)")
      case True
      obtain ok2 st2 where n2: "Slab_alloc_new_page K st1 = (ok2, st2)" by (cases "Slab_alloc_new_page K st1")
      note s2 = Slab_alloc_new_page_cases [OF conjunct1 [OF s1] _ n2]
      show ?thesis
      proof (cases ok2)
        case t2: True
        with al' True n2 have "Slab_bump st2 = (r, st')" by auto
        then show ?thesis using s1 s2 True t2 spp [of st2] by (intro bump [of st2]) auto
      next
        case False
        with al' True n2 s1 s2 show ?thesis by auto
      qed
    next
      case False
      with al' s1 show ?thesis using bump [of st1] by (auto split: if_splits)
    qed
  qed
qed

end

subsection \<open>The slab as an allocator\<close>

text \<open>The client's view: a byte store inside the address space of the slab.\<close>

definition slab_poke :: "addr \<Rightarrow> byte \<Rightarrow> Slab \<times> os \<Rightarrow> Slab \<times> os" where
  "slab_poke a v = (\<lambda>(self, s). (self, s\<lparr>mem := (mem s)(a := v)\<rparr>))"

definition slab_inv_at :: "usize \<Rightarrow> live \<Rightarrow> Slab \<times> os \<Rightarrow> bool" where
  "slab_inv_at z L st \<longleftrightarrow> slab_inv L st \<and> slot_size (fst st) = z"

lemma slab_inv_poke:
  assumes inv: "slab_inv L (self, s)" and mem: "(p, n) \<in># L" "p \<le> a" "a < p + n"
  shows "slab_inv L (self, s\<lparr>mem := (mem s)(a := v)\<rparr>)"
proof -
  from inv obtain fs where sh: "slab_shape self s" and
    ch: "slab_chain (mem s) (free_head self) fs" and fs: "\<forall>p \<in> set fs. slab_slot self p" and
    ex: "exclusive (slab_extents (slot_size self) fs + extents L + {#slab_fresh self#})"
    by (auto simp: slab_inv_def)
  have "slab_chain ((mem s)(a := v)) (free_head self) fs"
  proof (subst slab_chain_cong [where m' = "mem s"])
    fix q x assume q: "q \<in> set fs" "q \<le> x" "x < q + 16"
    have "{q..<q + slot_size self} \<inter> {p..<p + n} = {}"
      using ex q(1) extents_memI [OF mem(1)]
      by (intro exclusive_disjoint [where M = "slab_extents (slot_size self) fs"
        and N = "extents L + {#slab_fresh self#}"]) (auto simp: slab_extents_def ac_simps)
    then show "((mem s)(a := v)) x = mem s x" using q mem sh by (auto simp: slab_shape_def)
  qed (rule ch)
  moreover have "slab_shape self (s\<lparr>mem := (mem s)(a := v)\<rparr>)" using sh by (simp add: slab_shape_def)
  ultimately show ?thesis using inv fs ex by (auto simp: slab_inv_def)
qed

lemma slab_live_slot: "slab_inv L (self, s) \<Longrightarrow> (p, n) \<in># L \<Longrightarrow> n = slot_size self \<and> slab_slot self p"
  by (auto simp: slab_inv_def)

lemma slab_live_mapped: "slab_inv L (self, s) \<Longrightarrow> (p, n) \<in># L \<Longrightarrow> 0 < p \<and> {p..<p + n} \<subseteq> mapped s"
proof -
  assume h: "slab_inv L (self, s)" "(p, n) \<in># L"
  from slab_live_slot [OF h] have "n = slot_size self" "slab_slot self p" by auto
  moreover have "slab_shape self s" using h(1) by (simp add: slab_inv_def)
  ultimately show ?thesis using slab_slot_mapped by (simp add: slab_slot_def)
qed

lemma slab_inv_live_exclusive: "slab_inv L st \<Longrightarrow> exclusive (extents L)"
proof -
  assume "slab_inv L st"
  then obtain M F where "exclusive (M + extents L + {#F#})" by (auto simp: slab_inv_def split: prod.splits)
  then show ?thesis using exclusive_unionD by blast
qed

lemma slab_inv_new:
  "\<exists>k. 4 \<le> k \<and> k \<le> 12 \<and> z = 2 ^ k \<Longrightarrow> slab_inv_at z {#} (Slab_new z, s)"
proof -
  assume "\<exists>k. 4 \<le> k \<and> k \<le> 12 \<and> z = 2 ^ k"
  then obtain k where k: "4 \<le> k" "k \<le> 12" "z = 2 ^ k" by blast
  then have "(2::nat) ^ 4 \<le> z" by (simp only: power_increasing)
  with k show ?thesis
    by (auto simp: slab_inv_at_def slab_inv_def slab_shape_def Slab_new_def PAGE_SIZE_def MAX_SLAB_PAGES_def
      slab_fresh_def exclusive_add_iff intro!: exI [of _ "[]"])
qed

sublocale kernel \<subseteq> slab: heap_allocator "slab_inv_at z" "\<lambda>_::unit. True" "\<lambda>_. z" "\<lambda>_. Slab_alloc K"
  "\<lambda>_. True" "\<lambda>_::unit. \<lambda>(p, _). Slab_dealloc p" slab_poke "\<lambda>st. mem (snd st)" "\<lambda>st. mapped (snd st)" for z
proof (unfold_locales, goal_cases)
  case (1 L s r p s')
  then show ?case using Slab_alloc_cases [of L s "Some p" s'] by (auto simp: slab_inv_at_def)
next
  case (2 L s r s')
  then show ?case using Slab_alloc_cases [of L s None s'] by (auto simp: slab_inv_at_def)
next
  case (3 L s r res s' p n a)
  then show ?case
    using Slab_alloc_cases [of L s res s'] slab_live_mapped [of L "fst s" "snd s" p n]
    by (auto simp: slab_inv_at_def)
next
  case (4 p n L s t)
  then show ?case using slab_inv_push(1) [of p n L "fst s" "snd s"]
    by (auto simp: slab_inv_at_def Slab_dealloc_def split: prod.splits)
next
  case (5 p n L s t q k a)
  then have "{p..<p + n} \<inter> {q..<q + k} = {}"
    using slab_inv_live_exclusive [of "add_mset (p, n) L" s] extents_memI [of q k L]
    unfolding slab_inv_at_def extents_simps exclusive_add_iff by blast
  with 5 show ?case using slab_inv_push(2) [of p n L "fst s" "snd s" a]
    by (auto simp: slab_inv_at_def)
next
  case (6 L s p n a v)
  then show ?case using slab_inv_poke [of L "fst s" "snd s" p n a v]
    by (auto simp: slab_inv_at_def slab_poke_def split: prod.splits)
next
  case (7 a v s b)
  then show ?case by (auto simp: slab_poke_def split: prod.splits)
next
  case (8 L s)
  then show ?case by (auto simp: slab_inv_at_def intro: slab_inv_live_exclusive)
next
  case (9 L s p n)
  then show ?case using slab_live_mapped [of L "fst s" "snd s" p n] by (auto simp: slab_inv_at_def)
qed

subsection \<open>Properties\<close>

definition slab_owned :: "Slab \<Rightarrow> addr set" where
  "slab_owned self = (\<Union>i < num_pages self. {slab_page self i..<slab_page self i + 4096})"

lemma slab_owned_append:
  assumes "num_pages self < length (slab_pages self)"
  shows "slab_owned (self\<lparr>slab_pages := (slab_pages self)[num_pages self := Some p],
      num_pages := num_pages self + 1, next_slot := 0\<rparr>) = slab_owned self \<union> {p..<p + 4096}"
  using assms by (auto simp: slab_owned_def slab_page_def lessThan_Suc nth_list_update)

text \<open>Every page the slab maps is recorded in its page array.\<close>

definition slab_mapped :: "addr set \<Rightarrow> Slab \<times> os \<Rightarrow> bool" where
  "slab_mapped M = (\<lambda>(self, s). mapped s = M \<union> slab_owned self \<and> M \<inter> slab_owned self = {})"

lemma slab_owned_frame [simp]:
  "slab_owned (self\<lparr>free_head := f\<rparr>) = slab_owned self"
  "slab_owned (self\<lparr>allocated := n\<rparr>) = slab_owned self"
  "slab_owned (self\<lparr>next_slot := n\<rparr>) = slab_owned self"
  by (simp_all add: slab_owned_def slab_page_def)

lemma slab_mapped_cong:
  "slab_owned (fst st') = slab_owned (fst st) \<Longrightarrow> mapped (snd st') = mapped (snd st) \<Longrightarrow> slab_mapped M st \<Longrightarrow> slab_mapped M st'"
  by (simp add: slab_mapped_def split_beta)

context kernel
begin

lemma slab_run_inv:
  "heap_run (\<lambda>_::unit. True) (\<lambda>_. z) (\<lambda>_. Slab_alloc K) (\<lambda>_. True) (\<lambda>_::unit. \<lambda>(p, _). Slab_dealloc p) slab_poke c es c' \<Longrightarrow>
    slab_inv_at z (fst c) (snd c) \<Longrightarrow> slab_inv_at z (fst c') (snd c')"
  by (rule slab.run_inv)

lemma slab_mapped_new_page:
  assumes "slab_mapped M st" and "num_pages (fst st) < length (slab_pages (fst st))"
    and "Slab_alloc_new_page K st = (ok, st')"
  shows "slab_mapped M st'"
proof -
  obtain self s where st: "st = (self, s)" by (cases st)
  obtain r s' where r: "PageAllocator_alloc K 1 s = (r, s')" by (cases "PageAllocator_alloc K 1 s")
  show ?thesis
  proof (cases r)
    case None
    with r have "s' = s" using PageAllocator_alloc_None by simp
    with None r st assms show ?thesis by (auto simp: Slab_alloc_new_page_def)
  next
    case (Some p)
    with r have g: "pages_granted 1 s p s'" by (auto intro: PageAllocator_alloc_Some)
    have "st' = (self\<lparr>slab_pages := (slab_pages self)[num_pages self := Some p],
        num_pages := num_pages self + 1, next_slot := 0\<rparr>, s')"
      using assms(3) Some r st by (simp add: Slab_alloc_new_page_def)
    moreover have "{p..<p + 4096} \<inter> mapped s = {}" "mapped s' = mapped s \<union> {p..<p + 4096}"
      using g by (simp_all add: pages_granted_def)
    ultimately show ?thesis
      using assms(1,2) slab_owned_append [of self p] unfolding slab_mapped_def st by auto
  qed
qed

lemma slab_mapped_bump: "slab_mapped M st \<Longrightarrow> Slab_bump st = (r, st') \<Longrightarrow> slab_mapped M st'"
  by (rule slab_mapped_cong [of st' st]) (auto simp: Slab_bump_def Let_def split: prod.splits)

lemma slab_mapped_alloc:
  assumes "slab_inv L st" and "slab_mapped M st" and "Slab_alloc K st = (r, st')"
  shows "slab_mapped M st'"
proof (cases "free_head (fst st)")
  case (Some p)
  with assms(3) show ?thesis
    by (intro slab_mapped_cong [OF _ _ assms(2)]) (auto simp: Slab_alloc_def)
next
  case None
  have len: "slab_inv L st1 \<Longrightarrow> length (slab_pages (fst st1)) = MAX_SLAB_PAGES" for st1
    by (auto simp: slab_inv_def slab_shape_def split: prod.splits)
  obtain ok st1 where c: "(if num_pages (fst st) = 0 then Slab_alloc_new_page K st else (True, st)) = (ok, st1)"
    by (cases "if num_pages (fst st) = 0 then Slab_alloc_new_page K st else (True, st)")
  have 1: "slab_mapped M st1" "slab_inv L st1"
    using c assms(1,2) len [OF assms(1)] slab_mapped_new_page [of M st ok st1] Slab_alloc_new_page_cases [of L st ok st1]
    by (auto simp: MAX_SLAB_PAGES_def split: if_splits)
  obtain ok2 st2 where n2: "Slab_alloc_new_page K st1 = (ok2, st2)" by (cases "Slab_alloc_new_page K st1")
  have 2: "num_pages (fst st1) < MAX_SLAB_PAGES \<Longrightarrow> slab_mapped M st2"
    using slab_mapped_new_page [OF 1(1) _ n2] len [OF 1(2)] by simp
  from assms(3) None c n2 1(1) 2 show ?thesis
    by (auto simp: Slab_alloc_def split: if_splits bool.splits dest: slab_mapped_bump)
qed

lemma slab_mapped_run:
  assumes "heap_run (\<lambda>_::unit. True) (\<lambda>_. z) (\<lambda>_. Slab_alloc K) (\<lambda>_. True) (\<lambda>_::unit. \<lambda>(p, _). Slab_dealloc p) slab_poke c es c'"
    and "slab_inv_at z (fst c) (snd c)" and "slab_mapped M (snd c)"
  shows "slab_mapped M (snd c')"
  using assms
proof (induction rule: heap_run.induct)
  case (run_snoc c es c' e c'')
  then have i: "slab_inv_at z (fst c') (snd c')" using slab_run_inv by blast
  from run_snoc.hyps(2) show ?case
  proof cases
    case (alloc_ok r s p s' L)
    then show ?thesis using run_snoc i slab_mapped_alloc [of L s M "Some p" s'] by (simp add: slab_inv_at_def)
  next
    case (alloc_null r s s' L)
    then show ?thesis using run_snoc i slab_mapped_alloc [of L s M None s'] by (simp add: slab_inv_at_def)
  next
    case (free t p n L s)
    then have "slab_mapped M s" using run_snoc by simp
    then have "slab_mapped M (Slab_dealloc p s)"
      by (rule slab_mapped_cong [rotated 2]) (auto simp: Slab_dealloc_def split: prod.splits)
    with free show ?thesis by simp
  next
    case (client_write p n L a s v)
    then have "slab_mapped M s" using run_snoc by simp
    then have "slab_mapped M (slab_poke a v s)"
      by (rule slab_mapped_cong [rotated 2]) (auto simp: slab_poke_def split: prod.splits)
    with client_write show ?thesis by simp
  qed
qed simp

lemma Slab_drop_pages_mapped:
  assumes "\<And>i. i < length ps \<Longrightarrow> ps ! i \<noteq> None \<and> the (ps ! i) mod 4096 = 0 \<and> the (ps ! i) + 4096 \<le> 2 ^ 63"
  shows "mapped (Slab_drop_pages K ps s) = mapped s - (\<Union>i < length ps. {the (ps ! i)..<the (ps ! i) + 4096})"
  using assms
proof (induction ps arbitrary: s)
  case (Cons q ps)
  from Cons.prems [of 0] obtain p where p: "q = Some p" "p mod 4096 = 0" "p + 4096 \<le> 2 ^ 63" by auto
  have "mapped (PageAllocator_dealloc K p 1 s) = mapped s - {p..<p + 4096}"
    using PageAllocator_dealloc_ok(1) [of 1 p s] p by simp
  moreover have "\<And>i. i < length ps \<Longrightarrow> ps ! i \<noteq> None \<and> the (ps ! i) mod 4096 = 0 \<and> the (ps ! i) + 4096 \<le> 2 ^ 63"
    using Cons.prems [of "Suc _"] by simp
  ultimately show ?case using p(1) Cons.IH
    by (simp add: lessThan_Suc_eq_insert_0 image_image Diff_eq Int_assoc)
qed simp

lemma Slab_drop_mapped:
  assumes "slab_shape self s" and "slab_mapped M (self, s)"
  shows "mapped (Slab_drop K (self, s)) = M"
proof -
  have "mapped (Slab_drop_pages K (take (num_pages self) (slab_pages self)) s) = mapped s - slab_owned self"
    by (subst Slab_drop_pages_mapped) (use assms(1) in \<open>auto simp: slab_shape_def slab_owned_def slab_page_def\<close>)
  then show ?thesis using assms(2) by (auto simp: Slab_drop_def slab_mapped_def)
qed

end

text \<open>
  C20. Soundness of a slab over a whole run. A slab of slot size 2^k, from 16 bytes to one page (the
  documented class of 8 KiB is excluded: such a slot does not fit the page it is taken from), starts empty; the program allocates, frees slots it holds and writes bytes of slots it holds, in any
  order. Then the slots it holds never overlap, each lies in mapped memory at a multiple of the slot size,
  the \<open>allocated\<close> counter is their number, and dropping the slab unmaps exactly the pages it mapped.
\<close>

theorem slab_run_sound:
  assumes "kernel K" and "4 \<le> k" and "k \<le> 12"
    and "heap_run (\<lambda>_::unit. True) (\<lambda>_. 2 ^ k) (\<lambda>_. Slab_alloc K) (\<lambda>_. True) (\<lambda>_::unit. \<lambda>(p, _). Slab_dealloc p) slab_poke
      ({#}, Slab_new (2 ^ k), s) es (L, self, s')"
  shows "exclusive (extents L) \<and>
    (\<forall>(p, n) \<in># L. n = 2 ^ k \<and> 0 < p \<and> p mod 2 ^ k = 0 \<and> {p..<p + n} \<subseteq> mapped s') \<and>
    allocated self = size L mod 2 ^ 64 \<and> mapped (Slab_drop K (self, s')) = mapped s"
proof -
  let ?z = "2 ^ k :: nat"
  have i0: "slab_inv_at ?z {#} (Slab_new ?z, s)" using assms(2,3) by (intro slab_inv_new) blast
  then have i: "slab_inv_at ?z L (self, s')" using kernel.slab_run_inv [OF assms(1,4)] by simp
  have m0: "slab_mapped (mapped s) (Slab_new ?z, s)" by (simp add: slab_mapped_def slab_owned_def Slab_new_def)
  have "slab_mapped (mapped s) (self, s')"
    using kernel.slab_mapped_run [OF assms(1,4)] i0 m0 by simp
  then have "mapped (Slab_drop K (self, s')) = mapped s"
    using i by (intro kernel.Slab_drop_mapped [OF assms(1)]) (auto simp: slab_inv_at_def slab_inv_def)
  moreover have "\<forall>(p, n) \<in># L. n = ?z \<and> 0 < p \<and> p mod ?z = 0 \<and> {p..<p + n} \<subseteq> mapped s'"
    using i slab_live_slot [of L self s'] slab_live_mapped [of L self s']
    by (fastforce simp: slab_inv_at_def slab_slot_def)
  moreover have "exclusive (extents L)" using i slab_inv_live_exclusive [of L] by (auto simp: slab_inv_at_def)
  moreover have "allocated self = size L mod 2 ^ 64" using i by (simp add: slab_inv_at_def slab_inv_def)
  ultimately show ?thesis by blast
qed

lemmas slab_eval = Slab_alloc_def Slab_dealloc_def Slab_owns_def Slab_new_def Slab_alloc_new_page_def Slab_bump_def
  MAX_SLAB_PAGES_def PAGE_SIZE_def wmul_def wadd_def wsub_def Let_def write_option_def

theorem slab_run_sound_witness:
  "\<exists>L self s'. exclusive (extents L) \<and> L = {#(4096 + 64, 64)#} \<and> allocated self = 1 \<and>
    mapped (Slab_drop (first_fit 4) (self, s')) = mapped (pages_to 0 (\<lambda>_. 0))"
proof -
  let ?s = "pages_to 0 (\<lambda>_. 0)" and ?K = "first_fit 4"
  let ?run = "heap_run (\<lambda>_::unit. True) (\<lambda>_. 2 ^ 6) (\<lambda>_. Slab_alloc ?K) (\<lambda>_. True) (\<lambda>_::unit. \<lambda>(p, _). Slab_dealloc p) slab_poke"
  have P: "PageAllocator_alloc ?K 1 ?s = (Some 4096, pages_to 1 (\<lambda>_. 0))"
    using PageAllocator_pages_to [of 0 4 1 "\<lambda>_. 0"] by simp
  obtain S where "heap_exec (\<lambda>_::unit. True) (\<lambda>_. 2 ^ 6) (\<lambda>_. Slab_alloc ?K) (\<lambda>_. True) (\<lambda>_::unit. \<lambda>(p, _). Slab_dealloc p) slab_poke
      [Alloc (), Alloc (), Free () 4096 64] ({#}, Slab_new (2 ^ 6), ?s) = Some ({#(4096 + 64, 64)#}, S)"
    using P by (simp add: slab_eval)
  then have "?run ({#}, Slab_new (2 ^ 6), ?s) [Alloc (), Alloc (), Free () 4096 64] ({#(4096 + 64, 64)#}, fst S, snd S)"
    by (simp add: heap_execI)
  from slab_run_sound [OF ff.kernel_axioms _ _ this] show ?thesis
    by (intro exI [of _ "{#(4096 + 64, 64)#}"] exI [of _ "fst S"] exI [of _ "snd S"]) simp
qed

text \<open>
  C21. Freeing a live slot and allocating again returns the same slot, and the slab is then exactly
  what it was before the free: the free list stored in the slots works as a stack.
\<close>

theorem slab_free_then_alloc:
  assumes "slab_inv (add_mset (p, n) L) st"
  shows "\<exists>s'. Slab_alloc K (Slab_dealloc p st) = (Some p, fst st, s') \<and>
    (\<forall>a. a < p \<or> p + 16 \<le> a \<longrightarrow> mem s' a = mem (snd st) a)"
proof -
  obtain self s where st: "st = (self, s)" by (cases st)
  have slot: "slab_slot self p" using assms slab_live_slot [of _ self s p n] st by simp
  have al: "allocated self = Suc (size L) mod 2 ^ 64" using assms st by (simp add: slab_inv_def)
  have sh: "slab_shape self s" using assms st by (simp add: slab_inv_def)
  from slot obtain i where i: "i < num_pages self" "slab_page self i \<le> p" "p + slot_size self \<le> slab_page self i + 4096"
    by (auto simp: slab_slot_def)
  have "0 < slot_size self" using sh by (simp add: slab_shape_def)
  then have own: "Slab_owns self p"
    using i by (auto simp: Slab_owns_def Let_def slab_page_def PAGE_SIZE_def intro!: bexI [of _ i])
  have fh: "x < 2 ^ 64" if Some: "free_head self = Some x" for x
  proof -
    from assms st obtain fs where "slab_chain (mem s) (free_head self) fs" "\<forall>q \<in> set fs. slab_slot self q"
      by (auto simp: slab_inv_def)
    with Some have "slab_slot self x" by (cases fs) auto
    then obtain j where "j < num_pages self" "x + slot_size self \<le> slab_page self j + 4096" by (auto simp: slab_slot_def)
    moreover have "slab_page self j + 4096 \<le> 2 ^ 63" using sh \<open>j < num_pages self\<close> by (auto simp: slab_shape_def)
    ultimately show ?thesis by simp
  qed
  have w: "wadd (wsub (allocated self) 1) 1 = allocated self"
    unfolding al by (rule wadd_wsub) simp_all
  let ?s = "s\<lparr>mem := write_option (free_head self) p (mem s)\<rparr>"
  have "Slab_dealloc p st = (self\<lparr>free_head := Some p, allocated := wsub (allocated self) 1\<rparr>, ?s)"
    using own by (simp add: Slab_dealloc_def st)
  moreover have "Slab_alloc K (self\<lparr>free_head := Some p, allocated := wsub (allocated self) 1\<rparr>, ?s) = (Some p, self, ?s)"
    using w read_write_option [OF fh, of "free_head self" p "mem s"] by (simp add: Slab_alloc_def)
  ultimately show ?thesis by (intro exI [of _ ?s]) (simp add: st)
qed

theorem slab_free_then_alloc_witness:
  "\<exists>st s'. Slab_alloc (first_fit 4) (Slab_new 64, pages_to 0 (\<lambda>_. 0)) = (Some 4096, st) \<and>
    Slab_alloc (first_fit 4) (Slab_dealloc 4096 st) = (Some 4096, fst st, s')"
proof -
  let ?s = "pages_to 0 (\<lambda>_. 0)" and ?K = "first_fit 4"
  have P: "PageAllocator_alloc ?K 1 ?s = (Some 4096, pages_to 1 (\<lambda>_. 0))"
    using PageAllocator_pages_to [of 0 4 1 "\<lambda>_. 0"] by simp
  obtain st where st: "Slab_alloc ?K (Slab_new 64, ?s) = (Some 4096, st)" using P by (simp add: slab_eval)
  have "slab_inv {#} (Slab_new 64, ?s)"
    using slab_inv_new [of "2 ^ 6" ?s] by (simp add: slab_inv_at_def exI [of _ 6])
  with st have "slab_inv (add_mset (4096, 64) {#}) st"
    using ff.Slab_alloc_cases [of "{#}" "(Slab_new 64, ?s)" 4 "Some 4096" st] by (simp add: Slab_new_def)
  from slab_free_then_alloc [OF this] st show ?thesis by blast
qed

end
