(* ===== verification/Stack_Contract.thy ===== *)
theory Stack_Contract
  imports Memory
begin

text \<open>
  The contract of a last-in first-out container, which the magazine, the lock-free pools and the
  free lists offer to the layers above them. \<open>rep s xs\<close> relates a concrete state to its content
  (top first); \<open>accepts x xs\<close> is the condition under which \<open>x\<close> may be pushed on \<open>xs\<close>.
\<close>

text \<open>Popping up to \<open>n\<close> items.\<close>

fun pop_many :: "('s \<Rightarrow> 'a option \<times> 's) \<Rightarrow> nat \<Rightarrow> 's \<Rightarrow> 'a list \<times> 's" where
  "pop_many pop 0 s = ([], s)"
| "pop_many pop (Suc n) s =
     (case pop s of (None, s') \<Rightarrow> ([], s') | (Some x, s') \<Rightarrow> (let (xs, t) = pop_many pop n s' in (x # xs, t)))"

locale lifo =
  fixes rep :: "'s \<Rightarrow> 'a list \<Rightarrow> bool"
    and accepts :: "'a \<Rightarrow> 'a list \<Rightarrow> bool"
    and push :: "'a \<Rightarrow> 's \<Rightarrow> 's"
    and pop :: "'s \<Rightarrow> 'a option \<times> 's"
  assumes push_rep: "rep s xs \<Longrightarrow> accepts x xs \<Longrightarrow> rep (push x s) (x # xs)"
    and pop_nil: "rep s [] \<Longrightarrow> pop s = (None, s)"
    and pop_cons: "rep s (x # xs) \<Longrightarrow> \<exists>s'. pop s = (Some x, s') \<and> rep s' xs"
begin

lemma push_pop: "rep s xs \<Longrightarrow> accepts x xs \<Longrightarrow> \<exists>s'. pop (push x s) = (Some x, s') \<and> rep s' xs"
  using pop_cons [OF push_rep] by blast

lemma pop_None_iff: "rep s xs \<Longrightarrow> fst (pop s) = None \<longleftrightarrow> xs = []"
  using pop_nil pop_cons by (cases xs) force+

lemma pop_many_rep: "rep s xs \<Longrightarrow> \<exists>t. pop_many pop n s = (take n xs, t) \<and> rep t (drop n xs)"
proof (induction n arbitrary: s xs)
  case (Suc n)
  show ?case
  proof (cases xs)
    case Nil
    with Suc.prems pop_nil show ?thesis by simp
  next
    case (Cons x ys)
    with Suc.prems obtain s' where "pop s = (Some x, s')" "rep s' ys" using pop_cons by blast
    with Suc.IH Cons show ?thesis by fastforce
  qed
qed simp

lemma push_all_pop_all:
  assumes "rep s xs" and "\<And>ys zs y. rev us = ys @ y # zs \<Longrightarrow> accepts y (zs @ xs)"
  shows "\<exists>t. pop_many pop (length us) (fold push us s) = (rev us, t) \<and> rep t xs"
proof -
  have "rep (fold push vs s) (rev vs @ xs)" if "\<exists>ws. us = vs @ ws" for vs
    using that
  proof (induction vs rule: rev_induct)
    case (snoc v vs)
    then obtain ws where "us = vs @ v # ws" by auto
    then have "rev us = rev ws @ v # rev vs" by simp
    from assms(2) [OF this] snoc push_rep show ?case by auto
  qed (simp add: assms(1))
  from pop_many_rep [OF this [of us], of "length us"] show ?thesis by simp
qed

end

end
