(* ===== verification/Magazine.thy ===== *)
theory Magazine
  imports Page Stack_Contract
begin

text \<open>
  Magazines and the global magazine pools, \<open>aethalloc-core/src/magazine.rs\<close>: the bounded array
  stack \<open>Magazine\<close>, the nodes that carry a magazine through the lock-free full and empty stacks of a
  \<open>GlobalMagazinePool\<close>, and the bump allocator of nodes. The pool operations here are what one call
  does when no other thread interferes; \<open>Treiber\<close> has their interleavings. Nodes live in a typed
  store \<open>nodes\<close> (address to node); a freshly mapped page reads as zero bytes, which is the node
  \<open>MagazineNode_new\<close>.
\<close>

definition MAGAZINE_CAPACITY :: usize where
  "MAGAZINE_CAPACITY = 64"

definition POOL_CLASSES :: usize where
  "POOL_CLASSES = 13"

definition MAX_GLOBAL_MAGAZINES_PER_CLASS :: usize where
  "MAX_GLOBAL_MAGAZINES_PER_CLASS = 8"

subsection \<open>Magazine\<close>

record Magazine =
  mag_blocks :: "addr list"
  mag_count :: usize

definition Magazine_new :: Magazine where
  "Magazine_new = \<lparr>mag_blocks = replicate MAGAZINE_CAPACITY 0, mag_count = 0\<rparr>"

definition Magazine_is_empty :: "Magazine \<Rightarrow> bool" where
  "Magazine_is_empty m \<longleftrightarrow> mag_count m = 0"

definition Magazine_is_full :: "Magazine \<Rightarrow> bool" where
  "Magazine_is_full m \<longleftrightarrow> mag_count m \<ge> MAGAZINE_CAPACITY"

definition Magazine_push :: "addr \<Rightarrow> Magazine \<Rightarrow> bool \<times> Magazine" where
  "Magazine_push ptr m =
     (if mag_count m \<ge> MAGAZINE_CAPACITY then (False, m)
      else (True, m\<lparr>mag_blocks := (mag_blocks m)[mag_count m := ptr], mag_count := mag_count m + 1\<rparr>))"

definition Magazine_pop :: "Magazine \<Rightarrow> addr option \<times> Magazine" where
  "Magazine_pop m =
     (if mag_count m = 0 then (None, m)
      else (Some (mag_blocks m ! (mag_count m - 1)), m\<lparr>mag_count := mag_count m - 1\<rparr>))"

definition Magazine_clear :: "Magazine \<Rightarrow> Magazine" where
  "Magazine_clear m = m\<lparr>mag_count := 0\<rparr>"

text \<open>The loop \<open>for i in 0..to_add\<close> of \<open>bulk_init\<close>.\<close>

fun bulk_init_loop :: "addr \<Rightarrow> usize \<Rightarrow> usize \<Rightarrow> nat list \<Rightarrow> addr list \<Rightarrow> addr list" where
  "bulk_init_loop base block_size cnt [] bs = bs"
| "bulk_init_loop base block_size cnt (i # is) bs =
     bulk_init_loop base block_size cnt is (bs[cnt + i := base + wmul i block_size])"

definition Magazine_bulk_init :: "addr \<Rightarrow> usize \<Rightarrow> usize \<Rightarrow> Magazine \<Rightarrow> Magazine" where
  "Magazine_bulk_init base block_size n m =
     (let to_add = min n (MAGAZINE_CAPACITY - mag_count m)
      in m\<lparr>mag_blocks := bulk_init_loop base block_size (mag_count m) [0..<to_add] (mag_blocks m),
           mag_count := mag_count m + to_add\<rparr>)"

definition Magazine_len :: "Magazine \<Rightarrow> usize" where
  "Magazine_len m = mag_count m"

subsection \<open>Nodes and pools\<close>

record MagazineNode =
  node_next :: addr
  magazine :: Magazine

definition MagazineNode_new :: MagazineNode where
  "MagazineNode_new = \<lparr>node_next = 0, magazine = Magazine_new\<rparr>"

type_synonym nodes = "addr \<Rightarrow> MagazineNode"

record GlobalMagazinePool =
  full_head :: addr
  empty_head :: addr

definition GlobalMagazinePool_new :: GlobalMagazinePool where
  "GlobalMagazinePool_new = \<lparr>full_head = 0, empty_head = 0\<rparr>"

definition push_full :: "addr \<Rightarrow> GlobalMagazinePool \<times> nodes \<Rightarrow> GlobalMagazinePool \<times> nodes" where
  "push_full node = (\<lambda>(pool, ns).
     (pool\<lparr>full_head := node\<rparr>, ns(node := (ns node)\<lparr>node_next := full_head pool\<rparr>)))"

definition pop_full :: "GlobalMagazinePool \<times> nodes \<Rightarrow> addr option \<times> GlobalMagazinePool \<times> nodes" where
  "pop_full = (\<lambda>(pool, ns).
     if full_head pool = 0 then (None, pool, ns)
     else (Some (full_head pool), pool\<lparr>full_head := node_next (ns (full_head pool))\<rparr>, ns))"

definition push_empty :: "addr \<Rightarrow> GlobalMagazinePool \<times> nodes \<Rightarrow> GlobalMagazinePool \<times> nodes" where
  "push_empty node = (\<lambda>(pool, ns).
     (pool\<lparr>empty_head := node\<rparr>, ns(node := (ns node)\<lparr>node_next := empty_head pool\<rparr>)))"

definition pop_empty :: "GlobalMagazinePool \<times> nodes \<Rightarrow> addr option \<times> GlobalMagazinePool \<times> nodes" where
  "pop_empty = (\<lambda>(pool, ns).
     if empty_head pool = 0 then (None, pool, ns)
     else (Some (empty_head pool), pool\<lparr>empty_head := node_next (ns (empty_head pool))\<rparr>, ns))"

text \<open>The counting loop of \<open>full_depth\<close>, which stops at null or at the bound.\<close>

function full_depth_loop :: "nodes \<Rightarrow> addr \<Rightarrow> usize \<Rightarrow> usize" where
  "full_depth_loop ns current n =
     (if current \<noteq> 0 \<and> n < MAX_GLOBAL_MAGAZINES_PER_CLASS + 1
      then full_depth_loop ns (node_next (ns current)) (n + 1) else n)"
  by pat_completeness auto
termination
  by (relation "measure (\<lambda>(ns, current, n). MAX_GLOBAL_MAGAZINES_PER_CLASS + 1 - n)") auto

declare full_depth_loop.simps [simp del]

definition full_depth :: "GlobalMagazinePool \<times> nodes \<Rightarrow> usize" where
  "full_depth = (\<lambda>(pool, ns). full_depth_loop ns (full_head pool) 0)"

definition GlobalMagazinePools_new :: "GlobalMagazinePool list" where
  "GlobalMagazinePools_new = replicate POOL_CLASSES GlobalMagazinePool_new"

subsection \<open>MetadataAllocator\<close>

record MetadataAllocator =
  current_page :: addr
  offset :: usize

definition MetadataAllocator_new :: MetadataAllocator where
  "MetadataAllocator_new = \<lparr>current_page = 0, offset = PAGE_SIZE\<rparr>"

text \<open>\<open>size_of\<close> and \<open>align_of\<close> of \<open>MagazineNode\<close>: a pointer, 64 pointers and a \<open>usize\<close>.\<close>

definition NODE_SIZE :: usize where
  "NODE_SIZE = 8 + 64 * 8 + 8"

definition NODE_ALIGN :: usize where
  "NODE_ALIGN = 8"

definition alloc_metadata_page :: "syscalls \<Rightarrow> os \<Rightarrow> addr \<times> os" where
  "alloc_metadata_page K s =
     (case sys_mmap K s PAGE_SIZE of (None, s') \<Rightarrow> (0, s') | (Some p, s') \<Rightarrow> (p, s'))"

definition alloc_node :: "syscalls \<Rightarrow> MetadataAllocator \<times> os \<Rightarrow> addr \<times> MetadataAllocator \<times> os" where
  "alloc_node K = (\<lambda>(self, s).
     let aligned = wsub (wadd (offset self) NODE_ALIGN) 1 AND wnot (NODE_ALIGN - 1)
     in if wadd aligned NODE_SIZE \<le> PAGE_SIZE
        then (current_page self + aligned, self\<lparr>offset := wadd aligned NODE_SIZE\<rparr>, s)
        else case alloc_metadata_page K s of
          (new_page, s') \<Rightarrow>
            if new_page = 0 then (0, self, s')
            else (new_page, self\<lparr>current_page := new_page, offset := NODE_SIZE\<rparr>, s'))"

subsection \<open>The magazine as a bounded stack\<close>

definition mag_list :: "Magazine \<Rightarrow> addr list" where
  "mag_list m = take (mag_count m) (mag_blocks m)"

definition mag_ok :: "Magazine \<Rightarrow> bool" where
  "mag_ok m \<longleftrightarrow> length (mag_blocks m) = MAGAZINE_CAPACITY \<and> mag_count m \<le> MAGAZINE_CAPACITY"

lemma mag_ok_new [simp]: "mag_ok Magazine_new" and mag_list_new [simp]: "mag_list Magazine_new = []"
  by (simp_all add: mag_ok_def mag_list_def Magazine_new_def)

lemma mag_ok_clear [simp]: "mag_ok m \<Longrightarrow> mag_ok (Magazine_clear m)"
  and mag_list_clear [simp]: "mag_list (Magazine_clear m) = []"
  by (simp_all add: mag_ok_def mag_list_def Magazine_clear_def)

lemma length_mag_list [simp]: "mag_ok m \<Longrightarrow> length (mag_list m) = mag_count m"
  by (simp add: mag_ok_def mag_list_def)

lemma Magazine_is_empty_iff: "mag_ok m \<Longrightarrow> Magazine_is_empty m \<longleftrightarrow> mag_list m = []"
  by (auto simp: Magazine_is_empty_def mag_list_def mag_ok_def MAGAZINE_CAPACITY_def)

lemma Magazine_push_full: "mag_count m \<ge> 64 \<Longrightarrow> Magazine_push p m = (False, m)"
  by (simp add: Magazine_push_def MAGAZINE_CAPACITY_def)

lemma Magazine_push_ok:
  assumes "mag_ok m" and "mag_count m < 64"
  shows "\<exists>m'. Magazine_push p m = (True, m') \<and> mag_ok m' \<and> mag_list m' = mag_list m @ [p]"
  using assms
  by (auto simp: Magazine_push_def mag_ok_def mag_list_def MAGAZINE_CAPACITY_def take_Suc_conv_app_nth)

lemma Magazine_pop_None: "mag_ok m \<Longrightarrow> mag_list m = [] \<Longrightarrow> Magazine_pop m = (None, m)"
  by (metis Magazine_pop_def length_0_conv length_mag_list)

lemma Magazine_pop_Some:
  assumes "mag_ok m" and "mag_list m = bs @ [b]"
  shows "\<exists>m'. Magazine_pop m = (Some b, m') \<and> mag_ok m' \<and> mag_list m' = bs"
proof -
  have n: "mag_count m = Suc (length bs)" using length_mag_list [OF assms(1)] assms(2) by simp
  have le: "Suc (length bs) \<le> length (mag_blocks m)" using assms(1) n by (simp add: mag_ok_def)
  have t: "take (length bs) (mag_blocks m) @ [mag_blocks m ! length bs] = bs @ [b]"
    using assms(2) le by (simp add: mag_list_def n take_Suc_conv_app_nth)
  then have "mag_blocks m ! length bs = b" "take (length bs) (mag_blocks m) = bs" by simp_all
  with n assms(1) show ?thesis
    by (auto simp: Magazine_pop_def mag_ok_def mag_list_def)
qed

lemma Magazine_pop_cases:
  assumes "mag_ok m" and "Magazine_pop m = (r, m')"
  shows "mag_ok m' \<and> (case r of None \<Rightarrow> mag_list m = [] \<and> m' = m | Some b \<Rightarrow> mag_list m = mag_list m' @ [b])"
proof (cases "mag_list m" rule: rev_cases)
  case Nil
  with Magazine_pop_None [OF assms(1) Nil] assms show ?thesis by auto
next
  case (snoc bs b)
  with Magazine_pop_Some [OF assms(1) snoc] assms(2) show ?thesis by auto
qed

interpretation mag_stack: lifo "\<lambda>m xs. mag_ok m \<and> rev (mag_list m) = xs" "\<lambda>_ xs. length xs < MAGAZINE_CAPACITY"
  "\<lambda>p m. snd (Magazine_push p m)" Magazine_pop
proof (unfold_locales, goal_cases)
  case (1 s xs x)
  then show ?case using Magazine_push_ok [of s x] by (auto simp: MAGAZINE_CAPACITY_def)
next
  case (2 s)
  then show ?case by (simp add: Magazine_pop_None)
next
  case (3 s x xs)
  then have "mag_list s = rev xs @ [x]" by (metis rev_rev_ident rev.simps(2))
  with 3 Magazine_pop_Some [of s "rev xs" x] show ?case by auto
qed

lemma length_bulk_init_loop [simp]: "length (bulk_init_loop base bs n is xs) = length xs"
  by (induction "is" arbitrary: xs) simp_all

lemma bulk_init_loop_nth:
  "\<forall>i \<in> set is. n + i < length xs \<Longrightarrow> distinct is \<Longrightarrow> j < length xs \<Longrightarrow>
    bulk_init_loop base bs n is xs ! j = (if n \<le> j \<and> j - n \<in> set is then base + wmul (j - n) bs else xs ! j)"
  by (induction "is" arbitrary: xs) (auto simp: nth_list_update)

lemma Magazine_bulk_init_ok:
  assumes "mag_ok m"
  shows "mag_ok (Magazine_bulk_init base bs n m)"
    and "mag_list (Magazine_bulk_init base bs n m) =
      mag_list m @ map (\<lambda>i. base + wmul i bs) [0..<min n (64 - mag_count m)]"
proof -
  let ?k = "min n (64 - mag_count m)"
  show "mag_ok (Magazine_bulk_init base bs n m)"
    using assms by (auto simp: mag_ok_def Magazine_bulk_init_def Let_def MAGAZINE_CAPACITY_def)
  show "mag_list (Magazine_bulk_init base bs n m) = mag_list m @ map (\<lambda>i. base + wmul i bs) [0..<?k]"
  proof (rule nth_equalityI)
    fix j assume "j < length (mag_list (Magazine_bulk_init base bs n m))"
    then have j: "j < mag_count m + ?k"
      using assms by (simp add: mag_list_def Magazine_bulk_init_def Let_def MAGAZINE_CAPACITY_def mag_ok_def)
    have le: "mag_count m + ?k \<le> length (mag_blocks m)" and c: "mag_count m \<le> length (mag_blocks m)"
      using assms by (auto simp: mag_ok_def MAGAZINE_CAPACITY_def)
    have lp: "bulk_init_loop base bs (mag_count m) [0..<?k] (mag_blocks m) ! j =
        (if mag_count m \<le> j \<and> j - mag_count m \<in> set [0..<?k] then base + wmul (j - mag_count m) bs else mag_blocks m ! j)"
      using le j by (intro bulk_init_loop_nth) auto
    show "mag_list (Magazine_bulk_init base bs n m) ! j =
        (mag_list m @ map (\<lambda>i. base + wmul i bs) [0..<?k]) ! j"
      using j c by (auto simp: mag_list_def Magazine_bulk_init_def Let_def MAGAZINE_CAPACITY_def nth_append lp)
  qed (use assms in \<open>auto simp: mag_list_def Magazine_bulk_init_def Let_def MAGAZINE_CAPACITY_def mag_ok_def\<close>)
qed

subsection \<open>The pools as stacks of nodes\<close>

definition full_rep :: "GlobalMagazinePool \<times> nodes \<Rightarrow> addr list \<Rightarrow> bool" where
  "full_rep st xs \<longleftrightarrow> chain (\<lambda>n. node_next (snd st n)) (full_head (fst st)) xs"

definition empty_rep :: "GlobalMagazinePool \<times> nodes \<Rightarrow> addr list \<Rightarrow> bool" where
  "empty_rep st xs \<longleftrightarrow> chain (\<lambda>n. node_next (snd st n)) (empty_head (fst st)) xs"

lemma chain_set_node:
  "n \<notin> set xs \<Longrightarrow> chain (\<lambda>a. node_next ((ns(n := x)) a)) p xs = chain (\<lambda>a. node_next (ns a)) p xs"
  by (rule chain_cong) auto

interpretation full_stack: lifo full_rep "\<lambda>n xs. 0 < n \<and> n \<notin> set xs" push_full pop_full
proof (unfold_locales, goal_cases)
  case (1 st xs n)
  then show ?case by (cases st) (simp add: full_rep_def push_full_def chain_set_node fun_upd_same del: fun_upd_apply)
next
  case (2 st)
  then show ?case by (auto simp: full_rep_def pop_full_def split: prod.splits)
next
  case (3 st x xs)
  then show ?case by (auto simp: full_rep_def pop_full_def split: prod.splits)
qed

interpretation empty_stack: lifo empty_rep "\<lambda>n xs. 0 < n \<and> n \<notin> set xs" push_empty pop_empty
proof (unfold_locales, goal_cases)
  case (1 st xs n)
  then show ?case by (cases st) (simp add: empty_rep_def push_empty_def chain_set_node fun_upd_same del: fun_upd_apply)
next
  case (2 st)
  then show ?case by (auto simp: empty_rep_def pop_empty_def split: prod.splits)
next
  case (3 st x xs)
  then show ?case by (auto simp: empty_rep_def pop_empty_def split: prod.splits)
qed

end
