(* ===== verification/GlobalAlloc.thy ===== *)
theory GlobalAlloc
  imports Magazine SizeClass Heap_Contract
begin

text \<open>
  The global allocator in its default mode (feature \<open>magazine-caching\<close>),
  \<open>aethalloc-abi/src/global.rs\<close>: size classes, metrics, per-thread magazine caches, and the
  \<open>GlobalAlloc\<close> operations \<open>alloc\<close> and \<open>dealloc\<close> with \<open>get_alloc_size\<close>. The state \<open>heap\<close> holds the
  statics of the crate: the address space, the node store, the thirteen global pools, the metadata
  allocator, the global metrics, and one \<open>ThreadCache\<close> per thread (\<open>#[thread_local]\<close>), which an
  operation of thread \<open>t\<close> reads and writes at index \<open>t\<close>.
\<close>

definition MAX_CACHE_SIZE :: usize where
  "MAX_CACHE_SIZE = 65536"

definition NUM_SIZE_CLASSES :: usize where
  "NUM_SIZE_CLASSES = 14"

definition METRICS_FLUSH_THRESHOLD :: usize where
  "METRICS_FLUSH_THRESHOLD = 4096"

definition MAGIC :: nat where
  "MAGIC = 0xA7E8A110"

definition LARGE_MAGIC :: nat where
  "LARGE_MAGIC = 0xA7E8A11F"

text \<open>\<open>size_of::<PageHeader>()\<close>: two \<open>u32\<close> and a \<open>usize\<close>.\<close>

definition PAGE_HEADER_SIZE :: usize where
  "PAGE_HEADER_SIZE = 4 + 4 + 8"

definition CACHE_HEADER_SIZE :: usize where
  "CACHE_HEADER_SIZE = 16"

definition LARGE_HEADER_SIZE :: usize where
  "LARGE_HEADER_SIZE = 16"

subsection \<open>Headers in memory\<close>

record PageHeader =
  ph_magic :: nat
  ph_num_pages :: nat
  ph_requested_size :: usize

definition read_PageHeader :: "mem \<Rightarrow> addr \<Rightarrow> PageHeader" where
  "read_PageHeader m a = \<lparr>ph_magic = read_u32 m a, ph_num_pages = read_u32 m (a + 4),
     ph_requested_size = read_usize m (a + 8)\<rparr>"

definition write_PageHeader :: "PageHeader \<Rightarrow> addr \<Rightarrow> mem \<Rightarrow> mem" where
  "write_PageHeader h a m =
     write_usize (ph_requested_size h) (a + 8) (write_u32 (ph_num_pages h) (a + 4) (write_u32 (ph_magic h) a m))"

text \<open>\<open>LargeAllocHeader\<close> is \<open>repr(C)\<close>: the \<open>u32\<close>, four bytes of padding, the pointer.\<close>

record LargeAllocHeader =
  lh_magic :: nat
  lh_base_ptr :: addr

definition read_LargeAllocHeader :: "mem \<Rightarrow> addr \<Rightarrow> LargeAllocHeader" where
  "read_LargeAllocHeader m a = \<lparr>lh_magic = read_u32 m a, lh_base_ptr = read_usize m (a + 8)\<rparr>"

definition write_LargeAllocHeader :: "LargeAllocHeader \<Rightarrow> addr \<Rightarrow> mem \<Rightarrow> mem" where
  "write_LargeAllocHeader h a m = write_usize (lh_base_ptr h) (a + 8) (write_u32 (lh_magic h) a m)"

subsection \<open>Metrics\<close>

record GlobalMetrics =
  g_allocs :: nat
  g_frees :: nat
  g_cache_hits :: nat
  g_cache_misses :: nat
  g_direct_allocs :: nat

definition GlobalMetrics_new :: GlobalMetrics where
  "GlobalMetrics_new = \<lparr>g_allocs = 0, g_frees = 0, g_cache_hits = 0, g_cache_misses = 0, g_direct_allocs = 0\<rparr>"

record MetricsSnapshot =
  s_allocs :: nat
  s_frees :: nat
  s_cache_hits :: nat
  s_cache_misses :: nat
  s_direct_allocs :: nat

definition GlobalMetrics_snapshot :: "GlobalMetrics \<Rightarrow> MetricsSnapshot" where
  "GlobalMetrics_snapshot g = \<lparr>s_allocs = g_allocs g, s_frees = g_frees g, s_cache_hits = g_cache_hits g,
     s_cache_misses = g_cache_misses g, s_direct_allocs = g_direct_allocs g\<rparr>"

record ThreadMetrics =
  t_allocs :: usize
  t_frees :: usize
  t_cache_hits :: usize
  t_cache_misses :: usize
  t_direct_allocs :: usize

definition ThreadMetrics_new :: ThreadMetrics where
  "ThreadMetrics_new = \<lparr>t_allocs = 0, t_frees = 0, t_cache_hits = 0, t_cache_misses = 0, t_direct_allocs = 0\<rparr>"

text \<open>The five \<open>fetch_add\<close> calls, each of which wraps on \<open>u64\<close> overflow, and the reset.\<close>

definition flush_metrics :: "ThreadMetrics \<times> GlobalMetrics \<Rightarrow> ThreadMetrics \<times> GlobalMetrics" where
  "flush_metrics = (\<lambda>(t, g).
     (ThreadMetrics_new,
      \<lparr>g_allocs = wadd (g_allocs g) (t_allocs t), g_frees = wadd (g_frees g) (t_frees t),
       g_cache_hits = wadd (g_cache_hits g) (t_cache_hits t),
       g_cache_misses = wadd (g_cache_misses g) (t_cache_misses t),
       g_direct_allocs = wadd (g_direct_allocs g) (t_direct_allocs t)\<rparr>))"

definition maybe_flush :: "ThreadMetrics \<times> GlobalMetrics \<Rightarrow> ThreadMetrics \<times> GlobalMetrics" where
  "maybe_flush = (\<lambda>(t, g).
     if wadd (t_allocs t) (t_frees t) \<ge> METRICS_FLUSH_THRESHOLD then flush_metrics (t, g) else (t, g))"

subsection \<open>Size classes\<close>

definition size_to_class :: "usize \<Rightarrow> usize option" where
  "size_to_class sz =
     (let rounded = max (round_up_pow2 sz) 16 in
      if rounded = 16 then Some 0
      else if rounded = 32 then Some 1
      else if rounded = 64 then Some 2
      else if rounded = 128 then Some 3
      else if rounded = 256 then Some 4
      else if rounded = 512 then Some 5
      else if rounded = 1024 then Some 6
      else if rounded = 2048 then Some 7
      else if rounded = 4096 then Some 8
      else if rounded = 8192 then Some 9
      else if rounded = 16384 then Some 10
      else if rounded = 32768 then Some 11
      else if rounded = 65536 then Some 12
      else None)"

subsection \<open>Thread caches and the heap\<close>

record ThreadCache =
  alloc_mags :: "Magazine list"
  free_mags :: "Magazine list"
  metrics :: ThreadMetrics

definition ThreadCache_new :: ThreadCache where
  "ThreadCache_new = \<lparr>alloc_mags = replicate NUM_SIZE_CLASSES Magazine_new,
     free_mags = replicate NUM_SIZE_CLASSES Magazine_new, metrics = ThreadMetrics_new\<rparr>"

record heap =
  space :: os
  nodes :: nodes
  magazines :: "GlobalMagazinePool list"
  metadata :: MetadataAllocator
  global_metrics :: GlobalMetrics
  caches :: "ThreadCache list"

definition heap_new :: "os \<Rightarrow> nat \<Rightarrow> heap" where
  "heap_new s threads = \<lparr>space = s, nodes = (\<lambda>_. MagazineNode_new), magazines = GlobalMagazinePools_new,
     metadata = MetadataAllocator_new, global_metrics = GlobalMetrics_new,
     caches = replicate threads ThreadCache_new\<rparr>"

definition get_thread_cache :: "nat \<Rightarrow> heap \<Rightarrow> ThreadCache" where
  "get_thread_cache t h = caches h ! t"

definition set_thread_cache :: "nat \<Rightarrow> ThreadCache \<Rightarrow> heap \<Rightarrow> heap" where
  "set_thread_cache t c h = h\<lparr>caches := (caches h)[t := c]\<rparr>"

text \<open>\<open>cache.alloc_mags[class]\<close> and \<open>cache.free_mags[class]\<close> of thread \<open>t\<close>, read and assigned.\<close>

definition alloc_mag :: "nat \<Rightarrow> usize \<Rightarrow> heap \<Rightarrow> Magazine" where
  "alloc_mag t cls h = alloc_mags (get_thread_cache t h) ! cls"

definition free_mag :: "nat \<Rightarrow> usize \<Rightarrow> heap \<Rightarrow> Magazine" where
  "free_mag t cls h = free_mags (get_thread_cache t h) ! cls"

definition set_alloc_mag :: "nat \<Rightarrow> usize \<Rightarrow> Magazine \<Rightarrow> heap \<Rightarrow> heap" where
  "set_alloc_mag t cls m h =
     (let c = get_thread_cache t h in set_thread_cache t (c\<lparr>alloc_mags := (alloc_mags c)[cls := m]\<rparr>) h)"

definition set_free_mag :: "nat \<Rightarrow> usize \<Rightarrow> Magazine \<Rightarrow> heap \<Rightarrow> heap" where
  "set_free_mag t cls m h =
     (let c = get_thread_cache t h in set_thread_cache t (c\<lparr>free_mags := (free_mags c)[cls := m]\<rparr>) h)"

text \<open>\<open>cache.metrics.f += 1\<close> and \<open>cache.metrics.maybe_flush()\<close>.\<close>

definition bump_metrics :: "nat \<Rightarrow> (ThreadMetrics \<Rightarrow> ThreadMetrics) \<Rightarrow> heap \<Rightarrow> heap" where
  "bump_metrics t f h =
     (let c = get_thread_cache t h in set_thread_cache t (c\<lparr>metrics := f (metrics c)\<rparr>) h)"

definition flush_thread :: "nat \<Rightarrow> heap \<Rightarrow> heap" where
  "flush_thread t h =
     (let c = get_thread_cache t h; (tm, gm) = maybe_flush (metrics c, global_metrics h)
      in (set_thread_cache t (c\<lparr>metrics := tm\<rparr>) h)\<lparr>global_metrics := gm\<rparr>)"

definition write_mem :: "(mem \<Rightarrow> mem) \<Rightarrow> heap \<Rightarrow> heap" where
  "write_mem f h = h\<lparr>space := (space h)\<lparr>mem := f (mem (space h))\<rparr>\<rparr>"

record Layout =
  lay_size :: usize
  lay_align :: usize

text \<open>\<open>Layout::from_size_align\<close> of the core library.\<close>

definition Layout_from_size_align :: "usize \<Rightarrow> usize \<Rightarrow> Layout option" where
  "Layout_from_size_align sz al =
     (if is_power_of_two al \<and> sz \<le> 2 ^ 63 - al then Some \<lparr>lay_size = sz, lay_align = al\<rparr> else None)"

definition AethAlloc_align_up :: "addr \<Rightarrow> usize \<Rightarrow> addr" where
  "AethAlloc_align_up a al = wsub (wadd a al) 1 AND wnot (wsub al 1)"

definition page_header_from_ptr :: "addr \<Rightarrow> addr" where
  "page_header_from_ptr p = p AND wnot (PAGE_SIZE - 1)"

subsection \<open>alloc\<close>

text \<open>A cache hit: count it, store the size in the block header, return the address behind it.\<close>

definition AethAlloc_hit :: "nat \<Rightarrow> usize \<Rightarrow> addr \<Rightarrow> heap \<Rightarrow> addr \<times> heap" where
  "AethAlloc_hit t sz block h =
     (let h1 = bump_metrics t (\<lambda>m. m\<lparr>t_cache_hits := wadd (t_cache_hits m) 1, t_allocs := wadd (t_allocs m) 1\<rparr>) h;
          h2 = flush_thread t h1
      in (block + CACHE_HEADER_SIZE, write_mem (write_usize sz block) h2))"

text \<open>A cache miss: carve a page into blocks, or map the pages of a single block.\<close>

definition AethAlloc_fresh_block :: "syscalls \<Rightarrow> nat \<Rightarrow> usize \<Rightarrow> usize \<Rightarrow> heap \<Rightarrow> addr \<times> heap" where
  "AethAlloc_fresh_block K t sz block_size h =
     (let pages = max (div_ceil block_size PAGE_SIZE) 1 in
      case PageAllocator_alloc K pages (space h) of
        (Some base, s) \<Rightarrow>
          (base + CACHE_HEADER_SIZE, flush_thread t (write_mem (write_usize sz base) (h\<lparr>space := s\<rparr>)))
      | (None, s) \<Rightarrow> (0, h\<lparr>space := s\<rparr>))"

definition AethAlloc_miss :: "syscalls \<Rightarrow> nat \<Rightarrow> usize \<Rightarrow> usize \<Rightarrow> usize \<Rightarrow> heap \<Rightarrow> addr \<times> heap" where
  "AethAlloc_miss K t sz cache_size cls h0 =
     (let h = bump_metrics t (\<lambda>m. m\<lparr>t_cache_misses := wadd (t_cache_misses m) 1, t_allocs := wadd (t_allocs m) 1\<rparr>) h0;
          block_size = wadd cache_size CACHE_HEADER_SIZE;
          blocks_per_page = PAGE_SIZE div block_size
      in if blocks_per_page > 1
         then (case PageAllocator_alloc K 1 (space h) of
                 (Some base, s) \<Rightarrow>
                   let remaining = blocks_per_page - 1;
                       h1 = h\<lparr>space := s\<rparr>;
                       h2 = (if remaining > 0
                             then set_alloc_mag t cls (Magazine_bulk_init (base + block_size) block_size remaining
                                    (alloc_mag t cls h1)) h1
                             else h1)
                   in (base + CACHE_HEADER_SIZE, flush_thread t (write_mem (write_usize sz base) h2))
               | (None, s) \<Rightarrow> AethAlloc_fresh_block K t sz block_size (h\<lparr>space := s\<rparr>))
         else AethAlloc_fresh_block K t sz block_size h)"

text \<open>Take a full magazine from the global pool of the class, leaving its node on the empty stack.\<close>

definition AethAlloc_refill :: "nat \<Rightarrow> usize \<Rightarrow> heap \<Rightarrow> bool \<times> heap" where
  "AethAlloc_refill t cls h =
     (case pop_full (magazines h ! cls, nodes h) of
        (None, _) \<Rightarrow> (False, h)
      | (Some node, pool, ns) \<Rightarrow>
          let taken = magazine (ns node);
              left = Magazine_clear (alloc_mag t cls h);
              (pool', ns') = push_empty node (pool, ns(node := (ns node)\<lparr>magazine := left\<rparr>))
          in (True, set_alloc_mag t cls taken (h\<lparr>magazines := (magazines h)[cls := pool'], nodes := ns'\<rparr>)))"

definition AethAlloc_pop_block :: "nat \<Rightarrow> usize \<Rightarrow> heap \<Rightarrow> addr option \<times> heap" where
  "AethAlloc_pop_block t cls h =
     (let (r, m) = Magazine_pop (alloc_mag t cls h) in (r, set_alloc_mag t cls m h))"

definition AethAlloc_swap_mags :: "nat \<Rightarrow> usize \<Rightarrow> heap \<Rightarrow> heap" where
  "AethAlloc_swap_mags t cls h =
     set_free_mag t cls (alloc_mag t cls h) (set_alloc_mag t cls (free_mag t cls h) h)"

definition AethAlloc_alloc_cached :: "syscalls \<Rightarrow> nat \<Rightarrow> usize \<Rightarrow> usize \<Rightarrow> usize \<Rightarrow> heap \<Rightarrow> addr \<times> heap" where
  "AethAlloc_alloc_cached K t sz cache_size cls h =
     (case AethAlloc_pop_block t cls h of
        (Some block, h1) \<Rightarrow> AethAlloc_hit t sz block h1
      | (None, h1) \<Rightarrow>
          (case (if \<not> Magazine_is_empty (free_mag t cls h1)
                 then AethAlloc_pop_block t cls (AethAlloc_swap_mags t cls h1) else (None, h1)) of
             (Some block, h2) \<Rightarrow> AethAlloc_hit t sz block h2
           | (None, h2) \<Rightarrow>
               (case (case AethAlloc_refill t cls h2 of
                        (True, h') \<Rightarrow> AethAlloc_pop_block t cls h' | (False, h') \<Rightarrow> (None, h')) of
                  (Some block, h3) \<Rightarrow> AethAlloc_hit t sz block h3
                | (None, h3) \<Rightarrow> AethAlloc_miss K t sz cache_size cls h3)))"

definition AethAlloc_alloc_large :: "syscalls \<Rightarrow> nat \<Rightarrow> usize \<Rightarrow> usize \<Rightarrow> heap \<Rightarrow> addr \<times> heap" where
  "AethAlloc_alloc_large K t sz al h0 =
     (let h = flush_thread t (bump_metrics t
                (\<lambda>m. m\<lparr>t_direct_allocs := wadd (t_direct_allocs m) 1, t_allocs := wadd (t_allocs m) 1\<rparr>) h0);
          min_size = wadd (wadd (wadd PAGE_HEADER_SIZE LARGE_HEADER_SIZE) sz) al;
          pages = max (div_ceil min_size PAGE_SIZE) 1
      in case PageAllocator_alloc K pages (space h) of
           (Some base, s) \<Rightarrow>
             let h1 = write_mem (write_PageHeader \<lparr>ph_magic = MAGIC, ph_num_pages = pages mod 2 ^ 32,
                        ph_requested_size = sz\<rparr> base) (h\<lparr>space := s\<rparr>);
                 user_addr = AethAlloc_align_up (wadd (wadd base PAGE_HEADER_SIZE) LARGE_HEADER_SIZE) al
             in (user_addr, write_mem (write_LargeAllocHeader \<lparr>lh_magic = LARGE_MAGIC, lh_base_ptr = base\<rparr>
                  (user_addr - LARGE_HEADER_SIZE)) h1)
         | (None, s) \<Rightarrow> (0, h\<lparr>space := s\<rparr>))"

definition AethAlloc_alloc :: "syscalls \<Rightarrow> nat \<Rightarrow> Layout \<Rightarrow> heap \<Rightarrow> addr \<times> heap" where
  "AethAlloc_alloc K t layout h =
     (let sz = lay_size layout; al = lay_align layout in
      if sz = 0 then (0, h)
      else if sz \<le> MAX_CACHE_SIZE \<and> al \<le> 8
      then let cache_size = max (round_up_pow2 sz) 16 in
           (case size_to_class cache_size of
              Some cls \<Rightarrow> AethAlloc_alloc_cached K t sz cache_size cls h
            | None \<Rightarrow> AethAlloc_alloc_large K t sz al h)
      else AethAlloc_alloc_large K t sz al h)"

subsection \<open>dealloc\<close>

definition count_free :: "nat \<Rightarrow> heap \<Rightarrow> heap" where
  "count_free t h = flush_thread t (bump_metrics t (\<lambda>m. m\<lparr>t_frees := wadd (t_frees m) 1\<rparr>) h)"

definition AethAlloc_push_free :: "nat \<Rightarrow> usize \<Rightarrow> addr \<Rightarrow> heap \<Rightarrow> bool \<times> heap" where
  "AethAlloc_push_free t cls block h =
     (let (ok, m) = Magazine_push block (free_mag t cls h) in (ok, set_free_mag t cls m h))"

text \<open>Hand the full free magazine to the global pool, if a node can be had for it.\<close>

definition AethAlloc_retire :: "syscalls \<Rightarrow> nat \<Rightarrow> usize \<Rightarrow> heap \<Rightarrow> heap" where
  "AethAlloc_retire K t cls h =
     (case alloc_node K (metadata h, space h) of
        (node, md, s) \<Rightarrow>
          let h1 = h\<lparr>metadata := md, space := s\<rparr> in
          if node \<noteq> 0
          then let ns = (nodes h1)(node := \<lparr>node_next = 0, magazine = free_mag t cls h1\<rparr>);
                   (pool, ns') = push_full node (magazines h1 ! cls, ns)
               in set_free_mag t cls Magazine_new (h1\<lparr>magazines := (magazines h1)[cls := pool], nodes := ns'\<rparr>)
          else h1)"

definition AethAlloc_dealloc_cached :: "syscalls \<Rightarrow> nat \<Rightarrow> usize \<Rightarrow> addr \<Rightarrow> heap \<Rightarrow> heap" where
  "AethAlloc_dealloc_cached K t cls block h =
     (case AethAlloc_push_free t cls block h of
        (True, h1) \<Rightarrow> count_free t h1
      | (False, h1) \<Rightarrow> count_free t (snd (AethAlloc_push_free t cls block (AethAlloc_retire K t cls h1))))"

definition AethAlloc_dealloc_pages :: "syscalls \<Rightarrow> nat \<Rightarrow> addr \<Rightarrow> heap \<Rightarrow> heap" where
  "AethAlloc_dealloc_pages K t base h =
     (let ph = read_PageHeader (mem (space h)) base;
          h1 = (if ph_magic ph = MAGIC \<and> ph_num_pages ph > 0
                then h\<lparr>space := PageAllocator_dealloc K base (ph_num_pages ph) (space h)\<rparr> else h)
      in count_free t h1)"

definition AethAlloc_dealloc :: "syscalls \<Rightarrow> nat \<Rightarrow> addr \<Rightarrow> heap \<Rightarrow> heap" where
  "AethAlloc_dealloc K t p h =
     (if p = 0 then h
      else let lh = read_LargeAllocHeader (mem (space h)) (p - LARGE_HEADER_SIZE) in
        if lh_magic lh = LARGE_MAGIC then AethAlloc_dealloc_pages K t (lh_base_ptr lh) h
        else let size_ptr = p - CACHE_HEADER_SIZE;
                 maybe_size = read_usize (mem (space h)) size_ptr
             in if maybe_size > 0 \<and> maybe_size \<le> MAX_CACHE_SIZE \<and>
                   ph_magic (read_PageHeader (mem (space h)) size_ptr) \<noteq> MAGIC
                then (case size_to_class (max (round_up_pow2 maybe_size) 16) of
                        Some cls \<Rightarrow> AethAlloc_dealloc_cached K t cls size_ptr h
                      | None \<Rightarrow> AethAlloc_dealloc_pages K t (page_header_from_ptr p) h)
                else AethAlloc_dealloc_pages K t (page_header_from_ptr p) h)"

definition get_alloc_size :: "addr \<Rightarrow> mem \<Rightarrow> usize" where
  "get_alloc_size p m =
     (if p = 0 then 0
      else let lh = read_LargeAllocHeader m (p - LARGE_HEADER_SIZE) in
        if lh_magic lh = LARGE_MAGIC
        then let ph = read_PageHeader m (lh_base_ptr lh)
             in if ph_magic ph = MAGIC then ph_requested_size ph else 0
        else let size_ptr = p - CACHE_HEADER_SIZE; maybe_size = read_usize m size_ptr
             in if maybe_size > 0 \<and> maybe_size \<le> MAX_CACHE_SIZE \<and> ph_magic (read_PageHeader m size_ptr) \<noteq> MAGIC
                then maybe_size
                else let ph = read_PageHeader m (page_header_from_ptr p)
                     in if ph_magic ph = MAGIC then ph_requested_size ph else 0)"

text \<open>The exported function reads the static \<open>GLOBAL_METRICS\<close>, which both builds have.\<close>

definition aethalloc_get_metrics :: "GlobalMetrics \<Rightarrow> MetricsSnapshot" where
  "aethalloc_get_metrics gm = GlobalMetrics_snapshot gm"

definition flush_thread_metrics :: "nat \<Rightarrow> heap \<Rightarrow> heap" where
  "flush_thread_metrics t h =
     (let c = get_thread_cache t h; (tm, gm) = flush_metrics (metrics c, global_metrics h)
      in (set_thread_cache t (c\<lparr>metrics := tm\<rparr>) h)\<lparr>global_metrics := gm\<rparr>)"

end
