(* ===== verification/HeapInvariant.thy ===== *)
theory HeapInvariant
  imports GlobalAlloc
begin

text \<open>
  The ownership invariant of the global allocator and the proof that every operation of every
  thread keeps it. All memory the allocator accounts for (blocks cached in magazines of any
  thread, blocks in magazines of the global full stacks, blocks and large regions the program
  holds, magazine nodes, the unused rest of the metadata page) is a multiset of extents, and the
  invariant says that this multiset is exclusive, that all of it is mapped, that the links of the
  pools form chains, and that the headers in front of the program's blocks are intact.
\<close>

subsection \<open>Size classes\<close>

definition class_bytes :: "usize \<Rightarrow> usize" where
  "class_bytes c = 16 * 2 ^ c"

lemma max_power_16: "max (2 ^ k) 16 = (2::nat) ^ max k 4"
proof (cases "k \<le> 4")
  case True
  then have "(2::nat) ^ k \<le> 2 ^ 4" by (intro power_increasing) auto
  with True show ?thesis by simp
next
  case False
  then have "(2::nat) ^ 4 \<le> 2 ^ k" by (intro power_increasing) auto
  with False show ?thesis by simp
qed

lemma size_to_class_power: "4 \<le> k \<Longrightarrow> k \<le> 16 \<Longrightarrow> size_to_class (2 ^ k) = Some (k - 4)"
proof -
  assume h: "4 \<le> k" "k \<le> 16"
  have "max (round_up_pow2 (2 ^ k)) 16 = 2 ^ k"
    using h(1) by (simp add: max_power_16)
  moreover have "k \<in> {4, 5, 6, 7, 8, 9, 10, 11, 12, 13, 14, 15, 16}" using h by (simp, presburger)
  ultimately show ?thesis by (auto simp: size_to_class_def)
qed

lemma size_to_class_cong: "max (round_up_pow2 a) 16 = max (round_up_pow2 b) 16 \<Longrightarrow> size_to_class a = size_to_class b"
  by (simp add: size_to_class_def)

lemma size_class_spec:
  assumes "0 < sz" and "sz \<le> 65536"
  shows "\<exists>c \<le> 12. size_to_class sz = Some c \<and> size_to_class (max (round_up_pow2 sz) 16) = Some c \<and>
    max (round_up_pow2 sz) 16 = class_bytes c \<and> sz \<le> class_bytes c"
proof -
  have le: "sz \<le> 2 ^ 63" using assms(2) by simp
  from round_up_pow2_exp [OF assms(1) le] obtain k where
    k: "round_up_pow2 sz = 2 ^ k" "sz \<le> 2 ^ k" by blast
  have "(2::nat) ^ k \<le> 2 ^ 16" using round_up_pow2_le [OF assms(1), of 16] assms(2) k(1) by simp
  then have "k \<le> 16" by (rule power_le_imp_le_exp [rotated]) simp
  define j where "j = max k 4"
  have j: "4 \<le> j" "j \<le> 16" using \<open>k \<le> 16\<close> by (auto simp: j_def)
  have m: "max (round_up_pow2 sz) 16 = 2 ^ j" by (simp add: k(1) max_power_16 j_def)
  have cb: "(2::nat) ^ j = class_bytes (j - 4)"
    using j(1) power_add [of "2::nat" 4 "j - 4"] by (simp add: class_bytes_def)
  have "size_to_class sz = size_to_class (2 ^ j)"
    by (rule size_to_class_cong) (simp add: m j(1) max_power_16)
  moreover have "sz \<le> 2 ^ j" using k(2) m k(1) by linarith
  ultimately show ?thesis
    using size_to_class_power [OF j] j m cb by (intro exI [of _ "j - 4"]) simp
qed

lemma size_to_class_large: "65536 < sz \<Longrightarrow> sz \<le> 2 ^ 63 \<Longrightarrow> size_to_class sz = None"
  using round_up_pow2_ge [of sz] by (auto simp: size_to_class_def Let_def)

subsection \<open>Extents of the allocator's data\<close>

definition block_ext :: "usize \<Rightarrow> addr \<Rightarrow> addr set" where
  "block_ext c b = {b..<b + (class_bytes c + 16)}"

definition mag_ext :: "usize \<Rightarrow> Magazine \<Rightarrow> addr set multiset" where
  "mag_ext c m = image_mset (block_ext c) (mset (mag_list m))"

definition node_ext :: "addr list \<Rightarrow> addr set multiset" where
  "node_ext xs = image_mset (\<lambda>n. {n..<n + NODE_SIZE}) (mset xs)"

definition pool_ext :: "nodes \<Rightarrow> usize \<Rightarrow> addr list \<Rightarrow> addr set multiset" where
  "pool_ext ns c xs = sum_list (map (\<lambda>n. mag_ext c (magazine (ns n))) xs)"

definition meta_fresh :: "MetadataAllocator \<Rightarrow> addr set" where
  "meta_fresh md = {current_page md + offset md..<current_page md + 4096}"

definition caches_ext :: "heap \<Rightarrow> addr set multiset" where
  "caches_ext h = (\<Sum>(t, c) \<in> {..<length (caches h)} \<times> {..<13}. mag_ext c (alloc_mag t c h) + mag_ext c (free_mag t c h))"

text \<open>\<open>fs c\<close> and \<open>es c\<close> are the nodes on the full and the empty stack of class \<open>c\<close>.\<close>

definition pools_ext :: "(nat \<Rightarrow> addr list) \<Rightarrow> nodes \<Rightarrow> addr set multiset" where
  "pools_ext fs ns = (\<Sum>c \<in> {..<13}. pool_ext ns c (fs c))"

definition meta_ext :: "(nat \<Rightarrow> addr list) \<Rightarrow> (nat \<Rightarrow> addr list) \<Rightarrow> MetadataAllocator \<Rightarrow> addr set multiset" where
  "meta_ext fs es md = (\<Sum>c \<in> {..<13}. node_ext (fs c) + node_ext (es c)) + {#meta_fresh md#}"

text \<open>What the program holds: a block of a size class, or a mapped region of its own.\<close>

datatype owned = OSmall addr usize | OLarge addr usize addr usize

fun user_of :: "owned \<Rightarrow> addr \<times> usize" where
  "user_of (OSmall b n) = (b + 16, n)"
| "user_of (OLarge base pages u n) = (u, n)"

fun ext_of :: "owned \<Rightarrow> addr set" where
  "ext_of (OSmall b n) = block_ext (the (size_to_class n)) b"
| "ext_of (OLarge base pages u n) = {base..<base + pages * 4096}"

fun header_ok :: "mem \<Rightarrow> owned \<Rightarrow> bool" where
  "header_ok m (OSmall b n) \<longleftrightarrow> 0 < n \<and> n \<le> MAX_CACHE_SIZE \<and> b mod 16 = 0 \<and> 0 < b \<and> read_usize m b = n"
| "header_ok m (OLarge base pages u n) \<longleftrightarrow>
     base mod 4096 = 0 \<and> 0 < base \<and> base + 32 \<le> u \<and> u + n \<le> base + pages * 4096 \<and> u mod 16 = 0 \<and>
     base + pages * 4096 \<le> 2 ^ 63 \<and> 0 < n \<and>
     read_u32 m base = MAGIC \<and> read_u32 m (base + 4) = pages mod 2 ^ 32 \<and> read_usize m (base + 8) = n \<and>
     read_u32 m (u - 16) = LARGE_MAGIC \<and> read_usize m (u - 8) = base"

definition all_ext :: "(nat \<Rightarrow> addr list) \<Rightarrow> (nat \<Rightarrow> addr list) \<Rightarrow> owned multiset \<Rightarrow> addr set multiset \<Rightarrow> heap \<Rightarrow> addr set multiset" where
  "all_ext fs es G H h = caches_ext h + pools_ext fs (nodes h) + meta_ext fs es (metadata h) + image_mset ext_of G + H"

definition mag_good :: "Magazine \<Rightarrow> bool" where
  "mag_good m \<longleftrightarrow> mag_ok m \<and> (\<forall>b \<in> set (mag_list m). b mod 16 = 0 \<and> 0 < b)"

definition caches_ok :: "heap \<Rightarrow> bool" where
  "caches_ok h \<longleftrightarrow> (\<forall>t < length (caches h).
     length (alloc_mags (caches h ! t)) = 14 \<and> length (free_mags (caches h ! t)) = 14 \<and>
     (\<forall>c < 14. mag_good (alloc_mag t c h) \<and> mag_good (free_mag t c h)))"

definition pools_ok :: "(nat \<Rightarrow> addr list) \<Rightarrow> (nat \<Rightarrow> addr list) \<Rightarrow> heap \<Rightarrow> bool" where
  "pools_ok fs es h \<longleftrightarrow> length (magazines h) = 13 \<and>
     (\<forall>c < 13. full_rep (magazines h ! c, nodes h) (fs c) \<and> empty_rep (magazines h ! c, nodes h) (es c) \<and>
        (\<forall>n \<in> set (fs c). mag_good (magazine (nodes h n))))"

definition meta_ok :: "MetadataAllocator \<Rightarrow> bool" where
  "meta_ok md \<longleftrightarrow> offset md mod 8 = 0 \<and> offset md \<le> 4096 \<and> (offset md < 4096 \<longrightarrow> 0 < current_page md)"

definition placed :: "os \<Rightarrow> addr set \<Rightarrow> bool" where
  "placed s E \<longleftrightarrow> E \<subseteq> mapped s \<and> E \<subseteq> {0<..<2 ^ 63}"

definition heap_inv0 :: "(nat \<Rightarrow> addr list) \<Rightarrow> (nat \<Rightarrow> addr list) \<Rightarrow> owned multiset \<Rightarrow> addr set multiset \<Rightarrow> heap \<Rightarrow> bool" where
  "heap_inv0 fs es G H h \<longleftrightarrow>
     caches_ok h \<and> pools_ok fs es h \<and> meta_ok (metadata h) \<and>
     (\<forall>g \<in># G. header_ok (mem (space h)) g) \<and>
     exclusive (all_ext fs es G H h) \<and> (\<forall>E \<in># all_ext fs es G H h. placed (space h) E)"

definition heap_inv :: "live \<Rightarrow> heap \<Rightarrow> bool" where
  "heap_inv L h \<longleftrightarrow> (\<exists>fs es G. L = image_mset user_of G \<and> heap_inv0 fs es G {#} h)"

subsection \<open>Access to the caches\<close>

lemma sum_point_update:
  fixes f :: "'i \<Rightarrow> 'a::comm_monoid_add"
  assumes "finite A" and "i \<in> A" and "\<And>j. j \<in> A \<Longrightarrow> j \<noteq> i \<Longrightarrow> f j = g j"
  shows "sum f A + g i = sum g A + f i"
proof -
  have "sum f (A - {i}) = sum g (A - {i})" by (rule sum.cong) (use assms(3) in auto)
  then show ?thesis using assms(1,2) by (simp add: sum.remove [of A i] ac_simps)
qed

named_theorems cache_simps \<open>reading the heap after an assignment to a cache\<close>

lemma caches_nth:
  assumes "caches_ok h" and "t < length (caches h)"
  shows "length (alloc_mags (caches h ! t)) = 14" and "length (free_mags (caches h ! t)) = 14"
    and "c < 14 \<Longrightarrow> mag_good (alloc_mag t c h)" and "c < 14 \<Longrightarrow> mag_good (free_mag t c h)"
  using assms by (auto simp: caches_ok_def)

lemma alloc_mag_set [cache_simps]:
  assumes "caches_ok h" and "t < length (caches h)" and "cls < 14" and "t' < length (caches h)" and "c < 14"
  shows "alloc_mag t' c (set_alloc_mag t cls m h) = (if t' = t \<and> c = cls then m else alloc_mag t' c h)"
    and "alloc_mag t' c (set_free_mag t cls m h) = alloc_mag t' c h"
    and "free_mag t' c (set_free_mag t cls m h) = (if t' = t \<and> c = cls then m else free_mag t' c h)"
    and "free_mag t' c (set_alloc_mag t cls m h) = free_mag t' c h"
  using assms caches_nth [OF assms(1,2)]
  by (auto simp: alloc_mag_def free_mag_def set_alloc_mag_def set_free_mag_def set_thread_cache_def get_thread_cache_def
    nth_list_update Let_def)

lemma set_mag_frame [simp]:
  "space (set_alloc_mag t cls m h) = space h" "space (set_free_mag t cls m h) = space h"
  "nodes (set_alloc_mag t cls m h) = nodes h" "nodes (set_free_mag t cls m h) = nodes h"
  "magazines (set_alloc_mag t cls m h) = magazines h" "magazines (set_free_mag t cls m h) = magazines h"
  "metadata (set_alloc_mag t cls m h) = metadata h" "metadata (set_free_mag t cls m h) = metadata h"
  "length (caches (set_alloc_mag t cls m h)) = length (caches h)"
  "length (caches (set_free_mag t cls m h)) = length (caches h)"
  by (simp_all add: set_alloc_mag_def set_free_mag_def set_thread_cache_def Let_def)

lemma caches_ok_set:
  assumes "caches_ok h" and "t < length (caches h)" and "cls < 14" and "mag_good m"
  shows "caches_ok (set_alloc_mag t cls m h)" and "caches_ok (set_free_mag t cls m h)"
proof -
  have l: "length (alloc_mags (caches (set_alloc_mag t cls m h) ! u)) = 14"
    "length (free_mags (caches (set_alloc_mag t cls m h) ! u)) = 14"
    "length (alloc_mags (caches (set_free_mag t cls m h) ! u)) = 14"
    "length (free_mags (caches (set_free_mag t cls m h) ! u)) = 14" if "u < length (caches h)" for u
    using caches_nth [OF assms(1)] assms(2) that
    by (auto simp: set_alloc_mag_def set_free_mag_def set_thread_cache_def get_thread_cache_def nth_list_update Let_def)
  show "caches_ok (set_alloc_mag t cls m h)" "caches_ok (set_free_mag t cls m h)"
    using assms l caches_nth [OF assms(1)] by (simp_all add: caches_ok_def [of "set_alloc_mag _ _ _ _"]
      caches_ok_def [of "set_free_mag _ _ _ _"] cache_simps)
qed

lemma caches_ext_set:
  assumes "caches_ok h" and "t < length (caches h)" and "cls < 13"
  shows "caches_ext (set_alloc_mag t cls m h) + mag_ext cls (alloc_mag t cls h) = caches_ext h + mag_ext cls m"
    and "caches_ext (set_free_mag t cls m h) + mag_ext cls (free_mag t cls h) = caches_ext h + mag_ext cls m"
proof -
  let ?A = "{..<length (caches h)} \<times> {..<13::nat}"
  let ?f = "\<lambda>h (t, c). mag_ext c (alloc_mag t c h) + mag_ext c (free_mag t c h)"
  have fin: "finite ?A" "(t, cls) \<in> ?A" using assms by auto
  have "sum (?f (set_alloc_mag t cls m h)) ?A + ?f h (t, cls) = sum (?f h) ?A + ?f (set_alloc_mag t cls m h) (t, cls)"
    by (rule sum_point_update [OF fin]) (use assms in \<open>auto simp: cache_simps split: if_splits\<close>)
  then show "caches_ext (set_alloc_mag t cls m h) + mag_ext cls (alloc_mag t cls h) = caches_ext h + mag_ext cls m"
    using assms by (simp add: caches_ext_def cache_simps)
  have "sum (?f (set_free_mag t cls m h)) ?A + ?f h (t, cls) = sum (?f h) ?A + ?f (set_free_mag t cls m h) (t, cls)"
    by (rule sum_point_update [OF fin]) (use assms in \<open>auto simp: cache_simps split: if_splits\<close>)
  then show "caches_ext (set_free_mag t cls m h) + mag_ext cls (free_mag t cls h) = caches_ext h + mag_ext cls m"
    using assms by (simp add: caches_ext_def cache_simps)
qed

subsection \<open>Framing\<close>

text \<open>The bytes of an owned block that the allocator itself relies on.\<close>

fun hdr_of :: "owned \<Rightarrow> addr set" where
  "hdr_of (OSmall b n) = {b..<b + 8}"
| "hdr_of (OLarge base pages u n) = {base..<base + 16} \<union> {u - 16..<u}"

lemma header_frame:
  assumes "header_ok m g" and "\<And>a. a \<in> hdr_of g \<Longrightarrow> m' a = m a"
  shows "header_ok m' g"
proof (cases g)
  case (OSmall b n)
  with assms read_le_cong [of b 8 m' m] show ?thesis by auto
next
  case (OLarge base pages u n)
  with assms(1) have u: "base + 32 \<le> u" by simp
  have "read_u32 m' base = read_u32 m base" "read_u32 m' (base + 4) = read_u32 m (base + 4)"
    "read_usize m' (base + 8) = read_usize m (base + 8)" "read_u32 m' (u - 16) = read_u32 m (u - 16)"
    "read_usize m' (u - 8) = read_usize m (u - 8)"
    using u OLarge by (auto intro!: read_le_cong assms(2))
  with assms(1) OLarge show ?thesis by simp
qed

lemma owned_geometry_all:
  assumes "header_ok m g" and "user_of g = (p, n)"
  shows "{p..<p + n} \<subseteq> ext_of g \<and> hdr_of g \<subseteq> ext_of g \<and> hdr_of g \<inter> {p..<p + n} = {} \<and> p mod 16 = 0 \<and> 0 < n \<and> 16 < p"
proof (cases g)
  case (OSmall b k)
  with assms have k: "0 < k" "k \<le> 65536" "p = b + 16" "k = n" "b mod 16 = 0" "0 < b" by (auto simp: MAX_CACHE_SIZE_def)
  from size_class_spec [OF k(1,2)] obtain c where "size_to_class k = Some c" "k \<le> class_bytes c" by blast
  with OSmall k show ?thesis by (auto simp: block_ext_def)
next
  case (OLarge base pages u k)
  with assms show ?thesis by auto
qed

lemmas owned_geometry = owned_geometry_all [THEN conjunct1]
  owned_geometry_all [THEN conjunct2, THEN conjunct1]
  owned_geometry_all [THEN conjunct2, THEN conjunct2, THEN conjunct1]
  owned_geometry_all [THEN conjunct2, THEN conjunct2, THEN conjunct2, THEN conjunct1]
  owned_geometry_all [THEN conjunct2, THEN conjunct2, THEN conjunct2, THEN conjunct2, THEN conjunct1]
  owned_geometry_all [THEN conjunct2, THEN conjunct2, THEN conjunct2, THEN conjunct2, THEN conjunct2]

lemma inv0_shrink:
  assumes inv: "heap_inv0 fs es G H h"
    and "caches_ok h'" and "pools_ok fs' es' h'" and "meta_ok (metadata h')"
    and hd: "\<And>g. g \<in># G' \<Longrightarrow> header_ok (mem (space h')) g"
    and ext: "all_ext fs' es' G' H' h' + D = all_ext fs es G H h"
    and mapped: "mapped (space h) \<subseteq> mapped (space h')"
  shows "heap_inv0 fs' es' G' H' h'"
proof -
  have "exclusive (all_ext fs' es' G' H' h')"
    using inv ext exclusive_unionD [of "all_ext fs' es' G' H' h'" D] by (simp add: heap_inv0_def)
  moreover have "placed (space h') E" if "E \<in># all_ext fs' es' G' H' h'" for E
  proof -
    have "E \<in># all_ext fs es G H h" using that by (simp flip: ext)
    then have "placed (space h) E" using inv by (simp add: heap_inv0_def)
    with mapped show ?thesis by (auto simp: placed_def)
  qed
  ultimately show ?thesis using assms by (simp add: heap_inv0_def)
qed

text \<open>Two heaps that differ in metrics only.\<close>

definition same_heap :: "heap \<Rightarrow> heap \<Rightarrow> bool" where
  "same_heap h h' \<longleftrightarrow> space h' = space h \<and> nodes h' = nodes h \<and> magazines h' = magazines h \<and> metadata h' = metadata h \<and>
     map alloc_mags (caches h') = map alloc_mags (caches h) \<and> map free_mags (caches h') = map free_mags (caches h)"

lemma same_heap_mags:
  assumes "same_heap h h'"
  shows "length (caches h') = length (caches h)"
    and "t < length (caches h) \<Longrightarrow> alloc_mags (caches h' ! t) = alloc_mags (caches h ! t)"
    and "t < length (caches h) \<Longrightarrow> free_mags (caches h' ! t) = free_mags (caches h ! t)"
    and "t < length (caches h) \<Longrightarrow> alloc_mag t c h' = alloc_mag t c h"
    and "t < length (caches h) \<Longrightarrow> free_mag t c h' = free_mag t c h"
proof -
  show l: "length (caches h') = length (caches h)" using assms unfolding same_heap_def by (metis length_map)
  show a: "t < length (caches h) \<Longrightarrow> alloc_mags (caches h' ! t) = alloc_mags (caches h ! t)"
    and f: "t < length (caches h) \<Longrightarrow> free_mags (caches h' ! t) = free_mags (caches h ! t)"
    using assms l unfolding same_heap_def by (metis nth_map)+
  show "t < length (caches h) \<Longrightarrow> alloc_mag t c h' = alloc_mag t c h"
    and "t < length (caches h) \<Longrightarrow> free_mag t c h' = free_mag t c h"
    using a f by (simp_all add: alloc_mag_def free_mag_def get_thread_cache_def)
qed

lemma same_heap_inv0:
  assumes "same_heap h h'" and "heap_inv0 fs es G H h"
  shows "heap_inv0 fs es G H h'"
proof -
  note m = same_heap_mags [OF assms(1)]
  have "caches_ok h'" using assms(2) m by (simp add: heap_inv0_def caches_ok_def)
  moreover have "caches_ext h' = caches_ext h"
    unfolding caches_ext_def m(1) by (rule sum.cong) (auto simp: m)
  ultimately show ?thesis using assms by (simp add: heap_inv0_def same_heap_def all_ext_def pools_ok_def)
qed

lemma same_heap_refl [simp]: "same_heap h h"
  by (simp add: same_heap_def)

lemma same_heap_trans: "same_heap h h' \<Longrightarrow> same_heap h' h'' \<Longrightarrow> same_heap h h''"
  by (simp add: same_heap_def)

lemma same_heap_set_cache:
  "alloc_mags c = alloc_mags (get_thread_cache t h) \<Longrightarrow> free_mags c = free_mags (get_thread_cache t h) \<Longrightarrow>
    same_heap h (set_thread_cache t c h)"
  by (cases "t < length (caches h)")
    (auto simp: same_heap_def set_thread_cache_def get_thread_cache_def map_update intro!: nth_equalityI simp: nth_list_update)

lemma same_heap_bump [simp]: "same_heap h (bump_metrics t f h)"
  unfolding bump_metrics_def Let_def by (rule same_heap_set_cache) simp_all

lemma same_heap_flush [simp]: "same_heap h (flush_thread t h)"
proof -
  obtain tm gm where "maybe_flush (metrics (get_thread_cache t h), global_metrics h) = (tm, gm)" by fastforce
  moreover have "same_heap h (set_thread_cache t ((get_thread_cache t h)\<lparr>metrics := tm\<rparr>) h)"
    by (rule same_heap_set_cache) simp_all
  ultimately show ?thesis by (simp add: flush_thread_def same_heap_def)
qed

lemma same_heap_count_free [simp]: "same_heap h (count_free t h)"
  unfolding count_free_def by (rule same_heap_trans [OF same_heap_bump same_heap_flush])

subsection \<open>Moving extents around\<close>

lemma inv0_parts:
  assumes "heap_inv0 fs es G H h"
  shows "caches_ok h" and "pools_ok fs es h" and "meta_ok (metadata h)"
    and "g \<in># G \<Longrightarrow> header_ok (mem (space h)) g"
    and "exclusive (all_ext fs es G H h)" and "E \<in># all_ext fs es G H h \<Longrightarrow> placed (space h) E"
  using assms by (simp_all add: heap_inv0_def)

lemma all_ext_H: "all_ext fs es G H h = all_ext fs es G {#} h + H"
  by (simp add: all_ext_def)

lemma all_ext_G: "all_ext fs es (add_mset g G) H h = add_mset (ext_of g) (all_ext fs es G H h)"
  by (simp add: all_ext_def)

text \<open>A held extent may be given up, split into parts, or filled.\<close>

lemma inv0_drop:
  assumes "heap_inv0 fs es G (H + D) h" shows "heap_inv0 fs es G H h"
  by (rule inv0_shrink [OF assms, where D = D])
    (use inv0_parts [OF assms] in \<open>simp_all add: all_ext_def ac_simps\<close>)

lemma cover_le_one: "exclusive M \<Longrightarrow> (\<And>F. F \<in># M \<Longrightarrow> F \<subseteq> E) \<Longrightarrow> cover M a \<le> (if a \<in> E then 1 else 0)"
  using cover_0 [of M a] by (auto simp: exclusive_def)

lemma inv0_carve:
  assumes inv: "heap_inv0 fs es G (add_mset E H) h" and M: "exclusive M" "\<And>F. F \<in># M \<Longrightarrow> F \<subseteq> E"
  shows "heap_inv0 fs es G (M + H) h"
proof -
  have "exclusive (all_ext fs es G (M + H) h)"
  proof (rule exclusive_mono [OF inv0_parts(5) [OF inv]])
    fix a show "cover (all_ext fs es G (M + H) h) a \<le> cover (all_ext fs es G (add_mset E H) h) a"
      using cover_le_one [OF M, of a] by (simp add: all_ext_def)
  qed
  moreover have "placed (space h) F" if "F \<in># all_ext fs es G (M + H) h" for F
  proof (cases "F \<in># M")
    case True
    then have "F \<subseteq> E" by (rule M(2))
    moreover have "placed (space h) E" by (rule inv0_parts(6) [OF inv]) (simp add: all_ext_def)
    ultimately show ?thesis by (auto simp: placed_def)
  next
    case False
    with that have "F \<in># all_ext fs es G (add_mset E H) h" by (auto simp: all_ext_def)
    then show ?thesis by (rule inv0_parts(6) [OF inv])
  qed
  ultimately show ?thesis using inv0_parts(1-4) [OF inv] by (simp add: heap_inv0_def)
qed

lemma inv0_write:
  assumes inv: "heap_inv0 fs es G H h" and E: "E \<in># H" and f: "\<And>a. a \<notin> E \<Longrightarrow> f (mem (space h)) a = mem (space h) a"
  shows "heap_inv0 fs es G H (write_mem f h)"
proof -
  have "header_ok (f (mem (space h))) g" if g: "g \<in># G" for g
  proof (rule header_frame [OF inv0_parts(4) [OF inv g]])
    fix a assume a: "a \<in> hdr_of g"
    obtain p n where "user_of g = (p, n)" by (cases "user_of g")
    then have "hdr_of g \<subseteq> ext_of g" by (rule owned_geometry(2) [OF inv0_parts(4) [OF inv g]])
    moreover have "ext_of g \<inter> E = {}"
      by (rule exclusive_disjoint [where M = "all_ext fs es G {#} h" and N = H])
        (use inv0_parts(5) [OF inv] g E in \<open>auto simp: all_ext_def ac_simps\<close>)
    ultimately show "f (mem (space h)) a = mem (space h) a" using a by (intro f) blast
  qed
  then show ?thesis using inv by (simp add: heap_inv0_def write_mem_def all_ext_def caches_ext_def caches_ok_def
    pools_ok_def alloc_mag_def free_mag_def get_thread_cache_def placed_def)
qed

lemma inv0_own:
  "heap_inv0 fs es G (add_mset (ext_of g) H) h \<Longrightarrow> header_ok (mem (space h)) g \<Longrightarrow> heap_inv0 fs es (add_mset g G) H h"
  by (auto simp: heap_inv0_def all_ext_def)

lemma inv0_disown: "heap_inv0 fs es (add_mset g G) H h \<Longrightarrow> heap_inv0 fs es G (add_mset (ext_of g) H) h"
  by (auto simp: heap_inv0_def all_ext_def)

lemma exchange:
  fixes A :: "'a multiset"
  assumes "A' + x = A + y" and "y + H' = x + H"
  shows "A' + H' = A + H"
proof -
  have "A' + H' + x = A + (y + H')" using assms(1) by (metis add.assoc add.commute)
  also have "\<dots> = A + H + x" unfolding assms(2) by (simp add: ac_simps)
  finally show ?thesis by (rule add_right_imp_eq)
qed

lemma inv0_set_alloc:
  assumes inv: "heap_inv0 fs es G H h" and "t < length (caches h)" and "cls < 13" and "mag_good m"
    and eq: "mag_ext cls m + H' = mag_ext cls (alloc_mag t cls h) + H"
  shows "heap_inv0 fs es G H' (set_alloc_mag t cls m h)"
proof (rule inv0_shrink [OF inv, where D = "{#}"])
  let ?h = "set_alloc_mag t cls m h"
  show "caches_ok ?h" using assms inv0_parts(1) [OF inv] by (intro caches_ok_set(1)) auto
  have "caches_ext ?h + mag_ext cls (alloc_mag t cls h) = caches_ext h + mag_ext cls m"
    using caches_ext_set(1) [OF inv0_parts(1) [OF inv]] assms by simp
  then have "caches_ext ?h + H' = caches_ext h + H" using eq by (rule exchange)
  then show "all_ext fs es G H' ?h + {#} = all_ext fs es G H h" by (simp add: all_ext_def ac_simps)
qed (use inv0_parts [OF inv] in \<open>simp_all add: pools_ok_def\<close>)

lemma inv0_set_free:
  assumes inv: "heap_inv0 fs es G H h" and "t < length (caches h)" and "cls < 13" and "mag_good m"
    and eq: "mag_ext cls m + H' = mag_ext cls (free_mag t cls h) + H"
  shows "heap_inv0 fs es G H' (set_free_mag t cls m h)"
proof (rule inv0_shrink [OF inv, where D = "{#}"])
  let ?h = "set_free_mag t cls m h"
  show "caches_ok ?h" using assms inv0_parts(1) [OF inv] by (intro caches_ok_set(2)) auto
  have "caches_ext ?h + mag_ext cls (free_mag t cls h) = caches_ext h + mag_ext cls m"
    using caches_ext_set(2) [OF inv0_parts(1) [OF inv]] assms by simp
  then have "caches_ext ?h + H' = caches_ext h + H" using eq by (rule exchange)
  then show "all_ext fs es G H' ?h + {#} = all_ext fs es G H h" by (simp add: all_ext_def ac_simps)
qed (use inv0_parts [OF inv] in \<open>simp_all add: pools_ok_def\<close>)

lemma inv0_grant:
  assumes inv: "heap_inv0 fs es G H h" and g: "pages_granted k (space h) p s'"
  shows "heap_inv0 fs es G (add_mset {p..<p + k * 4096} H) (h\<lparr>space := s'\<rparr>)"
proof -
  let ?P = "{p..<p + k * 4096}"
  have frame: "all_ext fs es G (add_mset ?P H) (h\<lparr>space := s'\<rparr>) = add_mset ?P (all_ext fs es G H h)"
    by (simp add: all_ext_def caches_ext_def alloc_mag_def free_mag_def get_thread_cache_def)
  have pl: "placed (space h) E" if "E \<in># all_ext fs es G H h" for E using inv0_parts(6) [OF inv that] .
  have m: "mapped s' = mapped (space h) \<union> ?P" "?P \<inter> mapped (space h) = {}" "0 < p" "p + k * 4096 \<le> 2 ^ 63"
    using g by (auto simp: pages_granted_def)
  have "exclusive (add_mset ?P (all_ext fs es G H h))"
    unfolding exclusive_add_iff using inv0_parts(5) [OF inv] pl m(2) by (auto simp: placed_def)
  moreover have "placed s' ?P" using m by (auto simp: placed_def)
  moreover have "placed s' E" if "E \<in># all_ext fs es G H h" for E using pl [OF that] m(1) by (auto simp: placed_def)
  moreover have "header_ok (mem s') x" if x: "x \<in># G" for x
  proof (rule header_frame [OF inv0_parts(4) [OF inv x]])
    fix a assume a: "a \<in> hdr_of x"
    obtain q n where "user_of x = (q, n)" by (cases "user_of x")
    then have "hdr_of x \<subseteq> ext_of x" by (rule owned_geometry(2) [OF inv0_parts(4) [OF inv x]])
    moreover have "placed (space h) (ext_of x)" by (rule pl) (use x in \<open>auto simp: all_ext_def\<close>)
    ultimately have "a \<in> mapped (space h)" using a by (auto simp: placed_def)
    then show "mem s' a = mem (space h) a" using g by (simp add: pages_granted_def)
  qed
  ultimately show ?thesis
    using inv0_parts(1-3) [OF inv] unfolding heap_inv0_def frame
    by (auto simp: caches_ok_def pools_ok_def alloc_mag_def free_mag_def get_thread_cache_def)
qed

end
