(* ===== verification/HeapAlloc.thy ===== *)
theory HeapAlloc
  imports HeapInvariant
begin

text \<open>
  The allocation side of the global allocator keeps the ownership invariant: every path of
  \<open>AethAlloc_alloc\<close> (magazine hit, swap, refill from the global pool, carving a page, fresh pages,
  large region) returns null or a block that no other part of the heap owns.
\<close>

subsection \<open>Bytes of the program's blocks\<close>

definition keeps :: "owned multiset \<Rightarrow> heap \<Rightarrow> heap \<Rightarrow> bool" where
  "keeps G h h' \<longleftrightarrow> length (caches h') = length (caches h) \<and>
     (\<forall>g \<in># G. \<forall>a \<in> ext_of g. mem (space h') a = mem (space h) a)"

lemma keeps_trans: "keeps G h h' \<Longrightarrow> keeps G h' h'' \<Longrightarrow> keeps G h h''"
  by (simp add: keeps_def)

lemma keeps_same: "space h' = space h \<Longrightarrow> length (caches h') = length (caches h) \<Longrightarrow> keeps G h h'"
  by (simp add: keeps_def)

lemma keeps_same_heap: "same_heap h h' \<Longrightarrow> keeps G h h'"
  using same_heap_mags(1) [of h h'] by (intro keeps_same) (simp_all add: same_heap_def)

lemma keeps_write:
  assumes "heap_inv0 fs es G H h" and "E \<in># H" and "\<And>a. a \<notin> E \<Longrightarrow> f (mem (space h)) a = mem (space h) a"
  shows "keeps G h (write_mem f h)"
proof -
  have "f (mem (space h)) a = mem (space h) a" if "g \<in># G" "a \<in> ext_of g" for g a
  proof -
    have "ext_of g \<inter> E = {}"
      by (rule exclusive_disjoint [where M = "all_ext fs es G {#} h" and N = H])
        (use inv0_parts(5) [OF assms(1)] that(1) assms(2) in \<open>auto simp: all_ext_def ac_simps\<close>)
    with that(2) show ?thesis by (intro assms(3)) blast
  qed
  then show ?thesis by (simp add: keeps_def write_mem_def)
qed

lemma keeps_grant:
  assumes "heap_inv0 fs es G H h" and "pages_granted k (space h) p s'"
  shows "keeps G h (h\<lparr>space := s'\<rparr>)"
proof -
  have "ext_of g \<subseteq> mapped (space h)" if "g \<in># G" for g
  proof -
    have "placed (space h) (ext_of g)" by (rule inv0_parts(6) [OF assms(1)]) (use that in \<open>auto simp: all_ext_def\<close>)
    then show ?thesis by (simp add: placed_def)
  qed
  moreover have "\<forall>a \<in> mapped (space h). mem s' a = mem (space h) a" using assms(2) by (simp add: pages_granted_def)
  ultimately show ?thesis unfolding keeps_def by (simp, blast)
qed

subsection \<open>Magazines of the thread\<close>

lemma mag_ext_append: "mset (mag_list m') = mset (mag_list m) + mset bs \<Longrightarrow>
    mag_ext c m' = mag_ext c m + image_mset (block_ext c) (mset bs)"
  by (simp add: mag_ext_def)

lemma pop_block_inv:
  assumes inv: "heap_inv0 fs es G H h" and t: "t < length (caches h)" and cls: "cls < 13"
    and p: "AethAlloc_pop_block t cls h = (r, h')"
  shows "space h' = space h \<and> length (caches h') = length (caches h) \<and>
    (case r of None \<Rightarrow> heap_inv0 fs es G H h'
     | Some b \<Rightarrow> heap_inv0 fs es G (add_mset (block_ext cls b) H) h' \<and> b mod 16 = 0 \<and> 0 < b)"
proof -
  obtain m' where m': "Magazine_pop (alloc_mag t cls h) = (r, m')" "h' = set_alloc_mag t cls m' h"
    using p by (cases "Magazine_pop (alloc_mag t cls h)") (simp add: AethAlloc_pop_block_def)
  have good: "mag_good (alloc_mag t cls h)" using caches_nth(3) [OF inv0_parts(1) [OF inv] t] cls by simp
  then have c: "mag_ok m' \<and> (case r of None \<Rightarrow> mag_list (alloc_mag t cls h) = [] \<and> m' = alloc_mag t cls h
      | Some b \<Rightarrow> mag_list (alloc_mag t cls h) = mag_list m' @ [b])"
    using m'(1) by (intro Magazine_pop_cases) (auto simp: mag_good_def)
  show ?thesis
  proof (cases r)
    case None
    with c good m' show ?thesis using inv0_set_alloc [OF inv t cls good, of H] by simp
  next
    case (Some b)
    with c good have g': "mag_good m'" "b mod 16 = 0" "0 < b" by (auto simp: mag_good_def)
    have "mag_ext cls m' + add_mset (block_ext cls b) H = mag_ext cls (alloc_mag t cls h) + H"
      using c Some by (simp add: mag_ext_def)
    from inv0_set_alloc [OF inv t cls g'(1) this] show ?thesis using Some g' m' by simp
  qed
qed

lemma swap_mags_inv:
  assumes inv: "heap_inv0 fs es G H h" and t: "t < length (caches h)" and cls: "cls < 13"
  shows "heap_inv0 fs es G H (AethAlloc_swap_mags t cls h)"
proof -
  let ?a = "alloc_mag t cls h" and ?f = "free_mag t cls h"
  let ?h1 = "set_alloc_mag t cls ?f h"
  note ok = inv0_parts(1) [OF inv]
  have good: "mag_good ?a" "mag_good ?f" using caches_nth(3,4) [OF ok t] cls by auto
  have ok1: "caches_ok ?h1" by (rule caches_ok_set(1) [OF ok t _ good(2)]) (use cls in simp)
  have f1: "free_mag t cls ?h1 = ?f" using cls ok t by (simp add: cache_simps)
  have "caches_ext ?h1 + mag_ext cls ?a = caches_ext h + mag_ext cls ?f" by (rule caches_ext_set(1) [OF ok t cls])
  moreover have "caches_ext (set_free_mag t cls ?a ?h1) + mag_ext cls ?f = caches_ext ?h1 + mag_ext cls ?a"
    using caches_ext_set(2) [OF ok1, of t cls ?a] t cls f1 by simp
  ultimately have "caches_ext (set_free_mag t cls ?a ?h1) = caches_ext h" by simp
  then show ?thesis
    unfolding AethAlloc_swap_mags_def
    using caches_ok_set(2) [OF ok1 _ _ good(1), of t cls] t cls inv0_parts [OF inv]
    by (intro inv0_shrink [OF inv, where D = "{#}"]) (simp_all add: all_ext_def pools_ok_def)
qed

lemma swap_mags_frame [simp]:
  "space (AethAlloc_swap_mags t cls h) = space h" "length (caches (AethAlloc_swap_mags t cls h)) = length (caches h)"
  by (simp_all add: AethAlloc_swap_mags_def)

subsection \<open>Writing the size header\<close>

lemma own_small:
  assumes inv: "heap_inv0 fs es G (add_mset (block_ext cls b) H) h" and b: "b mod 16 = 0" "0 < b"
    and sz: "0 < sz" "sz \<le> 65536" "size_to_class sz = Some cls"
  shows "heap_inv0 fs es (add_mset (OSmall b sz) G) H (write_mem (write_usize sz b) h)"
    and "keeps G h (write_mem (write_usize sz b) h)"
proof -
  have out: "a \<notin> block_ext cls b \<Longrightarrow> write_usize sz b (mem (space h)) a = mem (space h) a" for a
    by (auto simp: block_ext_def)
  have "heap_inv0 fs es G (add_mset (block_ext cls b) H) (write_mem (write_usize sz b) h)"
    by (rule inv0_write [OF inv]) (use out in auto)
  moreover have "header_ok (mem (space (write_mem (write_usize sz b) h))) (OSmall b sz)"
    using b sz by (simp add: write_mem_def MAX_CACHE_SIZE_def)
  ultimately show "heap_inv0 fs es (add_mset (OSmall b sz) G) H (write_mem (write_usize sz b) h)"
    using sz(3) by (intro inv0_own) simp_all
  show "keeps G h (write_mem (write_usize sz b) h)" by (rule keeps_write [OF inv]) (use out in auto)
qed

lemma hit_inv:
  assumes inv: "heap_inv0 fs es G (add_mset (block_ext cls b) H) h" and b: "b mod 16 = 0" "0 < b"
    and sz: "0 < sz" "sz \<le> 65536" "size_to_class sz = Some cls" and r: "AethAlloc_hit t sz b h = (p, h')"
  shows "p = b + 16 \<and> heap_inv0 fs es (add_mset (OSmall b sz) G) H h' \<and> keeps G h h'"
proof -
  define h2 where "h2 = flush_thread t (bump_metrics t
    (\<lambda>m. m\<lparr>t_cache_hits := wadd (t_cache_hits m) 1, t_allocs := wadd (t_allocs m) 1\<rparr>) h)"
  have sh: "same_heap h h2" unfolding h2_def by (rule same_heap_trans [OF same_heap_bump same_heap_flush])
  have "p = b + 16" "h' = write_mem (write_usize sz b) h2"
    using r by (simp_all add: AethAlloc_hit_def h2_def Let_def CACHE_HEADER_SIZE_def)
  then show ?thesis
    using own_small [OF same_heap_inv0 [OF sh inv] b sz] keeps_trans [OF keeps_same_heap [OF sh]] by blast
qed

subsection \<open>Carving fresh pages\<close>

lemma exclusive_strip: "exclusive (image_mset (\<lambda>i. {p + i * d..<p + i * d + d}) (mset [0..<n]))"
proof (induction n)
  case (Suc n)
  have "{p + n * d..<p + n * d + d} \<inter> {p + i * d..<p + i * d + d} = {}" if "i < n" for i
  proof -
    have "Suc i * d \<le> n * d" using that by (intro mult_le_mono1) simp
    then show ?thesis by auto
  qed
  with Suc show ?case by (auto simp: exclusive_add_iff)
qed simp

definition block_size_of :: "usize \<Rightarrow> usize" where
  "block_size_of c = class_bytes c + 16"

lemma block_size_16: "block_size_of c mod 16 = 0"
  by (simp add: block_size_of_def class_bytes_def)

lemma page_mod_16: "p mod 4096 = 0 \<Longrightarrow> p mod (16::nat) = 0"
  using mod_mod_cancel [of 16 4096 p] by simp

lemma mag_good_append:
  assumes "mag_good m" and "mag_ok m'" and "mag_list m' = mag_list m @ bs" and "\<And>b. b \<in> set bs \<Longrightarrow> b mod 16 = 0 \<and> 0 < b"
  shows "mag_good m'"
  using assms by (auto simp: mag_good_def)

lemma carve_page:
  assumes inv: "heap_inv0 fs es G (add_mset {p..<p + 4096} H) h" and p: "p mod 4096 = 0" "0 < p"
    and t: "t < length (caches h)" and cls: "cls < 13"
    and k: "k < 4096 div block_size_of cls"
    and m': "m' = Magazine_bulk_init (p + block_size_of cls) (block_size_of cls) k (alloc_mag t cls h)"
  shows "heap_inv0 fs es G (add_mset (block_ext cls p) H) (set_alloc_mag t cls m' h)"
proof -
  let ?d = "block_size_of cls" and ?m = "alloc_mag t cls h"
  define j where "j = min k (64 - mag_count ?m)"
  define blk where "blk = (\<lambda>i. p + i * ?d)"
  define M where "M = image_mset (block_ext cls) (mset (map blk [0..<Suc j]))"
  have be: "block_ext cls b = {b..<b + ?d}" for b by (simp add: block_ext_def block_size_of_def)
  have "Suc j \<le> 4096 div ?d" using k by (simp add: j_def)
  then have "Suc j * ?d \<le> 4096 div ?d * ?d" by (rule mult_le_mono1)
  also have "\<dots> \<le> 4096" by (rule div_times_less_eq_dividend)
  finally have fits: "Suc j * ?d \<le> 4096" .
  have fits_i: "Suc i * ?d \<le> 4096" if "i < Suc j" for i
    using mult_le_mono1 [of "Suc i" "Suc j" ?d] that fits by linarith
  have "exclusive M" unfolding M_def be blk_def using exclusive_strip [of p ?d "Suc j"] by (simp add: image_mset.compositionality comp_def)
  moreover have "F \<subseteq> {p..<p + 4096}" if "F \<in># M" for F
    using that fits_i by (fastforce simp: M_def be blk_def)
  ultimately have M: "heap_inv0 fs es G (M + H) h" by (rule inv0_carve [OF inv])
  have good: "mag_good ?m" using caches_nth(3) [OF inv0_parts(1) [OF inv] t] cls by simp
  then have ok: "mag_ok ?m" by (simp add: mag_good_def)
  have w: "p + ?d + wmul i ?d = blk (Suc i)" if "i < j" for i
    using fits_i [of i] that by (simp add: blk_def wmul_in_range)
  have lst: "mag_list m' = mag_list ?m @ map blk (map Suc [0..<j])"
    unfolding m' Magazine_bulk_init_ok(2) [OF ok] j_def [symmetric] using w by simp
  have "blk i mod 16 = 0 \<and> 0 < blk i" for i
    using p block_size_16 [of cls] page_mod_16 [OF p(1)] by (simp add: blk_def mod_add_eq mod_mult_eq dvd_eq_mod_eq_0 [symmetric])
  then have good': "mag_good m'"
    by (intro mag_good_append [OF good _ lst]) (use Magazine_bulk_init_ok(1) [OF ok] m' in auto)
  have "[0..<Suc j] = 0 # map Suc [0..<j]" by (simp only: upt_conv_Cons zero_less_Suc map_Suc_upt)
  then have "M = add_mset (block_ext cls p) (image_mset (block_ext cls) (mset (map blk (map Suc [0..<j]))))"
    by (simp add: M_def blk_def)
  then have "mag_ext cls m' + add_mset (block_ext cls p) H = mag_ext cls ?m + (M + H)"
    by (simp add: mag_ext_def lst ac_simps)
  from inv0_set_alloc [OF M t cls good' this] show ?thesis .
qed

subsection \<open>The outcome of an allocation\<close>

text \<open>Null and the old ownership, or a block the program now owns besides what it owned before.\<close>

definition alloc_outcome :: "owned multiset \<Rightarrow> heap \<Rightarrow> usize \<Rightarrow> usize \<Rightarrow> addr \<Rightarrow> heap \<Rightarrow> bool" where
  "alloc_outcome G h sz al p h' \<longleftrightarrow> keeps G h h' \<and>
     (\<exists>fs es. p = 0 \<and> heap_inv0 fs es G {#} h' \<or>
        (\<exists>g. user_of g = (p, sz) \<and> p mod al = 0 \<and> heap_inv0 fs es (add_mset g G) {#} h'))"

lemma alloc_outcomeI:
  "keeps G h h' \<Longrightarrow> user_of g = (p, sz) \<Longrightarrow> p mod al = 0 \<Longrightarrow> heap_inv0 fs es (add_mset g G) {#} h' \<Longrightarrow>
    alloc_outcome G h sz al p h'"
  unfolding alloc_outcome_def by (intro conjI exI disjI2)

lemma alloc_outcome_small:
  assumes "al dvd 16" and "heap_inv0 fs es (add_mset (OSmall b sz) G) {#} h'" and "keeps G h h'"
  shows "alloc_outcome G h sz al (b + 16) h'"
proof -
  have "b mod 16 = 0" using inv0_parts(4) [OF assms(2), of "OSmall b sz"] by simp
  then have "(b + 16) mod al = 0" using assms(1) by (metis dvd_add dvd_eq_mod_eq_0 dvd_trans)
  with assms show ?thesis by (intro alloc_outcomeI [of _ _ _ "OSmall b sz"]) auto
qed

lemma alloc_outcome_null: "heap_inv0 fs es G {#} h' \<Longrightarrow> keeps G h h' \<Longrightarrow> alloc_outcome G h sz al 0 h'"
  by (auto simp: alloc_outcome_def)

lemma alloc_outcome_prefix: "keeps G h h1 \<Longrightarrow> alloc_outcome G h1 sz al p h' \<Longrightarrow> alloc_outcome G h sz al p h'"
  by (auto simp: alloc_outcome_def intro: keeps_trans)

lemma alloc_outcome_cases:
  assumes "alloc_outcome G h sz al p h'"
  obtains (null) fs es where "keeps G h h'" "p = 0" "heap_inv0 fs es G {#} h'"
  | (block) fs es g where "keeps G h h'" "user_of g = (p, sz)" "p mod al = 0" "heap_inv0 fs es (add_mset g G) {#} h'"
  using assms by (auto simp: alloc_outcome_def)

lemma alloc_outcome_flush:
  assumes "alloc_outcome G h sz al p h'" shows "alloc_outcome G h sz al p (flush_thread t h')"
proof -
  have k: "keeps G h (flush_thread t h')"
    using assms keeps_trans [OF _ keeps_same_heap [OF same_heap_flush]] by (simp add: alloc_outcome_def)
  note i = same_heap_inv0 [OF same_heap_flush]
  from assms show ?thesis
  proof (cases rule: alloc_outcome_cases)
    case null show ?thesis unfolding null(2) by (rule alloc_outcome_null [OF i [OF null(3)] k])
  next
    case block show ?thesis by (rule alloc_outcomeI [OF k block(2,3) i [OF block(4)]])
  qed
qed

lemma block_size_bounds: "cls < 13 \<Longrightarrow> 0 < block_size_of cls \<and> block_size_of cls \<le> 65552"
proof -
  assume "cls < 13"
  then have "(2::nat) ^ cls \<le> 2 ^ 12" by (intro power_increasing) auto
  then show ?thesis by (simp add: block_size_of_def class_bytes_def)
qed

context kernel
begin

lemma page_request:
  assumes inv: "heap_inv0 fs es G H h" and r: "PageAllocator_alloc K k (space h) = (r, s')" and k: "0 < k" "k < 2 ^ 52"
  shows "keeps G h (h\<lparr>space := s'\<rparr>) \<and>
    (case r of None \<Rightarrow> h\<lparr>space := s'\<rparr> = h
     | Some p \<Rightarrow> pages_granted k (space h) p s' \<and> heap_inv0 fs es G (add_mset {p..<p + k * 4096} H) (h\<lparr>space := s'\<rparr>))"
proof (cases r)
  case None
  with r PageAllocator_alloc_None have "s' = space h" by simp
  with None show ?thesis by (simp add: keeps_def)
next
  case (Some p)
  with r k have "pages_granted k (space h) p s'" by (simp add: PageAllocator_alloc_Some)
  with Some show ?thesis using inv0_grant [OF inv] keeps_grant [OF inv] by simp
qed

lemma fresh_block_outcome:
  assumes inv: "heap_inv0 fs es G {#} h" and cls: "cls < 13"
    and sz: "0 < sz" "sz \<le> 65536" "size_to_class sz = Some cls" and al: "al dvd 16"
    and f: "AethAlloc_fresh_block K t sz (block_size_of cls) h = (p, h')"
  shows "alloc_outcome G h sz al p h'"
proof -
  define k where "k = max (div_ceil (block_size_of cls) 4096) 1"
  obtain r s' where r: "PageAllocator_alloc K k (space h) = (r, s')" by (cases "PageAllocator_alloc K k (space h)")
  note d = div_ceil_bounds [of 4096 "block_size_of cls"]
  have k: "0 < k" "k < 2 ^ 52" "block_size_of cls \<le> k * 4096"
    using d block_size_bounds [OF cls] by (auto simp: k_def)
  note g = page_request [OF inv r k(1,2)]
  show ?thesis
  proof (cases r)
    case None
    then have "p = 0" "h' = h" using f r g by (simp_all add: AethAlloc_fresh_block_def Let_def k_def PAGE_SIZE_def)
    then show ?thesis using inv by (simp add: alloc_outcome_null keeps_same)
  next
    case (Some b)
    define h1 where "h1 = h\<lparr>space := s'\<rparr>"
    from g Some have b: "b mod 4096 = 0" "0 < b" "heap_inv0 fs es G (add_mset {b..<b + k * 4096} {#}) h1" "keeps G h h1"
      by (auto simp: pages_granted_def h1_def)
    have "heap_inv0 fs es G ({#block_ext cls b#} + {#}) h1"
      by (rule inv0_carve [OF b(3)]) (use k(3) in \<open>auto simp: exclusive_add_iff block_ext_def block_size_of_def\<close>)
    then have i: "heap_inv0 fs es G (add_mset (block_ext cls b) {#}) h1" by simp
    have "p = b + 16" "h' = flush_thread t (write_mem (write_usize sz b) h1)"
      using f r Some by (simp_all add: AethAlloc_fresh_block_def Let_def k_def PAGE_SIZE_def CACHE_HEADER_SIZE_def h1_def)
    with own_small [OF i page_mod_16 [OF b(1)] b(2) sz] b(4) al show ?thesis
      by (simp add: alloc_outcome_flush alloc_outcome_prefix alloc_outcome_small)
  qed
qed

lemma miss_outcome:
  assumes inv: "heap_inv0 fs es G {#} h0" and t: "t < length (caches h0)" and cls: "cls < 13"
    and sz: "0 < sz" "sz \<le> 65536" "size_to_class sz = Some cls" and al: "al dvd 16"
    and f: "AethAlloc_miss K t sz (class_bytes cls) cls h0 = (p, h')"
  shows "alloc_outcome G h0 sz al p h'"
proof -
  define h where "h = bump_metrics t (\<lambda>m. m\<lparr>t_cache_misses := wadd (t_cache_misses m) 1, t_allocs := wadd (t_allocs m) 1\<rparr>) h0"
  have sh: "same_heap h0 h" by (simp add: h_def)
  have t': "t < length (caches h)" using t same_heap_mags(1) [OF sh] by simp
  note inv' = same_heap_inv0 [OF sh inv]
  have bs: "wadd (class_bytes cls) CACHE_HEADER_SIZE = block_size_of cls"
    using block_size_bounds [OF cls] by (simp add: wadd_in_range CACHE_HEADER_SIZE_def block_size_of_def)
  let ?n = "4096 div block_size_of cls"
  have "alloc_outcome G h sz al p h'"
  proof (cases "1 < ?n")
    case False
    then have "AethAlloc_fresh_block K t sz (block_size_of cls) h = (p, h')"
      using f unfolding AethAlloc_miss_def h_def [symmetric] by (simp add: bs PAGE_SIZE_def)
    then show ?thesis by (rule fresh_block_outcome [OF inv' cls sz al])
  next
    case True
    obtain r s' where r: "PageAllocator_alloc K 1 (space h) = (r, s')" by (cases "PageAllocator_alloc K 1 (space h)")
    note g = page_request [OF inv' r]
    show ?thesis
    proof (cases r)
      case None
      then have "AethAlloc_fresh_block K t sz (block_size_of cls) h = (p, h')"
        using f True r g unfolding AethAlloc_miss_def h_def [symmetric] by (simp add: bs PAGE_SIZE_def)
      then show ?thesis by (rule fresh_block_outcome [OF inv' cls sz al])
    next
      case (Some b)
      define h1 where "h1 = h\<lparr>space := s'\<rparr>"
      define h2 where "h2 = set_alloc_mag t cls (Magazine_bulk_init (b + block_size_of cls) (block_size_of cls) (?n - 1)
        (alloc_mag t cls h1)) h1"
      from g Some have b: "b mod 4096 = 0" "0 < b" "heap_inv0 fs es G (add_mset {b..<b + 4096} {#}) h1" "keeps G h h1"
        by (auto simp: pages_granted_def h1_def)
      have i: "heap_inv0 fs es G (add_mset (block_ext cls b) {#}) h2"
        by (rule carve_page [OF b(3,1,2) _ cls _ refl, of t "?n - 1", folded h2_def]) (use t' True in \<open>auto simp: h1_def\<close>)
      have k: "keeps G h h2" by (rule keeps_trans [OF b(4)]) (simp add: keeps_same h2_def)
      have "p = b + CACHE_HEADER_SIZE" "h' = flush_thread t (write_mem (write_usize sz b) h2)"
        using f True r Some unfolding AethAlloc_miss_def h_def [symmetric]
        by (simp_all add: bs PAGE_SIZE_def Let_def h1_def h2_def)
      with own_small [OF i page_mod_16 [OF b(1)] b(2) sz] k al show ?thesis
        by (simp add: CACHE_HEADER_SIZE_def alloc_outcome_flush alloc_outcome_prefix alloc_outcome_small)
    qed
  qed
  then show ?thesis by (rule alloc_outcome_prefix [OF keeps_same_heap [OF sh]])
qed

end

subsection \<open>Large regions\<close>

lemma align_up_spec:
  assumes "a + 2 ^ k \<le> 2 ^ 64" and "k < 64" and "0 < a"
  shows "AethAlloc_align_up a (2 ^ k) = (a + 2 ^ k - 1) div 2 ^ k * 2 ^ k"
proof -
  have p: "0 < (2::nat) ^ k" "(2::nat) ^ k < 2 ^ 64" using power_strict_increasing [OF assms(2), of "2::nat"] by simp_all
  have w: "wsub (2 ^ k) 1 = 2 ^ k - 1" using p by (simp add: wsub_in_range)
  have "wsub (wadd a (2 ^ k)) 1 = a + 2 ^ k - 1"
  proof (cases "a + 2 ^ k = 2 ^ 64")
    case True
    then show ?thesis by (simp add: wadd_def wsub_def)
  next
    case False
    then show ?thesis using assms p by (simp add: wadd_in_range wsub_in_range)
  qed
  moreover have "a + 2 ^ k - 1 < 2 ^ 64" using assms p by linarith
  ultimately show ?thesis using assms(2) unfolding AethAlloc_align_up_def w by (simp only: and_wnot_mask)
qed

lemma round_up_bounds:
  fixes a d :: nat
  assumes "0 < d"
  shows "a \<le> (a + d - 1) div d * d" and "(a + d - 1) div d * d < a + d"
    and "d dvd a \<Longrightarrow> (a + d - 1) div d * d = a"
proof -
  have e: "a + d - 1 = (a + d - 1) div d * d + (a + d - 1) mod d" "(a + d - 1) mod d < d" using assms by simp_all
  then show "a \<le> (a + d - 1) div d * d" "(a + d - 1) div d * d < a + d" using assms by linarith+
  assume "d dvd a"
  then obtain q where q: "a = q * d" by (metis dvd_def mult.commute)
  then have "a + d - 1 = (d - 1) + q * d" using assms by simp
  then have "(a + d - 1) div d = q" using assms by (simp only: div_mult_self1 div_less)
  then show "(a + d - 1) div d * d = a" by (simp add: q)
qed

definition large_mem :: "addr \<Rightarrow> usize \<Rightarrow> usize \<Rightarrow> addr \<Rightarrow> mem \<Rightarrow> mem" where
  "large_mem base pages sz u m =
     write_LargeAllocHeader \<lparr>lh_magic = LARGE_MAGIC, lh_base_ptr = base\<rparr> (u - 16)
       (write_PageHeader \<lparr>ph_magic = MAGIC, ph_num_pages = pages mod 2 ^ 32, ph_requested_size = sz\<rparr> base m)"

lemma large_mem_header:
  assumes "base mod 4096 = 0" "0 < base" "base + 32 \<le> u" "u + n \<le> base + pages * 4096" "u mod 16 = 0"
    "base + pages * 4096 \<le> 2 ^ 63" "0 < n"
  shows "header_ok (large_mem base pages n u m) (OLarge base pages u n)"
proof -
  define v where "v = u - 16"
  have v: "u = v + 16" "base + 16 \<le> v" using assms(3) by (auto simp: v_def)
  have "n < 2 ^ 64" "base < 2 ^ 64" using assms by simp_all
  with assms v show ?thesis
    by (simp add: add.commute [of 8 v] large_mem_def write_LargeAllocHeader_def write_PageHeader_def MAGIC_def LARGE_MAGIC_def)
qed

lemma large_mem_frame:
  assumes "base + 32 \<le> u" "u \<le> base + k" "a \<notin> {base..<base + k}"
  shows "large_mem base pages n u m a = m a"
proof -
  define v where "v = u - 16"
  have "u = v + 16" "base + 16 \<le> v" using assms(1) by (auto simp: v_def)
  moreover have "a < base \<or> (v + 16 \<le> a \<and> base + 32 \<le> a)" using assms calculation by auto
  ultimately show ?thesis by (auto simp: large_mem_def write_LargeAllocHeader_def write_PageHeader_def)
qed

lemma pow_2_4: "(2::nat) ^ 4 = 16"
  by simp

lemma large_geometry:
  assumes base: "base mod 4096 = 0" "base + pages * 4096 \<le> 2 ^ 63" and fit: "32 + sz + 2 ^ k \<le> pages * 4096"
    and u: "u = AethAlloc_align_up (wadd (wadd base 16) 16) (2 ^ k)"
  shows "base + 32 \<le> u" and "u + sz \<le> base + pages * 4096" and "u mod 2 ^ k = 0" and "u mod 16 = 0"
proof -
  let ?d = "2 ^ k :: nat"
  have d: "0 < ?d" "?d \<le> 2 ^ 63" using base fit by auto
  have "k \<le> 63" using d(2) by (rule power_le_imp_le_exp [rotated]) simp
  then have k: "k < 64" by simp
  have w: "wadd (wadd base 16) 16 = base + 32" using base fit by (simp add: wadd_in_range)
  have u': "u = (base + 32 + ?d - 1) div ?d * ?d"
    unfolding u w by (rule align_up_spec) (use base fit k in auto)
  note r = round_up_bounds [OF d(1), of "base + 32"]
  show "base + 32 \<le> u" "u + sz \<le> base + pages * 4096" "u mod ?d = 0" using r u' fit by auto
  show "u mod 16 = 0"
  proof (cases "k \<le> 4")
    case True
    then have "?d dvd 2 ^ 4" by (rule le_imp_power_dvd)
    moreover have "16 dvd base + 32" using page_mod_16 [OF base(1)] by (simp add: dvd_eq_mod_eq_0 [symmetric])
    ultimately have "?d dvd base + 32" by (metis dvd_trans pow_2_4)
    then have "u = base + 32" using r(3) u' by simp
    with \<open>16 dvd base + 32\<close> show ?thesis by simp
  next
    case False
    then have "(2::nat) ^ 4 dvd ?d" by (intro le_imp_power_dvd) simp
    then have "16 dvd u" unfolding u' pow_2_4 by (rule dvd_mult)
    then show ?thesis by simp
  qed
qed

context kernel
begin

lemma alloc_large_shape:
  assumes sz: "0 < sz" "sz + 2 ^ k \<le> 2 ^ 63"
    and h: "h = flush_thread t (bump_metrics t
      (\<lambda>m. m\<lparr>t_direct_allocs := wadd (t_direct_allocs m) 1, t_allocs := wadd (t_allocs m) 1\<rparr>) h0)"
    and f: "AethAlloc_alloc_large K t sz (2 ^ k) h0 = (p, h')"
  shows "p = 0 \<and> h' = h \<and> fst (PageAllocator_alloc K (max (div_ceil (32 + sz + 2 ^ k) 4096) 1) (space h)) = None \<or>
    (\<exists>b n s'. pages_granted n (space h) b s' \<and> n = max (div_ceil (32 + sz + 2 ^ k) 4096) 1 \<and>
    h' = write_mem (large_mem b n sz p) (h\<lparr>space := s'\<rparr>) \<and>
    b + 32 \<le> p \<and> p + sz \<le> b + n * 4096 \<and> p mod 2 ^ k = 0 \<and> p mod 16 = 0)"
proof -
  have ms: "wadd (wadd (wadd PAGE_HEADER_SIZE LARGE_HEADER_SIZE) sz) (2 ^ k) = 32 + sz + 2 ^ k"
    using sz(2) by (simp add: wadd_in_range PAGE_HEADER_SIZE_def LARGE_HEADER_SIZE_def)
  define n where "n = max (div_ceil (32 + sz + 2 ^ k) 4096) 1"
  note d = div_ceil_bounds [of 4096 "32 + sz + 2 ^ k"]
  have n: "0 < n" "n < 2 ^ 52" "32 + sz + 2 ^ k \<le> n * 4096" using d sz(2) by (auto simp: n_def)
  obtain r s' where r: "PageAllocator_alloc K n (space h) = (r, s')" by (cases "PageAllocator_alloc K n (space h)")
  show ?thesis
  proof (cases r)
    case None
    then have "s' = space h" using r PageAllocator_alloc_None by simp
    with None f r show ?thesis unfolding AethAlloc_alloc_large_def h [symmetric] ms
      by (simp add: Let_def n_def PAGE_SIZE_def)
  next
    case (Some b)
    define u where "u = AethAlloc_align_up (wadd (wadd b 16) 16) (2 ^ k)"
    from r Some n have g: "pages_granted n (space h) b s'" by (simp add: PageAllocator_alloc_Some)
    then have b: "b mod 4096 = 0" "b + n * 4096 \<le> 2 ^ 63" by (auto simp: pages_granted_def)
    have "p = u" "h' = write_mem (large_mem b n sz u) (h\<lparr>space := s'\<rparr>)"
      using f r Some unfolding AethAlloc_alloc_large_def h [symmetric] ms
      by (auto simp: Let_def n_def PAGE_SIZE_def u_def PAGE_HEADER_SIZE_def LARGE_HEADER_SIZE_def large_mem_def write_mem_def)
    with g large_geometry [OF b n(3) u_def] n_def show ?thesis
      by (intro disjI2 exI [of _ b] exI [of _ n] exI [of _ s'] conjI) simp_all
  qed
qed

lemma alloc_large_outcome:
  assumes inv: "heap_inv0 fs es G {#} h0" and sz: "0 < sz" "sz + 2 ^ k \<le> 2 ^ 63"
    and f: "AethAlloc_alloc_large K t sz (2 ^ k) h0 = (p, h')"
  shows "alloc_outcome G h0 sz (2 ^ k) p h'"
proof -
  define h where "h = flush_thread t (bump_metrics t
    (\<lambda>m. m\<lparr>t_direct_allocs := wadd (t_direct_allocs m) 1, t_allocs := wadd (t_allocs m) 1\<rparr>) h0)"
  have sh: "same_heap h0 h" unfolding h_def by (rule same_heap_trans [OF same_heap_bump same_heap_flush])
  note inv' = same_heap_inv0 [OF sh inv]
  have "alloc_outcome G h sz (2 ^ k) p h'"
    using alloc_large_shape [OF sz h_def f]
  proof (elim disjE exE conjE)
    assume "p = 0" "h' = h"
    then show ?thesis using inv' by (simp add: alloc_outcome_null keeps_same)
  next
    fix b n s'
    assume g: "pages_granted n (space h) b s'" and h': "h' = write_mem (large_mem b n sz p) (h\<lparr>space := s'\<rparr>)"
      and geo: "b + 32 \<le> p" "p + sz \<le> b + n * 4096" "p mod 2 ^ k = 0" "p mod 16 = 0"
    define h1 where "h1 = h\<lparr>space := s'\<rparr>"
    from g have b: "b mod 4096 = 0" "0 < b" "b + n * 4096 \<le> 2 ^ 63" by (auto simp: pages_granted_def)
    have i1: "heap_inv0 fs es G (add_mset {b..<b + n * 4096} {#}) h1" "keeps G h h1"
      unfolding h1_def by (rule inv0_grant [OF inv' g], rule keeps_grant [OF inv' g])
    have fr: "a \<notin> {b..<b + n * 4096} \<Longrightarrow> large_mem b n sz p (mem (space h1)) a = mem (space h1) a" for a
      by (rule large_mem_frame) (use geo in auto)
    let ?g = "OLarge b n p sz" and ?h2 = "write_mem (large_mem b n sz p) h1"
    have i: "heap_inv0 fs es G (add_mset (ext_of ?g) {#}) ?h2"
      unfolding ext_of.simps by (rule inv0_write [OF i1(1)]) (use fr in auto)
    have k2: "keeps G h ?h2" by (rule keeps_trans [OF i1(2) keeps_write [OF i1(1)]]) (use fr in auto)
    have "heap_inv0 fs es (add_mset ?g G) {#} ?h2"
      by (rule inv0_own [OF i]) (use geo b sz in \<open>simp add: write_mem_def large_mem_header del: header_ok.simps\<close>)
    with geo k2 h' show ?thesis by (intro alloc_outcomeI [of _ _ _ ?g]) (auto simp: h1_def)
  qed
  then show ?thesis by (rule alloc_outcome_prefix [OF keeps_same_heap [OF sh]])
qed

end

subsection \<open>Nodes of the pools\<close>

definition node_mset :: "(nat \<Rightarrow> addr list) \<Rightarrow> (nat \<Rightarrow> addr list) \<Rightarrow> addr multiset" where
  "node_mset fs es = (\<Sum>c \<in> {..<13}. mset (fs c) + mset (es c))"

lemma meta_ext_nodes: "meta_ext fs es md = image_mset (\<lambda>n. {n..<n + NODE_SIZE}) (node_mset fs es) + {#meta_fresh md#}"
proof -
  have "image_mset f (\<Sum>c \<in> A. g c) = (\<Sum>c \<in> A. image_mset f (g c))" if "finite A"
    for A :: "nat set" and f :: "addr \<Rightarrow> addr set" and g
    using that by (induction A rule: finite_induct) auto
  then show ?thesis by (simp add: meta_ext_def node_mset_def node_ext_def)
qed

lemma node_mset_upd:
  assumes "cls < 13"
  shows "node_mset (fs(cls := n # fs cls)) es = add_mset n (node_mset fs es)"
    and "node_mset fs (es(cls := n # es cls)) = add_mset n (node_mset fs es)"
proof -
  have fin: "finite {..<13::nat}" "cls \<in> {..<13}" using assms by auto
  show "node_mset (fs(cls := n # fs cls)) es = add_mset n (node_mset fs es)"
    using sum_point_update [OF fin, of "\<lambda>c. mset ((fs(cls := n # fs cls)) c) + mset (es c)" "\<lambda>c. mset (fs c) + mset (es c)"]
    by (simp add: node_mset_def)
  show "node_mset fs (es(cls := n # es cls)) = add_mset n (node_mset fs es)"
    using sum_point_update [OF fin, of "\<lambda>c. mset (fs c) + mset ((es(cls := n # es cls)) c)" "\<lambda>c. mset (fs c) + mset (es c)"]
    by (simp add: node_mset_def)
qed

lemma node_mset_mem: "c < 13 \<Longrightarrow> n \<in> set (fs c) \<or> n \<in> set (es c) \<Longrightarrow> n \<in># node_mset fs es"
  by (auto simp: node_mset_def set_mset_sum)

lemma node_fresh:
  assumes "heap_inv0 fs es G (add_mset {n..<n + NODE_SIZE} H) h"
  shows "n \<notin># node_mset fs es" and "0 < n"
proof -
  have "placed (space h) {n..<n + NODE_SIZE}" by (rule inv0_parts(6) [OF assms]) (simp add: all_ext_def)
  moreover have "n \<in> {n..<n + NODE_SIZE}" by (simp add: NODE_SIZE_def)
  ultimately show "0 < n" unfolding placed_def by (metis greaterThanLessThan_iff subsetD)
  show "n \<notin># node_mset fs es"
  proof
    assume "n \<in># node_mset fs es"
    then have "{n..<n + NODE_SIZE} \<in># meta_ext fs es (metadata h)" by (simp add: meta_ext_nodes)
    then have "{n..<n + NODE_SIZE} \<inter> {n..<n + NODE_SIZE} = {}"
      by (intro exclusive_disjoint [where M = "all_ext fs es G {#} h" and N = "add_mset {n..<n + NODE_SIZE} H"])
        (use inv0_parts(5) [OF assms] in \<open>auto simp: all_ext_def ac_simps\<close>)
    then show False by (simp add: NODE_SIZE_def)
  qed
qed

end
