(* ===== verification/HeapPools.thy ===== *)
theory HeapPools
  imports HeapAlloc
begin

text \<open>
  The global magazine pools under the ownership invariant: unlinking a node from a full stack,
  rewriting a node that is on no stack, and linking it to an empty or a full stack. From these
  follow the refill of an allocation magazine and the retirement of a free magazine.
\<close>

lemma inv0_drop_left: "heap_inv0 fs es G (D + H) h \<Longrightarrow> heap_inv0 fs es G H h"
  by (rule inv0_drop [of fs es G H D]) (simp add: union_commute)

lemma node_mset_notin: "n \<notin># node_mset fs es \<Longrightarrow> c < 13 \<Longrightarrow> n \<notin> set (fs c) \<and> n \<notin> set (es c)"
  using node_mset_mem [of c n fs es] by blast

lemma reps_set_node:
  assumes "n \<notin> set xs"
  shows "full_rep (p, ns(n := x)) xs = full_rep (p, ns) xs" and "empty_rep (p, ns(n := x)) xs = empty_rep (p, ns) xs"
  using assms by (simp_all add: full_rep_def empty_rep_def chain_set_node del: fun_upd_apply)

lemma pool_ext_set_node: "n \<notin> set xs \<Longrightarrow> pool_ext (ns(n := x)) c xs = pool_ext ns c xs"
  unfolding pool_ext_def by (rule arg_cong [of _ _ sum_list], rule map_cong) auto

lemma pools_ext_set_node:
  "n \<notin># node_mset fs es \<Longrightarrow> pools_ext fs (ns(n := x)) = pools_ext fs ns"
  unfolding pools_ext_def by (rule sum.cong) (auto simp: pool_ext_set_node dest: node_mset_notin)

lemma caches_frame:
  "caches h' = caches h \<Longrightarrow> caches_ext h' = caches_ext h \<and> caches_ok h' = caches_ok h"
  by (simp add: caches_ext_def caches_ok_def alloc_mag_def free_mag_def get_thread_cache_def)

lemma pools_okI:
  assumes "length (magazines h) = 13"
    and "\<And>c. c < 13 \<Longrightarrow> full_rep (magazines h ! c, nodes h) (fs c)"
    and "\<And>c. c < 13 \<Longrightarrow> empty_rep (magazines h ! c, nodes h) (es c)"
    and "\<And>c n. c < 13 \<Longrightarrow> n \<in> set (fs c) \<Longrightarrow> mag_good (magazine (nodes h n))"
  shows "pools_ok fs es h"
  using assms by (simp add: pools_ok_def)

lemma pools_okD:
  assumes "pools_ok fs es h" and "c < 13"
  shows "length (magazines h) = 13" and "full_rep (magazines h ! c, nodes h) (fs c)"
    and "empty_rep (magazines h ! c, nodes h) (es c)" and "n \<in> set (fs c) \<Longrightarrow> mag_good (magazine (nodes h n))"
  using assms by (simp_all add: pools_ok_def)

lemma inv0_set_node:
  assumes inv: "heap_inv0 fs es G H h" and n: "n \<notin># node_mset fs es"
  shows "heap_inv0 fs es G H (h\<lparr>nodes := (nodes h)(n := x)\<rparr>)"
proof (rule inv0_shrink [OF inv, where D = "{#}"])
  note P = pools_okD [OF inv0_parts(2) [OF inv]]
  show "pools_ok fs es (h\<lparr>nodes := (nodes h)(n := x)\<rparr>)"
  proof (rule pools_okI)
    fix c :: nat assume c: "c < 13"
    note nin = node_mset_notin [OF n c]
    show "mag_good (magazine (nodes (h\<lparr>nodes := (nodes h)(n := x)\<rparr>) m))" if "m \<in> set (fs c)" for m
      using P(4) [OF c that] nin that by auto
  qed (use P P(1) [of 0] node_mset_notin [OF n] in \<open>simp_all add: reps_set_node del: fun_upd_apply\<close>)
qed (use inv0_parts [OF inv] caches_frame [of "h\<lparr>nodes := (nodes h)(n := x)\<rparr>" h] pools_ext_set_node [OF n]
  in \<open>simp_all add: all_ext_def\<close>)

lemma pools_ext_upd:
  assumes "cls < 13"
  shows "pools_ext (fs(cls := xs)) ns + pool_ext ns cls (fs cls) = pools_ext fs ns + pool_ext ns cls xs"
  using sum_point_update [of "{..<13}" cls "\<lambda>c. pool_ext ns c ((fs(cls := xs)) c)" "\<lambda>c. pool_ext ns c (fs c)"] assms
  by (simp add: pools_ext_def)

lemma pool_ext_Cons: "pool_ext ns c (n # xs) = mag_ext c (magazine (ns n)) + pool_ext ns c xs"
  by (simp add: pool_ext_def)

subsection \<open>Unlinking\<close>

lemma inv0_unlink_full:
  assumes inv: "heap_inv0 fs es G H h" and cls: "cls < 13" and fs: "fs cls = n # rest"
    and h': "h' = h\<lparr>magazines := (magazines h)[cls := (magazines h ! cls)\<lparr>full_head := node_next (nodes h n)\<rparr>]\<rparr>"
  shows "heap_inv0 (fs(cls := rest)) es G (add_mset {n..<n + NODE_SIZE} (mag_ext cls (magazine (nodes h n)) + H)) h'"
    and "mag_good (magazine (nodes h n))"
proof -
  note P = pools_okD [OF inv0_parts(2) [OF inv]]
  show "mag_good (magazine (nodes h n))" using P(4) [OF cls] fs by simp
  have "pools_ok (fs(cls := rest)) es h'"
  proof (rule pools_okI)
    fix c :: nat assume c: "c < 13"
    show "full_rep (magazines h' ! c, nodes h') ((fs(cls := rest)) c)"
      using P(2) [OF c] P(1) [OF c] c fs by (cases "c = cls") (auto simp: h' full_rep_def)
    show "empty_rep (magazines h' ! c, nodes h') (es c)"
      using P(3) [OF c] P(1) [OF c] c by (cases "c = cls") (auto simp: h' empty_rep_def)
    show "mag_good (magazine (nodes h' m))" if "m \<in> set ((fs(cls := rest)) c)" for m
      using P(4) [OF c, of m] that fs by (auto simp: h' split: if_splits)
  qed (use P(1) cls h' in simp)
  moreover have "node_mset fs es = add_mset n (node_mset (fs(cls := rest)) es)"
    using node_mset_upd(1) [OF cls, of "fs(cls := rest)" n es] fs by (simp add: fun_upd_idem)
  moreover have "pools_ext fs (nodes h) = pools_ext (fs(cls := rest)) (nodes h) + mag_ext cls (magazine (nodes h n))"
    using pools_ext_upd [OF cls, of fs rest "nodes h"] fs by (simp add: pool_ext_Cons ac_simps)
  ultimately show "heap_inv0 (fs(cls := rest)) es G (add_mset {n..<n + NODE_SIZE} (mag_ext cls (magazine (nodes h n)) + H)) h'"
    using inv0_parts [OF inv] caches_frame [of h' h] h'
    by (intro inv0_shrink [OF inv, where D = "{#}"]) (simp_all add: all_ext_def meta_ext_nodes ac_simps)
qed

subsection \<open>Linking\<close>

lemma inv0_push_empty:
  assumes inv: "heap_inv0 fs es G (add_mset {n..<n + NODE_SIZE} H) h" and cls: "cls < 13"
    and r: "push_empty n (magazines h ! cls, nodes h) = (pool, ns)"
    and h': "h' = h\<lparr>magazines := (magazines h)[cls := pool], nodes := ns\<rparr>"
  shows "heap_inv0 fs (es(cls := n # es cls)) G H h'"
proof -
  note fresh = node_fresh [OF inv] and P = pools_okD [OF inv0_parts(2) [OF inv]]
  have r': "pool = (magazines h ! cls)\<lparr>empty_head := n\<rparr>"
    "ns = (nodes h)(n := (nodes h n)\<lparr>node_next := empty_head (magazines h ! cls)\<rparr>)" using r by (auto simp: push_empty_def)
  have "pools_ok fs (es(cls := n # es cls)) h'"
  proof (rule pools_okI)
    fix c :: nat assume c: "c < 13"
    note nin = node_mset_notin [OF fresh(1) c]
    have "full_rep (magazines h' ! c, nodes h) (fs c)"
      using P(2) [OF c] P(1) [OF c] c by (cases "c = cls") (auto simp: h' r' full_rep_def)
    then show "full_rep (magazines h' ! c, nodes h') (fs c)" using nin by (simp add: h' r' reps_set_node del: fun_upd_apply)
    show "empty_rep (magazines h' ! c, nodes h') ((es(cls := n # es cls)) c)"
      using P(3) [OF c] P(1) [OF c] c nin fresh(2) empty_stack.push_rep [of "(magazines h ! cls, nodes h)" "es cls" n]
      by (cases "c = cls") (auto simp: h' r r' reps_set_node simp del: fun_upd_apply simp add: fun_upd_same fun_upd_other)
    show "mag_good (magazine (nodes h' m))" if "m \<in> set (fs c)" for m
      using P(4) [OF c that] nin that by (auto simp: h' r')
  qed (use P(1) cls h' in simp)
  then show ?thesis
    using inv0_parts [OF inv] caches_frame [of h' h] h' r' pools_ext_set_node [OF fresh(1)] node_mset_upd(2) [OF cls, of fs es n]
    by (intro inv0_shrink [OF inv, where D = "{#}"]) (simp_all add: all_ext_def meta_ext_nodes ac_simps)
qed

lemma inv0_push_full:
  assumes inv: "heap_inv0 fs es G (add_mset {n..<n + NODE_SIZE} (mag_ext cls (magazine (nodes h n)) + H)) h"
    and cls: "cls < 13" and good: "mag_good (magazine (nodes h n))"
    and r: "push_full n (magazines h ! cls, nodes h) = (pool, ns)"
    and h': "h' = h\<lparr>magazines := (magazines h)[cls := pool], nodes := ns\<rparr>"
  shows "heap_inv0 (fs(cls := n # fs cls)) es G H h'"
proof -
  note fresh = node_fresh [OF inv] and P = pools_okD [OF inv0_parts(2) [OF inv]]
  have r': "pool = (magazines h ! cls)\<lparr>full_head := n\<rparr>"
    "ns = (nodes h)(n := (nodes h n)\<lparr>node_next := full_head (magazines h ! cls)\<rparr>)" using r by (auto simp: push_full_def)
  have "pools_ok (fs(cls := n # fs cls)) es h'"
  proof (rule pools_okI)
    fix c :: nat assume c: "c < 13"
    note nin = node_mset_notin [OF fresh(1) c]
    have "empty_rep (magazines h' ! c, nodes h) (es c)"
      using P(3) [OF c] P(1) [OF c] c by (cases "c = cls") (auto simp: h' r' empty_rep_def)
    then show "empty_rep (magazines h' ! c, nodes h') (es c)" using nin by (simp add: h' r' reps_set_node del: fun_upd_apply)
    show "full_rep (magazines h' ! c, nodes h') ((fs(cls := n # fs cls)) c)"
      using P(2) [OF c] P(1) [OF c] c nin fresh(2) full_stack.push_rep [of "(magazines h ! cls, nodes h)" "fs cls" n]
      by (cases "c = cls") (auto simp: h' r r' reps_set_node simp del: fun_upd_apply simp add: fun_upd_same fun_upd_other)
    show "mag_good (magazine (nodes h' m))" if "m \<in> set ((fs(cls := n # fs cls)) c)" for m
      using P(4) [OF c, of m] good that by (auto simp: h' r' split: if_splits)
  qed (use P(1) cls h' in simp)
  moreover have "pools_ext (fs(cls := n # fs cls)) ns = pools_ext fs (nodes h) + mag_ext cls (magazine (nodes h n))"
  proof -
    have "pools_ext (fs(cls := n # fs cls)) ns = pools_ext fs ns + mag_ext cls (magazine (ns n))"
      using pools_ext_upd [OF cls, of fs "n # fs cls" ns] by (simp add: pool_ext_Cons ac_simps)
    then show ?thesis using pools_ext_set_node [OF fresh(1)] by (simp add: r')
  qed
  ultimately show ?thesis
    using inv0_parts [OF inv] caches_frame [of h' h] h' node_mset_upd(1) [OF cls, of fs n es]
    by (intro inv0_shrink [OF inv, where D = "{#}"]) (simp_all add: all_ext_def meta_ext_nodes ac_simps)
qed

subsection \<open>Refilling the allocation magazine\<close>

lemma refill_inv:
  assumes inv: "heap_inv0 fs es G H h" and t: "t < length (caches h)" and cls: "cls < 13"
    and r: "AethAlloc_refill t cls h = (ok, h')"
  shows "space h' = space h \<and> length (caches h') = length (caches h) \<and> (\<exists>fs es. heap_inv0 fs es G H h') \<and> (\<not> ok \<longrightarrow> h' = h)"
proof (cases "fs cls")
  case Nil
  then have "pop_full (magazines h ! cls, nodes h) = (None, magazines h ! cls, nodes h)"
    using pools_okD(2) [OF inv0_parts(2) [OF inv] cls] full_stack.pop_nil by simp
  then have "h' = h" using r by (simp add: AethAlloc_refill_def)
  with inv show ?thesis by (metis)
next
  case (Cons n rest)
  have fh: "full_head (magazines h ! cls) = n" "0 < n"
    using pools_okD(2) [OF inv0_parts(2) [OF inv] cls] Cons by (auto simp: full_rep_def)
  define h1 where "h1 = h\<lparr>magazines := (magazines h)[cls := (magazines h ! cls)\<lparr>full_head := node_next (nodes h n)\<rparr>]\<rparr>"
  note un = inv0_unlink_full [OF inv cls Cons h1_def]
  define x where "x = (nodes h n)\<lparr>magazine := Magazine_clear (alloc_mag t cls h)\<rparr>"
  define h2 where "h2 = h1\<lparr>nodes := (nodes h1)(n := x)\<rparr>"
  have i2: "heap_inv0 (fs(cls := rest)) es G (add_mset {n..<n + NODE_SIZE} (mag_ext cls (magazine (nodes h n)) + H)) h2"
    unfolding h2_def by (rule inv0_set_node [OF un(1) node_fresh(1) [OF un(1)]])
  obtain pool ns where pe: "push_empty n (magazines h2 ! cls, nodes h2) = (pool, ns)"
    by (cases "push_empty n (magazines h2 ! cls, nodes h2)")
  define h3 where "h3 = h2\<lparr>magazines := (magazines h2)[cls := pool], nodes := ns\<rparr>"
  have i3: "heap_inv0 (fs(cls := rest)) (es(cls := n # es cls)) G (mag_ext cls (magazine (nodes h n)) + H) h3"
    by (rule inv0_push_empty [OF i2 cls pe h3_def])
  have am: "alloc_mag t cls h3 = alloc_mag t cls h" "length (caches h3) = length (caches h)" "space h3 = space h"
    by (simp_all add: h3_def h2_def h1_def alloc_mag_def get_thread_cache_def)
  have "heap_inv0 (fs(cls := rest)) (es(cls := n # es cls)) G (mag_ext cls (alloc_mag t cls h) + H)
      (set_alloc_mag t cls (magazine (nodes h n)) h3)"
    by (rule inv0_set_alloc [OF i3 _ cls un(2)]) (use t am in \<open>simp_all add: ac_simps\<close>)
  then have i4: "heap_inv0 (fs(cls := rest)) (es(cls := n # es cls)) G H (set_alloc_mag t cls (magazine (nodes h n)) h3)"
    by (rule inv0_drop_left)
  have "(ok, h') = (True, set_alloc_mag t cls (magazine (nodes h n)) h3)"
    using r pe fh cls pools_okD(1) [OF inv0_parts(2) [OF inv] cls]
    by (simp add: AethAlloc_refill_def pop_full_def h3_def h2_def h1_def x_def push_empty_def)
  with i4 am show ?thesis by auto
qed

subsection \<open>A node from the metadata allocator\<close>

lemma bump_offset:
  assumes "meta_ok md"
  shows "wsub (wadd (offset md) NODE_ALIGN) 1 AND wnot (NODE_ALIGN - 1) = offset md"
    and "wadd (offset md) NODE_SIZE = offset md + NODE_SIZE"
proof -
  have o: "offset md mod 8 = 0" "offset md \<le> 4096" using assms by (auto simp: meta_ok_def)
  have w: "wsub (wadd (offset md) 8) 1 = offset md + 7" using o by (simp add: wadd_in_range wsub_in_range)
  have "(offset md + 7) AND wnot (2 ^ 3 - 1) = (offset md + 7) div 2 ^ 3 * 2 ^ 3"
    by (rule and_wnot_mask) (use o in auto)
  also have "\<dots> = offset md" using o(1) by (simp, presburger)
  finally show "wsub (wadd (offset md) NODE_ALIGN) 1 AND wnot (NODE_ALIGN - 1) = offset md"
    using w by (simp add: NODE_ALIGN_def)
  show "wadd (offset md) NODE_SIZE = offset md + NODE_SIZE" using o by (simp add: wadd_in_range NODE_SIZE_def)
qed

lemma alloc_node_step:
  assumes "meta_ok md"
  shows "alloc_node K (md, s) =
    (if offset md + NODE_SIZE \<le> 4096 then (current_page md + offset md, md\<lparr>offset := offset md + NODE_SIZE\<rparr>, s)
     else case alloc_metadata_page K s of
       (p, s') \<Rightarrow> if p = 0 then (0, md, s') else (p, md\<lparr>current_page := p, offset := NODE_SIZE\<rparr>, s'))"
  unfolding alloc_node_def prod.case Let_def bump_offset [OF assms] by (simp add: PAGE_SIZE_def)

lemma cover_posD: "0 < cover M a \<Longrightarrow> \<exists>E \<in># M. a \<in> E"
  by (metis cover_0 less_irrefl)

lemma inv0_set_metadata:
  assumes inv: "heap_inv0 fs es G H h" and md: "meta_ok md"
    and le: "\<And>a. cover (add_mset (meta_fresh md) H') a \<le> cover (add_mset (meta_fresh (metadata h)) H) a"
  shows "heap_inv0 fs es G H' (h\<lparr>metadata := md\<rparr>)"
proof -
  let ?h = "h\<lparr>metadata := md\<rparr>"
  note c = caches_frame [of ?h h]
  have cov: "cover (all_ext fs es G H' ?h) a \<le> cover (all_ext fs es G H h) a" for a
    using le [of a] c by (simp add: all_ext_def meta_ext_def)
  have "exclusive (all_ext fs es G H' ?h)" by (rule exclusive_mono [OF inv0_parts(5) [OF inv] cov])
  moreover have "placed (space h) E" if "E \<in># all_ext fs es G H' ?h" for E
  proof -
    have "a \<in> mapped (space h) \<and> a \<in> {0<..<2 ^ 63}" if "a \<in> E" for a
    proof -
      have "0 < cover (all_ext fs es G H' ?h) a" by (rule cover_pos) fact+
      with cov [of a] have "0 < cover (all_ext fs es G H h) a" by linarith
      then obtain F where "F \<in># all_ext fs es G H h" "a \<in> F" using cover_posD by blast
      then show ?thesis using inv0_parts(6) [OF inv, of F] unfolding placed_def by blast
    qed
    then show ?thesis unfolding placed_def by blast
  qed
  ultimately show ?thesis using inv0_parts(1-4) [OF inv] md c by (simp add: heap_inv0_def pools_ok_def)
qed

context kernel
begin

lemma alloc_node_inv:
  assumes inv: "heap_inv0 fs es G H h" and r: "alloc_node K (metadata h, space h) = (n, md, s')"
    and h1: "h1 = h\<lparr>metadata := md, space := s'\<rparr>"
  shows "keeps G h h1 \<and> (if n = 0 then heap_inv0 fs es G H h1 else heap_inv0 fs es G (add_mset {n..<n + NODE_SIZE} H) h1)"
proof -
  have ok: "meta_ok (metadata h)" by (rule inv0_parts(3) [OF inv])
  note b = r [unfolded alloc_node_step [OF ok]]
  show ?thesis
  proof (cases "offset (metadata h) + NODE_SIZE \<le> 4096")
    case True
    then have e: "n = current_page (metadata h) + offset (metadata h)" "s' = space h"
        "md = (metadata h)\<lparr>offset := offset (metadata h) + NODE_SIZE\<rparr>"
      using b by simp_all
    have pos: "0 < n" using True ok e(1) by (simp add: meta_ok_def NODE_SIZE_def)
    have "heap_inv0 fs es G (add_mset {n..<n + NODE_SIZE} H) (h\<lparr>metadata := md\<rparr>)"
    proof (rule inv0_set_metadata [OF inv])
      show "meta_ok md" using ok True e(3) by (auto simp: meta_ok_def NODE_SIZE_def)
      fix a show "cover (add_mset (meta_fresh md) (add_mset {n..<n + NODE_SIZE} H)) a \<le> cover (add_mset (meta_fresh (metadata h)) H) a"
        using True by (auto simp: e meta_fresh_def)
    qed
    moreover have "h1 = h\<lparr>metadata := md\<rparr>" by (simp add: h1 e(2))
    ultimately show ?thesis using pos by (simp add: keeps_same)
  next
    case False
    obtain q t where q: "sys_mmap K (space h) 4096 = (q, t)" by (cases "sys_mmap K (space h) 4096")
    show ?thesis
    proof (cases q)
      case None
      then have "t = space h" using mmap_failed q by blast
      then have "n = 0" "h1 = h" using b False q None by (simp_all add: alloc_metadata_page_def h1 PAGE_SIZE_def)
      then show ?thesis using inv by (simp add: keeps_same)
    next
      case (Some p)
      with q have "PageAllocator_alloc K 1 (space h) = (Some p, t)"
        using mmap_nonnull [of "space h" 4096 p t] by (simp add: PageAllocator_alloc_def PAGE_SIZE_def wmul_def)
      note g = page_request [OF inv this]
      then have p: "0 < p" by (simp add: pages_granted_def)
      then have e: "n = p" "s' = t" "md = (metadata h)\<lparr>current_page := p, offset := NODE_SIZE\<rparr>"
        using b False q Some by (auto simp: alloc_metadata_page_def PAGE_SIZE_def)
      let ?h = "h\<lparr>space := s'\<rparr>"
      have i: "heap_inv0 fs es G (add_mset {p..<p + 4096} H) ?h" "keeps G h ?h" using g e by simp_all
      have "heap_inv0 fs es G (add_mset {n..<n + NODE_SIZE} H) (?h\<lparr>metadata := md\<rparr>)"
      proof (rule inv0_set_metadata [OF i(1)])
        show "meta_ok md" using p by (simp add: e meta_ok_def NODE_SIZE_def)
        fix a show "cover (add_mset (meta_fresh md) (add_mset {n..<n + NODE_SIZE} H)) a
            \<le> cover (add_mset (meta_fresh (metadata ?h)) (add_mset {p..<p + 4096} H)) a"
          by (auto simp: e meta_fresh_def NODE_SIZE_def)
      qed
      moreover have "h1 = ?h\<lparr>metadata := md\<rparr>" by (simp add: h1)
      ultimately show ?thesis using i(2) e p by (auto simp: keeps_def)
    qed
  qed
qed

lemma retire_inv:
  assumes inv: "heap_inv0 fs es G H h" and t: "t < length (caches h)" and cls: "cls < 13"
  shows "keeps G h (AethAlloc_retire K t cls h) \<and> (\<exists>fs es. heap_inv0 fs es G H (AethAlloc_retire K t cls h))"
proof -
  obtain n md s' where r: "alloc_node K (metadata h, space h) = (n, md, s')" by (cases "alloc_node K (metadata h, space h)")
  define h1 where "h1 = h\<lparr>metadata := md, space := s'\<rparr>"
  note a = alloc_node_inv [OF inv r h1_def]
  show ?thesis
  proof (cases "n = 0")
    case True
    then have "AethAlloc_retire K t cls h = h1" using r by (simp add: AethAlloc_retire_def h1_def)
    with a True show ?thesis by auto
  next
    case False
    let ?m = "free_mag t cls h"
    have fm: "free_mag t cls h1 = ?m" "length (caches h1) = length (caches h)"
      by (simp_all add: h1_def free_mag_def get_thread_cache_def)
    have good: "mag_good ?m" using caches_nth(4) [OF inv0_parts(1) [OF inv] t] cls by simp
    from a False have i1: "heap_inv0 fs es G (add_mset {n..<n + NODE_SIZE} H) h1" by simp
    define h2 where "h2 = h1\<lparr>nodes := (nodes h1)(n := \<lparr>node_next = 0, magazine = ?m\<rparr>)\<rparr>"
    have i2: "heap_inv0 fs es G (add_mset {n..<n + NODE_SIZE} H) h2"
      unfolding h2_def by (rule inv0_set_node [OF i1 node_fresh(1) [OF i1]])
    define h3 where "h3 = set_free_mag t cls Magazine_new h2"
    have i3: "heap_inv0 fs es G (add_mset {n..<n + NODE_SIZE} (mag_ext cls ?m + H)) h3"
      unfolding h3_def
    proof (rule inv0_set_free [OF i2 _ cls])
      show "mag_good Magazine_new" by (simp add: mag_good_def)
    qed (use t fm in \<open>simp_all add: h2_def mag_ext_def free_mag_def get_thread_cache_def\<close>)
    have n3: "nodes h3 n = \<lparr>node_next = 0, magazine = ?m\<rparr>" by (simp add: h3_def h2_def)
    obtain pool ns where pf: "push_full n (magazines h3 ! cls, nodes h3) = (pool, ns)"
      by (cases "push_full n (magazines h3 ! cls, nodes h3)")
    define h4 where "h4 = h3\<lparr>magazines := (magazines h3)[cls := pool], nodes := ns\<rparr>"
    have i4: "heap_inv0 (fs(cls := n # fs cls)) es G H h4"
      by (rule inv0_push_full [OF _ cls _ pf h4_def]) (use i3 n3 good in simp_all)
    have "AethAlloc_retire K t cls h = h4"
      using r False pf fm(1) by (simp add: AethAlloc_retire_def h1_def Let_def h4_def h3_def h2_def set_free_mag_def
        set_thread_cache_def get_thread_cache_def)
    moreover have "keeps G h1 h4" by (rule keeps_same) (simp_all add: h4_def h3_def h2_def)
    ultimately show ?thesis using i4 a keeps_trans by blast
  qed
qed

end

end
