(* ===== verification/HeapSound.thy ===== *)
theory HeapSound
  imports HeapPools
begin

text \<open>
  The global allocator meets the allocator contract. Every operation of every thread keeps the
  ownership invariant, so any interleaving of allocations, frees (by any thread) and writes of the
  program leaves the blocks it holds disjoint, mapped, aligned and unchanged except by its own writes.
\<close>

subsection \<open>alloc\<close>

lemma small_align: "2 ^ k \<le> (8 :: nat) \<Longrightarrow> 2 ^ k dvd (16 :: nat)"
proof -
  assume "2 ^ k \<le> (8 :: nat)"
  then have "(2 :: nat) ^ k \<le> 2 ^ 3" by simp
  then have "k \<le> 3" by (rule power_le_imp_le_exp [rotated]) simp
  then have "(2 :: nat) ^ k dvd 2 ^ 4" by (intro le_imp_power_dvd) simp
  then show ?thesis by simp
qed

lemma hit_outcome:
  assumes "heap_inv0 fs es G {#block_ext cls b#} h" and "b mod 16 = 0" "0 < b"
    and "0 < sz" "sz \<le> 65536" "size_to_class sz = Some cls" and "al dvd 16" and "AethAlloc_hit t sz b h = (p, h')"
  shows "alloc_outcome G h sz al p h'"
proof -
  from hit_inv [OF assms(1-6,8)] have i: "p = b + 16" "heap_inv0 fs es (add_mset (OSmall b sz) G) {#} h'" "keeps G h h'" by auto
  show ?thesis unfolding i(1) by (rule alloc_outcome_small [OF assms(7) i(2,3)])
qed

context kernel
begin

lemma alloc_cached_outcome:
  assumes inv: "heap_inv0 fs es G {#} h" and t: "t < length (caches h)" and cls: "cls < 13"
    and sz: "0 < sz" "sz \<le> 65536" "size_to_class sz = Some cls" and al: "al dvd 16"
    and r: "AethAlloc_alloc_cached K t sz (class_bytes cls) cls h = (p, h')"
  shows "alloc_outcome G h sz al p h'"
proof -
  note hit = hit_outcome [OF _ _ _ sz al]
  obtain r1 h1 where p1: "AethAlloc_pop_block t cls h = (r1, h1)" by (cases "AethAlloc_pop_block t cls h")
  note i1 = pop_block_inv [OF inv t cls p1]
  have k1: "keeps G h h1" using i1 by (simp add: keeps_same)
  show ?thesis
  proof (cases r1)
    case (Some b)
    have "AethAlloc_hit t sz b h1 = (p, h')" using r p1 Some by (simp add: AethAlloc_alloc_cached_def)
    with i1 Some show ?thesis by (intro alloc_outcome_prefix [OF k1] hit) auto
  next
    case N1: None
    define c2 where "c2 = (if \<not> Magazine_is_empty (free_mag t cls h1)
      then AethAlloc_pop_block t cls (AethAlloc_swap_mags t cls h1) else (None, h1))"
    obtain r2 h2 where c2: "c2 = (r2, h2)" by (cases c2)
    have v1: "heap_inv0 fs es G {#} h1" "t < length (caches h1)" using i1 N1 t by simp_all
    have i2: "keeps G h1 h2 \<and> t < length (caches h2) \<and> (case r2 of None \<Rightarrow> heap_inv0 fs es G {#} h2
        | Some b \<Rightarrow> heap_inv0 fs es G {#block_ext cls b#} h2 \<and> b mod 16 = 0 \<and> 0 < b)"
      using c2 v1 pop_block_inv [OF swap_mags_inv [OF v1 cls] _ cls, of t r2 h2]
      by (auto simp: c2_def keeps_same split: if_splits)
    show ?thesis
    proof (cases r2)
      case (Some b)
      have "AethAlloc_hit t sz b h2 = (p, h')"
        using r p1 N1 c2 Some by (simp add: AethAlloc_alloc_cached_def c2_def [symmetric])
      with i2 Some show ?thesis by (intro alloc_outcome_prefix [OF keeps_trans [OF k1]] hit) auto
    next
      case N2: None
      obtain ok hr where rf: "AethAlloc_refill t cls h2 = (ok, hr)" by (cases "AethAlloc_refill t cls h2")
      have v2: "heap_inv0 fs es G {#} h2" "t < length (caches h2)" "keeps G h h2" using i2 N2 keeps_trans [OF k1] by simp_all
      from refill_inv [OF v2(1,2) cls rf] obtain fs' es' where
        ir: "heap_inv0 fs' es' G {#} hr" "space hr = space h2" "length (caches hr) = length (caches h2)" by blast
      define c3 where "c3 = (case (ok, hr) of (True, h') \<Rightarrow> AethAlloc_pop_block t cls h' | (False, h') \<Rightarrow> (None, h'))"
      obtain r3 h3 where c3: "c3 = (r3, h3)" by (cases c3)
      have i3: "keeps G hr h3 \<and> t < length (caches h3) \<and> (case r3 of None \<Rightarrow> heap_inv0 fs' es' G {#} h3
          | Some b \<Rightarrow> heap_inv0 fs' es' G {#block_ext cls b#} h3 \<and> b mod 16 = 0 \<and> 0 < b)"
        using c3 ir v2(2) pop_block_inv [OF ir(1) _ cls, of t r3 h3]
        by (cases ok) (auto simp: c3_def keeps_same)
      have k3: "keeps G h h3" using keeps_trans [OF v2(3) keeps_trans [OF keeps_same [OF ir(2,3)]]] i3 by blast
      have r': "(p, h') = (case c3 of (Some block, h3) \<Rightarrow> AethAlloc_hit t sz block h3
          | (None, h3) \<Rightarrow> AethAlloc_miss K t sz (class_bytes cls) cls h3)"
        using r p1 N1 c2 N2 rf by (simp add: AethAlloc_alloc_cached_def c2_def [symmetric] c3_def)
      show ?thesis
      proof (cases r3)
        case (Some b)
        then have "AethAlloc_hit t sz b h3 = (p, h')" using r' c3 by simp
        with i3 Some show ?thesis by (intro alloc_outcome_prefix [OF k3] hit) auto
      next
        case None
        then have "AethAlloc_miss K t sz (class_bytes cls) cls h3 = (p, h')" using r' c3 by simp
        moreover have "heap_inv0 fs' es' G {#} h3" "t < length (caches h3)" using i3 None by simp_all
        ultimately show ?thesis using miss_outcome cls sz al by (intro alloc_outcome_prefix [OF k3]) blast
      qed
    qed
  qed
qed

lemma layout_cases:
  assumes "Layout_from_size_align sz al = Some lay"
  obtains k where "lay = \<lparr>lay_size = sz, lay_align = al\<rparr>" "al = 2 ^ k" "sz + al \<le> 2 ^ 63 \<or> 2 ^ 63 < al \<and> sz = 0"
proof -
  have l: "is_power_of_two al" "sz \<le> 2 ^ 63 - al" "lay = \<lparr>lay_size = sz, lay_align = al\<rparr>"
    using assms by (auto simp: Layout_from_size_align_def split: if_splits)
  then obtain k where k: "al = 2 ^ k" by (auto simp: is_power_of_two_iff)
  have "sz + al \<le> 2 ^ 63 \<or> 2 ^ 63 < al \<and> sz = 0" using l(2) by linarith
  then show ?thesis by (rule that [OF l(3) k])
qed

lemma alloc_outcome_ok:
  assumes inv: "heap_inv0 fs es G {#} h" and t: "t < length (caches h)"
    and lay: "Layout_from_size_align sz al = Some lay" and r: "AethAlloc_alloc K t lay h = (p, h')"
  shows "alloc_outcome G h sz al p h'"
proof -
  obtain k where l: "lay = \<lparr>lay_size = sz, lay_align = al\<rparr>" "al = 2 ^ k" "sz + al \<le> 2 ^ 63 \<or> 2 ^ 63 < al \<and> sz = 0"
    using layout_cases [OF lay] by blast
  show ?thesis
  proof (cases "sz = 0")
    case True
    with r l inv show ?thesis by (auto simp: AethAlloc_alloc_def alloc_outcome_null keeps_same)
  next
    case False
    then have lg: "AethAlloc_alloc_large K t sz al h = (p, h') \<Longrightarrow> ?thesis"
      using alloc_large_outcome [OF inv, of sz k t p h'] l by simp
    show ?thesis
    proof (cases "sz \<le> 65536 \<and> al \<le> 8")
      case True
      from size_class_spec [of sz] False True obtain c where
        c: "c \<le> 12" "size_to_class sz = Some c" "size_to_class (max (round_up_pow2 sz) 16) = Some c"
          "max (round_up_pow2 sz) 16 = class_bytes c" by blast
      have al: "al dvd 16" using small_align [of k] True l(2) by simp
      have "AethAlloc_alloc_cached K t sz (class_bytes c) c h = (p, h')"
        using r True False l c by (simp add: AethAlloc_alloc_def MAX_CACHE_SIZE_def Let_def)
      then show ?thesis using alloc_cached_outcome [OF inv t, of c sz al p h'] c False True al by simp
    next
      case large: False
      then have "AethAlloc_alloc_large K t sz al h = (p, h')"
        using r False l by (auto simp: AethAlloc_alloc_def MAX_CACHE_SIZE_def)
      then show ?thesis by (rule lg)
    qed
  qed
qed

end

subsection \<open>dealloc\<close>

lemma push_free_inv:
  assumes inv: "heap_inv0 fs es G (add_mset (block_ext cls b) H) h" and b: "b mod 16 = 0" "0 < b"
    and t: "t < length (caches h)" and cls: "cls < 13" and r: "AethAlloc_push_free t cls b h = (ok, h')"
  shows "space h' = space h \<and> length (caches h') = length (caches h) \<and>
    heap_inv0 fs es G (if ok then H else add_mset (block_ext cls b) H) h'"
proof -
  let ?m = "free_mag t cls h"
  have good: "mag_good ?m" using caches_nth(4) [OF inv0_parts(1) [OF inv] t] cls by simp
  then have mo: "mag_ok ?m" by (simp add: mag_good_def)
  show ?thesis
  proof (cases "mag_count ?m < 64")
    case True
    from Magazine_push_ok [OF mo True, of b] obtain m' where
      m': "Magazine_push b ?m = (True, m')" "mag_ok m'" "mag_list m' = mag_list ?m @ [b]" by blast
    have g': "mag_good m'" by (rule mag_good_append [OF good m'(2,3)]) (use b in auto)
    have "heap_inv0 fs es G H (set_free_mag t cls m' h)"
      by (rule inv0_set_free [OF inv t cls g']) (simp add: mag_ext_def m'(3))
    then show ?thesis using r m' by (auto simp: AethAlloc_push_free_def)
  next
    case False
    then have "Magazine_push b ?m = (False, ?m)" by (simp add: Magazine_push_full)
    then show ?thesis using r inv0_set_free [OF inv t cls good, of "add_mset (block_ext cls b) H"]
      by (auto simp: AethAlloc_push_free_def)
  qed
qed

lemma count_free_frame: "keeps G h (count_free t h)" "heap_inv0 fs es G H h \<Longrightarrow> heap_inv0 fs es G H (count_free t h)"
  by (simp_all add: keeps_same_heap same_heap_inv0 [OF same_heap_count_free])

lemma dealloc_large_eq:
  assumes "header_ok (mem (space h)) (OLarge base pages u n)"
  shows "AethAlloc_dealloc K t u h = AethAlloc_dealloc_pages K t base h"
proof -
  define v where "v = u - 16"
  have "u = v + 16" "0 < u" using assms by (auto simp: v_def)
  then show ?thesis
    using assms by (simp add: AethAlloc_dealloc_def read_LargeAllocHeader_def LARGE_HEADER_SIZE_def add.commute [of 8 v])
qed

lemma dealloc_small_eq:
  assumes "header_ok (mem (space h)) (OSmall b n)" and "size_to_class n = Some c"
  shows "AethAlloc_dealloc K t (b + 16) h = AethAlloc_dealloc_cached K t c b h"
proof -
  have n: "0 < n" "n \<le> 65536" "read_usize (mem (space h)) b = n" using assms(1) by (auto simp: MAX_CACHE_SIZE_def)
  have "size_to_class (max (round_up_pow2 n) 16) = Some c" using size_class_spec [OF n(1,2)] assms(2) by auto
  moreover have "read_u32 (mem (space h)) b = n" using n(2,3) by (simp add: read_u32_of_usize)
  ultimately show ?thesis
    using n by (simp add: AethAlloc_dealloc_def read_LargeAllocHeader_def read_PageHeader_def LARGE_HEADER_SIZE_def
      CACHE_HEADER_SIZE_def LARGE_MAGIC_def MAGIC_def MAX_CACHE_SIZE_def)
qed

context kernel
begin

lemma dealloc_cached_inv:
  assumes inv: "heap_inv0 fs es G {#block_ext cls b#} h" and b: "b mod 16 = 0" "0 < b"
    and t: "t < length (caches h)" and cls: "cls < 13"
  shows "keeps G h (AethAlloc_dealloc_cached K t cls b h) \<and>
    (\<exists>fs es. heap_inv0 fs es G {#} (AethAlloc_dealloc_cached K t cls b h))"
proof -
  obtain ok h1 where p1: "AethAlloc_push_free t cls b h = (ok, h1)" by (cases "AethAlloc_push_free t cls b h")
  note i1 = push_free_inv [OF inv b t cls p1]
  have k1: "keeps G h h1" using i1 by (simp add: keeps_same)
  show ?thesis
  proof (cases ok)
    case True
    then have "AethAlloc_dealloc_cached K t cls b h = count_free t h1" using p1 by (simp add: AethAlloc_dealloc_cached_def)
    moreover have "heap_inv0 fs es G {#} (count_free t h1)" by (rule count_free_frame(2)) (use i1 True in simp)
    ultimately show ?thesis using keeps_trans [OF k1 count_free_frame(1)] by metis
  next
    case False
    let ?h2 = "AethAlloc_retire K t cls h1"
    have i1': "heap_inv0 fs es G {#block_ext cls b#} h1" "t < length (caches h1)" using i1 False t by simp_all
    from retire_inv [OF i1' cls] obtain fs' es' where i2: "keeps G h1 ?h2" "heap_inv0 fs' es' G {#block_ext cls b#} ?h2" by blast
    then have t2: "t < length (caches ?h2)" using i1'(2) by (simp add: keeps_def)
    obtain ok3 h3 where p3: "AethAlloc_push_free t cls b ?h2 = (ok3, h3)" by (cases "AethAlloc_push_free t cls b ?h2")
    note i3 = push_free_inv [OF i2(2) b t2 cls p3]
    have "heap_inv0 fs' es' G {#} h3"
      using i3 inv0_drop [of fs' es' G "{#}" "{#block_ext cls b#}" h3] by (auto split: if_splits)
    moreover have "keeps G h h3" using keeps_trans [OF k1 keeps_trans [OF i2(1) keeps_same]] i3 by blast
    moreover have "AethAlloc_dealloc_cached K t cls b h = count_free t h3"
      using p1 p3 False by (simp add: AethAlloc_dealloc_cached_def)
    ultimately show ?thesis using keeps_trans [OF _ count_free_frame(1)] count_free_frame(2) by metis
  qed
qed

lemma unmap_inv:
  assumes inv: "heap_inv0 fs es G {#E#} h" and E: "{p..<p + k * 4096} \<subseteq> E"
    and k: "0 < k" "k < 2 ^ 51" "p mod 4096 = 0" "p + k * 4096 \<le> 2 ^ 63"
    and h': "h' = h\<lparr>space := PageAllocator_dealloc K p k (space h)\<rparr>"
  shows "keeps G h h' \<and> heap_inv0 fs es G {#} h'"
proof -
  note u = PageAllocator_dealloc_ok(1) [OF k, of "space h"] PageAllocator_dealloc_ok(2) [OF k, of _ "space h"]
  have ex: "exclusive (add_mset E (all_ext fs es G {#} h))" using inv0_parts(5) [OF inv] by (simp add: all_ext_def)
  have still: "F \<subseteq> mapped (space h')" "\<forall>a \<in> F. mem (space h') a = mem (space h) a" if "F \<in># all_ext fs es G {#} h" for F
  proof -
    have "F \<in># all_ext fs es G {#E#} h" using that by (simp add: all_ext_def)
    then have "F \<subseteq> mapped (space h)" using inv0_parts(6) [OF inv] by (simp add: placed_def)
    moreover have "E \<inter> F = {}" using ex that unfolding exclusive_add_iff by blast
    ultimately have "F \<subseteq> mapped (space h) - {p..<p + k * 4096}" using E by blast
    then show "F \<subseteq> mapped (space h')" "\<forall>a \<in> F. mem (space h') a = mem (space h) a" using u by (auto simp: h')
  qed
  have G: "ext_of g \<in># all_ext fs es G {#} h" if "g \<in># G" for g using that by (auto simp: all_ext_def)
  have fr: "all_ext fs es G {#} h' = all_ext fs es G {#} h"
    using caches_frame [of h' h] by (simp add: h' all_ext_def)
  have "keeps G h h'" using still(2) G by (auto simp: keeps_def h')
  moreover have "header_ok (mem (space h')) g" if "g \<in># G" for g
  proof (rule header_frame [OF inv0_parts(4) [OF inv that]])
    fix a assume "a \<in> hdr_of g"
    moreover obtain q n where "user_of g = (q, n)" by (cases "user_of g")
    ultimately have "a \<in> ext_of g" using owned_geometry(2) [OF inv0_parts(4) [OF inv that]] by blast
    then show "mem (space h') a = mem (space h) a" using still(2) [OF G [OF that]] by blast
  qed
  moreover have "placed (space h') F" if F: "F \<in># all_ext fs es G {#} h" for F
  proof -
    have "placed (space h) F" using inv0_parts(6) [OF inv] F by (simp add: all_ext_def)
    then show ?thesis using still(1) [OF F] by (simp add: placed_def)
  qed
  ultimately show ?thesis
    using inv0_parts(1-3) [OF inv] ex caches_frame [of h' h] unfolding heap_inv0_def fr exclusive_add_iff
    by (simp add: h' pools_ok_def)
qed

lemma dealloc_large_inv:
  assumes inv: "heap_inv0 fs es (add_mset (OLarge base pages u n) G) {#} h"
    and h': "h' = AethAlloc_dealloc_pages K t base h"
  shows "keeps G h h' \<and> heap_inv0 fs es G {#} h'"
proof -
  let ?k = "pages mod 2 ^ 32"
  have hd: "header_ok (mem (space h)) (OLarge base pages u n)" by (rule inv0_parts(4) [OF inv]) simp
  have i: "heap_inv0 fs es G {#{base..<base + pages * 4096}#} h" using inv0_disown [OF inv] by simp
  have "?k * 4096 \<le> pages * 4096" by (intro mult_le_mono1) (rule mod_less_eq_dividend)
  then have sub: "{base..<base + ?k * 4096} \<subseteq> {base..<base + pages * 4096}" "base + ?k * 4096 \<le> 2 ^ 63" using hd by auto
  have ph: "ph_magic (read_PageHeader (mem (space h)) base) = MAGIC" "ph_num_pages (read_PageHeader (mem (space h)) base) = ?k"
    using hd by (simp_all add: read_PageHeader_def)
  define h1 where "h1 = (if 0 < ?k then h\<lparr>space := PageAllocator_dealloc K base ?k (space h)\<rparr> else h)"
  have "keeps G h h1 \<and> heap_inv0 fs es G {#} h1"
  proof (cases "0 < ?k")
    case True
    have "?k < 2 ^ 32" by (rule mod_less_divisor) simp
    then have "?k < 2 ^ 51" by (rule less_trans) simp
    then show ?thesis using unmap_inv [OF i sub(1) True _ _ sub(2) refl] True hd by (simp add: h1_def)
  next
    case False
    then show ?thesis using inv0_drop [of fs es G "{#}" _ h] i by (simp add: h1_def keeps_same)
  qed
  moreover have "h' = count_free t h1" using ph by (simp add: h' AethAlloc_dealloc_pages_def h1_def)
  ultimately show ?thesis using keeps_trans [OF _ count_free_frame(1)] count_free_frame(2) by metis
qed

lemma dealloc_owned_inv:
  assumes inv: "heap_inv0 fs es (add_mset g G) {#} h" and t: "t < length (caches h)" and g: "user_of g = (p, n)"
  shows "keeps G h (AethAlloc_dealloc K t p h) \<and> (\<exists>fs es. heap_inv0 fs es G {#} (AethAlloc_dealloc K t p h))"
proof (cases g)
  case (OSmall b k)
  have hd: "header_ok (mem (space h)) (OSmall b k)" by (rule inv0_parts(4) [OF inv]) (simp add: OSmall)
  then have k: "0 < k" "k \<le> 65536" "b mod 16 = 0" "0 < b" by (auto simp: MAX_CACHE_SIZE_def)
  from size_class_spec [OF k(1,2)] obtain c where c: "c \<le> 12" "size_to_class k = Some c" by blast
  have "AethAlloc_dealloc K t p h = AethAlloc_dealloc_cached K t c b h"
    using dealloc_small_eq [OF hd c(2)] g OSmall by simp
  moreover have "heap_inv0 fs es G {#block_ext c b#} h" using inv0_disown [of fs es g G "{#}" h] inv OSmall c(2) by simp
  ultimately show ?thesis using dealloc_cached_inv [of fs es G c b h t] k t c(1) by simp
next
  case (OLarge base pages u k)
  have hd: "header_ok (mem (space h)) (OLarge base pages u k)" by (rule inv0_parts(4) [OF inv]) (simp add: OLarge)
  have "AethAlloc_dealloc K t p h = AethAlloc_dealloc_pages K t base h"
    using dealloc_large_eq [OF hd] g OLarge by simp
  then show ?thesis using dealloc_large_inv [of fs es base pages u k G h] inv OLarge by (auto simp del: header_ok.simps)
qed

end

end
