(* ===== verification/HeapContract.thy ===== *)
theory HeapContract
  imports HeapSound
begin

text \<open>
  The instance of the allocator contract for the global allocator, with threads as part of the
  requests: a request is a thread and a layout, a free names the thread that performs it.
\<close>

definition aeth_alloc :: "syscalls \<Rightarrow> nat \<times> Layout \<Rightarrow> heap \<Rightarrow> addr option \<times> heap" where
  "aeth_alloc K = (\<lambda>(t, lay) h. case AethAlloc_alloc K t lay h of (p, h') \<Rightarrow> (if p = 0 then None else Some p, h'))"

definition aeth_dealloc :: "syscalls \<Rightarrow> nat \<Rightarrow> addr \<times> usize \<Rightarrow> heap \<Rightarrow> heap" where
  "aeth_dealloc K t = (\<lambda>(p, _) h. AethAlloc_dealloc K t p h)"

definition valid_layout :: "Layout \<Rightarrow> bool" where
  "valid_layout lay \<longleftrightarrow> Layout_from_size_align (lay_size lay) (lay_align lay) = Some lay"

definition aeth_valid :: "nat \<Rightarrow> nat \<times> Layout \<Rightarrow> bool" where
  "aeth_valid threads = (\<lambda>(t, lay). t < threads \<and> valid_layout lay)"

definition aeth_poke :: "addr \<Rightarrow> byte \<Rightarrow> heap \<Rightarrow> heap" where
  "aeth_poke a v = write_mem (\<lambda>m. m(a := v))"

definition heap_inv_at :: "nat \<Rightarrow> live \<Rightarrow> heap \<Rightarrow> bool" where
  "heap_inv_at threads L h \<longleftrightarrow> heap_inv L h \<and> length (caches h) = threads"

lemma live_owned:
  assumes "L = image_mset user_of G" and "(p, n) \<in># L"
  obtains g where "g \<in># G" "user_of g = (p, n)"
  using assms by force

lemma keeps_live:
  assumes "heap_inv0 fs es (G + G') H h" and "keeps G h h'" and "g \<in># G" "user_of g = (p, n)" "p \<le> a" "a < p + n"
  shows "mem (space h') a = mem (space h) a"
proof -
  have "{p..<p + n} \<subseteq> ext_of g" by (rule owned_geometry(1) [OF inv0_parts(4) [OF assms(1)] assms(4)]) (use assms(3) in simp)
  with assms show ?thesis by (auto simp: keeps_def subset_iff)
qed

text \<open>Writing inside the user part of a block touches neither headers nor other blocks.\<close>

lemma inv0_user_write:
  assumes inv: "heap_inv0 fs es G H h" and g: "g \<in># G" "user_of g = (p, n)"
    and f: "\<And>a. \<not> (p \<le> a \<and> a < p + n) \<Longrightarrow> f (mem (space h)) a = mem (space h) a"
  shows "heap_inv0 fs es G H (write_mem f h)" and "keeps (G - {#g#}) h (write_mem f h)"
proof -
  note geo = owned_geometry [OF inv0_parts(4) [OF inv g(1)] g(2)]
  have other: "f (mem (space h)) a = mem (space h) a" if x: "x \<in># G - {#g#}" and a: "a \<in> ext_of x" for x a
  proof -
    obtain G' where G: "G = add_mset g (add_mset x G')" using g(1) x by (metis insert_DiffM)
    have "exclusive (add_mset (ext_of g) (all_ext fs es (add_mset x G') H h))"
      using inv0_parts(5) [OF inv] unfolding G all_ext_G .
    then have "ext_of g \<inter> ext_of x = {}" unfolding exclusive_add_iff all_ext_G by simp
    then have "a \<notin> {p..<p + n}" using geo(1) a by blast
    then show ?thesis by (intro f) simp
  qed
  then show "keeps (G - {#g#}) h (write_mem f h)" by (simp add: keeps_def write_mem_def)
  have "header_ok (f (mem (space h))) x" if x: "x \<in># G" for x
  proof (rule header_frame [OF inv0_parts(4) [OF inv x]])
    fix b assume b: "b \<in> hdr_of x"
    obtain q k where q: "user_of x = (q, k)" by (cases "user_of x")
    show "f (mem (space h)) b = mem (space h) b"
    proof (cases "x = g")
      case True
      then show ?thesis using geo(3) b by (intro f) auto
    next
      case False
      then have "x \<in># G - {#g#}" using x by (simp add: in_diff_count)
      moreover have "b \<in> ext_of x" using owned_geometry(2) [OF inv0_parts(4) [OF inv x] q] b by blast
      ultimately show ?thesis by (rule other)
    qed
  qed
  then show "heap_inv0 fs es G H (write_mem f h)"
    using inv caches_frame [of "write_mem f h" h]
    by (simp add: heap_inv0_def write_mem_def all_ext_def pools_ok_def placed_def)
qed

lemma inv0_poke:
  "heap_inv0 fs es G H h \<Longrightarrow> g \<in># G \<Longrightarrow> user_of g = (p, n) \<Longrightarrow> p \<le> a \<Longrightarrow> a < p + n \<Longrightarrow>
    heap_inv0 fs es G H (aeth_poke a v h)"
  unfolding aeth_poke_def by (rule inv0_user_write(1)) auto

lemma heap_inv_live:
  assumes "heap_inv L h"
  shows "exclusive (extents L)" and "(p, n) \<in># L \<Longrightarrow> 0 < p \<and> p mod 16 = 0 \<and> {p..<p + n} \<subseteq> mapped (space h)"
proof -
  from assms obtain fs es G where L: "L = image_mset user_of G" and inv: "heap_inv0 fs es G {#} h" by (auto simp: heap_inv_def)
  have sub: "(case user_of g of (p, n) \<Rightarrow> {p..<p + n}) \<subseteq> ext_of g" if "g \<in># G" for g
  proof -
    obtain q k where "user_of g = (q, k)" by (cases "user_of g")
    then show ?thesis using owned_geometry(1) [OF inv0_parts(4) [OF inv that]] by simp
  qed
  have "exclusive (image_mset ext_of G)"
    using inv0_parts(5) [OF inv] exclusive_unionD unfolding all_ext_def by blast
  moreover have "extents L = image_mset (\<lambda>g. case user_of g of (p, n) \<Rightarrow> {p..<p + n}) G"
    by (simp add: extents_def L image_mset.compositionality comp_def)
  ultimately show "exclusive (extents L)" using cover_image_mono [of G _ ext_of] sub by (metis (no_types, lifting) exclusive_mono)
  assume "(p, n) \<in># L"
  then obtain g where g: "g \<in># G" "user_of g = (p, n)" using live_owned [OF L] by blast
  have "placed (space h) (ext_of g)" by (rule inv0_parts(6) [OF inv]) (use g(1) in \<open>simp add: all_ext_def\<close>)
  then show "0 < p \<and> p mod 16 = 0 \<and> {p..<p + n} \<subseteq> mapped (space h)"
    using sub [OF g(1)] owned_geometry(4,6) [OF inv0_parts(4) [OF inv g(1)] g(2)] g(2) by (auto simp: placed_def)
qed

lemma length_heap_new [simp]: "length (caches (heap_new s threads)) = threads"
  by (simp add: heap_new_def)

lemma heap_inv_new: "heap_inv {#} (heap_new s threads)"
proof -
  let ?h = "heap_new s threads"
  have mags: "alloc_mag t c ?h = Magazine_new" "free_mag t c ?h = Magazine_new" if "t < threads" "c < 14" for t c
    using that by (simp_all add: alloc_mag_def free_mag_def get_thread_cache_def heap_new_def ThreadCache_new_def NUM_SIZE_CLASSES_def)
  have ext: "caches_ext ?h = {#}"
    unfolding caches_ext_def by (rule sum.neutral) (use mags in \<open>auto simp: mag_ext_def\<close>)
  have "caches_ok ?h" using mags by (auto simp: caches_ok_def mag_good_def heap_new_def ThreadCache_new_def NUM_SIZE_CLASSES_def)
  moreover have "pools_ok (\<lambda>_. []) (\<lambda>_. []) ?h"
    by (auto simp: pools_ok_def heap_new_def GlobalMagazinePools_new_def POOL_CLASSES_def full_rep_def empty_rep_def
      GlobalMagazinePool_new_def)
  moreover have "meta_ok (metadata ?h)" by (simp add: meta_ok_def heap_new_def MetadataAllocator_new_def PAGE_SIZE_def)
  moreover have "all_ext (\<lambda>_. []) (\<lambda>_. []) {#} {#} ?h = {#{}#}"
    unfolding all_ext_def ext
    by (simp add: pools_ext_def pool_ext_def meta_ext_def node_ext_def meta_fresh_def heap_new_def
      MetadataAllocator_new_def PAGE_SIZE_def)
  ultimately have "heap_inv0 (\<lambda>_. []) (\<lambda>_. []) {#} {#} ?h" by (simp add: heap_inv0_def exclusive_add_iff placed_def)
  then show ?thesis unfolding heap_inv_def by (intro exI [of _ "{#}"] exI conjI) simp_all
qed

lemma heap_inv_at_new: "heap_inv_at threads {#} (heap_new s threads)"
  by (simp add: heap_inv_at_def heap_inv_new)

subsection \<open>The contract\<close>

lemma alloc_outcome_live:
  assumes "alloc_outcome G h sz al p h'"
  shows "p = 0 \<Longrightarrow> heap_inv (image_mset user_of G) h'"
    and "p \<noteq> 0 \<Longrightarrow> heap_inv (add_mset (p, sz) (image_mset user_of G)) h' \<and> p mod al = 0"
proof -
  show "heap_inv (image_mset user_of G) h'" if p: "p = 0"
    using assms
  proof (cases rule: alloc_outcome_cases)
    case (null fs es)
    show ?thesis unfolding heap_inv_def by (rule exI [of _ fs], rule exI [of _ es], rule exI [of _ G]) (simp add: null(3))
  next
    case (block fs es g)
    have "16 < p" by (rule owned_geometry(6) [OF inv0_parts(4) [OF block(4)] block(2)]) simp
    with p show ?thesis by simp
  qed
  show "heap_inv (add_mset (p, sz) (image_mset user_of G)) h' \<and> p mod al = 0" if p: "p \<noteq> 0"
    using assms
  proof (cases rule: alloc_outcome_cases)
    case (null fs es)
    with p show ?thesis by simp
  next
    case (block fs es g)
    have "add_mset (p, sz) (image_mset user_of G) = image_mset user_of (add_mset g G)" by (simp add: block(2))
    with block(3,4) show ?thesis unfolding heap_inv_def by (intro conjI exI)
  qed
qed

context kernel
begin

lemma aeth_alloc_outcome:
  assumes inv: "heap_inv0 fs es G {#} h" and v: "aeth_valid (length (caches h)) (t, lay)"
    and r: "aeth_alloc K (t, lay) h = (res, h')"
  shows "\<exists>p. alloc_outcome G h (lay_size lay) (lay_align lay) p h' \<and> res = (if p = 0 then None else Some p)"
proof -
  obtain p h1 where a: "AethAlloc_alloc K t lay h = (p, h1)" by (cases "AethAlloc_alloc K t lay h")
  with r have "res = (if p = 0 then None else Some p)" "h1 = h'" by (simp_all add: aeth_alloc_def)
  moreover have "alloc_outcome G h (lay_size lay) (lay_align lay) p h1"
    by (rule alloc_outcome_ok [OF inv _ _ a]) (use v in \<open>auto simp: aeth_valid_def valid_layout_def\<close>)
  ultimately show ?thesis by blast
qed

lemma aeth_dealloc_owned:
  assumes inv: "heap_inv (add_mset (p, n) L) h" and t: "t < length (caches h)"
  obtains G g fs es fs' es' where "L = image_mset user_of G" "heap_inv0 fs es (add_mset g G) {#} h"
    "keeps G h (aeth_dealloc K t (p, n) h)" "heap_inv0 fs' es' G {#} (aeth_dealloc K t (p, n) h)"
proof -
  from inv obtain fs es G' where G': "add_mset (p, n) L = image_mset user_of G'" and i: "heap_inv0 fs es G' {#} h"
    by (auto simp: heap_inv_def)
  from msed_map_invR [OF G' [symmetric]] obtain G g where
    g: "G' = add_mset g G" "user_of g = (p, n)" "image_mset user_of G = L" by blast
  from dealloc_owned_inv [OF i [unfolded g(1)] t g(2)] obtain fs' es' where
    d: "keeps G h (AethAlloc_dealloc K t p h)" "heap_inv0 fs' es' G {#} (AethAlloc_dealloc K t p h)" by blast
  show thesis by (rule that [OF g(3) [symmetric] i [unfolded g(1)]]) (use d in \<open>simp_all add: aeth_dealloc_def\<close>)
qed

end

sublocale kernel \<subseteq> aeth: heap_allocator "heap_inv_at threads" "aeth_valid threads" "\<lambda>(t, lay). lay_size lay"
  "aeth_alloc K" "\<lambda>t. t < threads" "aeth_dealloc K" aeth_poke "\<lambda>h. mem (space h)" "\<lambda>h. mapped (space h)" for threads
proof (unfold_locales, goal_cases)
  case (1 L h r p h')
  obtain t lay where r: "r = (t, lay)" by (cases r)
  from 1 obtain fs es G where G: "L = image_mset user_of G" "heap_inv0 fs es G {#} h" by (auto simp: heap_inv_at_def heap_inv_def)
  from aeth_alloc_outcome [OF G(2), of t lay "Some p" h'] 1 r obtain q where
    q: "alloc_outcome G h (lay_size lay) (lay_align lay) q h'" "Some p = (if q = 0 then None else Some q)" by (auto simp: heap_inv_at_def)
  then show ?case using alloc_outcome_live(2) [OF q(1)] 1 r G(1)
    by (auto simp: heap_inv_at_def alloc_outcome_def keeps_def split: if_splits)
next
  case (2 L h r h')
  obtain t lay where r: "r = (t, lay)" by (cases r)
  from 2 obtain fs es G where G: "L = image_mset user_of G" "heap_inv0 fs es G {#} h" by (auto simp: heap_inv_at_def heap_inv_def)
  from aeth_alloc_outcome [OF G(2), of t lay None h'] 2 r obtain q where
    q: "alloc_outcome G h (lay_size lay) (lay_align lay) q h'" "None = (if q = 0 then None else Some q)" by (auto simp: heap_inv_at_def)
  then show ?case using alloc_outcome_live(1) [OF q(1)] 2 G(1)
    by (auto simp: heap_inv_at_def alloc_outcome_def keeps_def split: if_splits)
next
  case (3 L h r res h' p n a)
  obtain t lay where r: "r = (t, lay)" by (cases r)
  from 3 obtain fs es G where G: "L = image_mset user_of G" "heap_inv0 fs es G {#} h" by (auto simp: heap_inv_at_def heap_inv_def)
  from aeth_alloc_outcome [OF G(2), of t lay res h'] 3 r obtain q where
    q: "alloc_outcome G h (lay_size lay) (lay_align lay) q h'" by (auto simp: heap_inv_at_def)
  from live_owned [OF G(1) 3(4)] obtain g where "g \<in># G" "user_of g = (p, n)" .
  with q 3 show ?case using keeps_live [of fs es G "{#}" "{#}" h h' g p n a] G(2) by (auto simp: alloc_outcome_def)
next
  case (4 p n L h t)
  then have "heap_inv (add_mset (p, n) L) h" "t < length (caches h)" by (auto simp: heap_inv_at_def)
  then show ?case by (rule aeth_dealloc_owned) (use 4 in \<open>auto simp: heap_inv_at_def heap_inv_def keeps_def\<close>)
next
  case (5 p n L h t q k a)
  then have i: "heap_inv (add_mset (p, n) L) h" "t < length (caches h)" by (auto simp: heap_inv_at_def)
  show ?case
  proof (rule aeth_dealloc_owned [OF i])
    fix G g fs es fs' es'
    assume d: "L = image_mset user_of G" "heap_inv0 fs es (add_mset g G) {#} h" "keeps G h (aeth_dealloc K t (p, n) h)"
    from live_owned [OF d(1) 5(3)] obtain x where "x \<in># G" "user_of x = (q, k)" .
    with 5 d show ?thesis using keeps_live [of fs es G "{#g#}" "{#}" h "aeth_dealloc K t (p, n) h" x q k a] by simp
  qed
next
  case (6 L h p n a v)
  then obtain fs es G where G: "L = image_mset user_of G" "heap_inv0 fs es G {#} h" by (auto simp: heap_inv_at_def heap_inv_def)
  from live_owned [OF G(1) 6(2)] obtain g where "g \<in># G" "user_of g = (p, n)" .
  from inv0_poke [OF G(2) this 6(3,4), of v] G(1) 6(1) show ?case
    by (auto simp: heap_inv_at_def heap_inv_def aeth_poke_def write_mem_def)
next
  case (7 a v h b)
  then show ?case by (simp add: aeth_poke_def write_mem_def)
next
  case (8 L h)
  then show ?case using heap_inv_live(1) [of L h] by (simp add: heap_inv_at_def)
next
  case (9 L h p n)
  then show ?case using heap_inv_live(2) [of L h p n] by (simp add: heap_inv_at_def)
qed

end
