(* ===== verification/Layout_Contract.thy ===== *)
theory Layout_Contract
  imports HeapContract
begin

text \<open>
  The trait \<open>GlobalAlloc\<close> as the C interface uses it: \<open>alloc\<close> with a layout and \<open>dealloc\<close> on a thread, null for
  failure, and the memory that the program and the C functions read and write. The locale extends the contract of an
  allocator by what the C functions rely on beyond it: alignment, writes of whole regions, and the
  size that \<open>get_alloc_size\<close> finds in front of a block. Both builds of the global allocator satisfy it.
\<close>

record 'h global_alloc =
  ga_alloc :: "nat \<Rightarrow> Layout \<Rightarrow> 'h \<Rightarrow> addr \<times> 'h"
  ga_dealloc :: "nat \<Rightarrow> addr \<Rightarrow> 'h \<Rightarrow> 'h"
  ga_mem :: "'h \<Rightarrow> mem"
  ga_write :: "(mem \<Rightarrow> mem) \<Rightarrow> 'h \<Rightarrow> 'h"

definition opt_alloc :: "'h global_alloc \<Rightarrow> nat \<times> Layout \<Rightarrow> 'h \<Rightarrow> addr option \<times> 'h" where
  "opt_alloc A = (\<lambda>(t, lay) h. case ga_alloc A t lay h of (p, h') \<Rightarrow> (if p = 0 then None else Some p, h'))"

definition opt_dealloc :: "'h global_alloc \<Rightarrow> nat \<Rightarrow> addr \<times> usize \<Rightarrow> 'h \<Rightarrow> 'h" where
  "opt_dealloc A t = (\<lambda>(p, _) h. ga_dealloc A t p h)"

definition opt_poke :: "'h global_alloc \<Rightarrow> addr \<Rightarrow> byte \<Rightarrow> 'h \<Rightarrow> 'h" where
  "opt_poke A x v = ga_write A (\<lambda>m. m(x := v))"

text \<open>The bytes of the blocks in \<open>L\<close> are the same in two memories.\<close>

definition kept :: "live \<Rightarrow> mem \<Rightarrow> mem \<Rightarrow> bool" where
  "kept L m m' \<longleftrightarrow> (\<forall>(q, k) \<in># L. \<forall>x. q \<le> x \<and> x < q + k \<longrightarrow> m' x = m x)"

lemma kept_trans: "kept L m m' \<Longrightarrow> kept L m' m'' \<Longrightarrow> kept L m m''"
  unfolding kept_def by fastforce

lemma kept_refl [simp]: "kept L m m"
  by (simp add: kept_def)

lemma kept_addD:
  assumes "kept (add_mset b L) m m'"
  shows "kept {#b#} m m'" and "kept L m m'"
  using assms by (auto simp: kept_def)

lemma keptD: "kept L m m' \<Longrightarrow> (q, k) \<in># L \<Longrightarrow> q \<le> x \<Longrightarrow> x < q + k \<Longrightarrow> m' x = m x"
  by (auto simp: kept_def)

locale layout_allocator =
  heap_allocator holds "aeth_valid threads" "\<lambda>(t, lay). lay_size lay" "opt_alloc A" "\<lambda>t. t < threads" "opt_dealloc A" "opt_poke A"
    "ga_mem A" region
  for A :: "'h global_alloc" and holds :: "live \<Rightarrow> 'h \<Rightarrow> bool" and threads :: nat and region :: "'h \<Rightarrow> addr set" +
  assumes alloc_aligned: "holds L h \<Longrightarrow> t < threads \<Longrightarrow> valid_layout lay \<Longrightarrow> ga_alloc A t lay h = (p, h') \<Longrightarrow> p mod lay_align lay = 0"
    and alloc_zero: "lay_size lay = 0 \<Longrightarrow> ga_alloc A t lay h = (0, h)"
    and write_read: "ga_mem A (ga_write A f h) = f (ga_mem A h)"
    and write_holds: "holds L h \<Longrightarrow> (p, n) \<in># L \<Longrightarrow> (\<And>x. \<not> (p \<le> x \<and> x < p + n) \<Longrightarrow> f (ga_mem A h) x = ga_mem A h x) \<Longrightarrow>
      holds L (ga_write A f h)"
    and holds_block: "holds L h \<Longrightarrow> (p, n) \<in># L \<Longrightarrow> p mod 16 = 0 \<and> p < 2 ^ 63 \<and> get_alloc_size p (ga_mem A h) = n"
begin

lemma layout_alloc:
  assumes "holds L h" and "t < threads" and "Layout_from_size_align sz al = Some lay" and "ga_alloc A t lay h = (p, h')"
  shows "kept L (ga_mem A h) (ga_mem A h')" and "p = 0 \<Longrightarrow> holds L h'"
    and "p \<noteq> 0 \<Longrightarrow> holds (add_mset (p, sz) L) h' \<and> p mod al = 0 \<and> 0 < sz"
proof -
  have lay: "lay_size lay = sz" "lay_align lay = al" "valid_layout lay"
    using assms(3) by (auto simp: valid_layout_def Layout_from_size_align_def split: if_splits)
  then have v: "aeth_valid threads (t, lay)" using assms(2) by (simp add: aeth_valid_def)
  have r: "opt_alloc A (t, lay) h = (if p = 0 then None else Some p, h')" using assms(4) by (simp add: opt_alloc_def)
  show "kept L (ga_mem A h) (ga_mem A h')" using alloc_keeps [OF assms(1) v r] by (auto simp: kept_def)
  show "p = 0 \<Longrightarrow> holds L h'" using alloc_fail [OF assms(1) v, of h'] r by simp
  have "p \<noteq> 0 \<Longrightarrow> 0 < sz" using alloc_zero [of lay t h] assms(4) lay(1) by (cases "sz = 0") auto
  then show "p \<noteq> 0 \<Longrightarrow> holds (add_mset (p, sz) L) h' \<and> p mod al = 0 \<and> 0 < sz"
    using alloc_inv [OF assms(1) v, of p h'] alloc_aligned [OF assms(1,2) lay(3) assms(4)] r lay by simp
qed

lemma layout_dealloc:
  assumes "holds (add_mset (p, n) L) h" and "t < threads"
  shows "holds L (ga_dealloc A t p h)" and "kept L (ga_mem A h) (ga_mem A (ga_dealloc A t p h))"
  using dealloc_inv [OF assms] dealloc_keeps [OF assms] by (auto simp: opt_dealloc_def kept_def)

lemma holds_pos: "holds L h \<Longrightarrow> (p, n) \<in># L \<Longrightarrow> 0 < p"
  using inv_space by blast

lemma holds_disjoint:
  assumes "holds (add_mset (p, n) L) h" and "(q, k) \<in># L"
  shows "{p..<p + n} \<inter> {q..<q + k} = {}"
  using inv_exclusive [OF assms(1)] extents_memI [OF assms(2)] unfolding extents_simps exclusive_add_iff by blast

text \<open>Writing inside a block the program holds.\<close>

lemma write_kept:
  assumes h: "holds (add_mset (p, n) L) h" and f: "\<And>x. \<not> (p \<le> x \<and> x < p + n) \<Longrightarrow> f (ga_mem A h) x = ga_mem A h x"
  shows "holds (add_mset (p, n) L) (ga_write A f h)" and "kept L (ga_mem A h) (ga_mem A (ga_write A f h))"
proof -
  show "holds (add_mset (p, n) L) (ga_write A f h)" using write_holds [OF h, of p n f] f by simp
  have "f (ga_mem A h) x = ga_mem A h x" if "(q, k) \<in># L" "q \<le> x" "x < q + k" for q k x
  proof (rule f, rule notI)
    assume "p \<le> x \<and> x < p + n"
    with that(2,3) have "x \<in> {p..<p + n} \<inter> {q..<q + k}" by simp
    with holds_disjoint [OF h that(1)] show False by simp
  qed
  then show "kept L (ga_mem A h) (ga_mem A (ga_write A f h))" by (auto simp: kept_def write_read)
qed

end

end
