(* ===== verification/Links.thy ===== *)
theory Links
  imports Heap_Contract
begin

text \<open>
  Free blocks linked through their own first eight bytes, and arrays of such lists. The thread-local cache, the global slab
  pools and the simple cache all store the address of the next free block in the block itself; this theory has
  the effect of a push and of a pop on such a list, and the accounting of the blocks of an array of lists as one
  multiset.
\<close>

subsection \<open>Lists through the first word\<close>

abbreviation link_of :: "mem \<Rightarrow> addr \<Rightarrow> addr" where
  "link_of m b \<equiv> read_usize m b"

lemma link_chain_frame:
  assumes "chain (link_of m) h as" and "\<And>b x. b \<in> set as \<Longrightarrow> b \<le> x \<Longrightarrow> x < b + 8 \<Longrightarrow> m' x = m x"
  shows "chain (link_of m') h as"
  using assms(1) by (rule iffD1 [OF chain_cong, rotated]) (rule read_le_cong, simp add: assms(2))

lemma link_chain_push:
  assumes "chain (link_of m) h as" and "h < 2 ^ 64" and "0 < b"
    and "\<And>c. c \<in> set as \<Longrightarrow> b + 8 \<le> c \<or> c + 8 \<le> b"
  shows "chain (link_of (write_usize h b m)) b (b # as)"
proof -
  have "chain (link_of (write_usize h b m)) h as"
  proof (rule link_chain_frame [OF assms(1)])
    fix c x assume "c \<in> set as" "c \<le> x" "x < c + 8"
    with assms(4) [of c] show "write_usize h b m x = m x" by (intro write_le_other) auto
  qed
  then show ?thesis using assms(2,3) by simp
qed

lemma chain_head_in: "chain nx h as \<Longrightarrow> h = 0 \<or> h \<in> set as"
  by (cases as) auto

lemma chain_suffix: "chain nx h (as @ b # bs) \<Longrightarrow> chain nx b (b # bs)"
  by (induction as arbitrary: h) auto

text \<open>A list that ends has no repetition.\<close>

lemma chain_distinct: "chain nx h as \<Longrightarrow> distinct as"
proof (induction as arbitrary: h)
  case (Cons a as)
  have "a \<notin> set as"
  proof
    assume "a \<in> set as"
    then obtain bs cs where as: "as = bs @ a # cs" using split_list by metis
    have "chain nx a (a # cs)" using chain_suffix [of nx h "a # bs" a cs] Cons.prems as by simp
    moreover have "chain nx a (a # as)" using Cons.prems by auto
    ultimately have "cs = as" using chain_unique by blast
    then show False using as by simp
  qed
  with Cons show ?case by auto
qed simp

subsection \<open>Arrays of lists\<close>

text \<open>The items of the lists \<open>fs k\<close> for the indices \<open>k\<close> of \<open>I\<close>, each with its index.\<close>

definition listed :: "'k set \<Rightarrow> ('k \<Rightarrow> 'a list) \<Rightarrow> ('a \<times> 'k) multiset" where
  "listed I fs = (\<Sum>k\<in>I. image_mset (\<lambda>b. (b, k)) (mset (fs k)))"

lemma listed_mem: "finite I \<Longrightarrow> (b, k) \<in># listed I fs \<longleftrightarrow> k \<in> I \<and> b \<in> set (fs k)"
  by (auto simp: listed_def set_mset_sum)

lemma listed_split:
  assumes "finite I" and "k \<in> I"
  shows "listed I fs = image_mset (\<lambda>b. (b, k)) (mset (fs k)) + listed (I - {k}) fs"
  unfolding listed_def using assms by (simp add: sum.remove [of I k])

lemma listed_upd_other [simp]: "k \<notin> I \<Longrightarrow> listed I (fs(k := bs)) = listed I fs"
  unfolding listed_def by (rule sum.cong) auto

lemma listed_add:
  assumes "finite I" and "k \<in> I" and "mset bs = add_mset b (mset (fs k))"
  shows "listed I (fs(k := bs)) = add_mset (b, k) (listed I fs)"
  unfolding listed_split [OF assms(1,2)] using assms(3) by simp

lemma listed_remove:
  assumes "finite I" and "k \<in> I" and "mset (fs k) = add_mset b (mset bs)"
  shows "listed I fs = add_mset (b, k) (listed I (fs(k := bs)))"
  using listed_add [OF assms(1,2), of "fs k" b "fs(k := bs)"] assms(3) by simp

lemma listed_empty [simp]: "listed I (\<lambda>_. []) = {#}"
  by (simp add: listed_def)

lemma listed_clear:
  assumes "finite I" and "k \<in> I"
  shows "listed I fs = image_mset (\<lambda>b. (b, k)) (mset (fs k)) + listed I (fs(k := []))"
  unfolding listed_split [OF assms] by simp

end
