(* ===== verification/SimpleCache.thy ===== *)
theory SimpleCache
  imports HeapSound Links
begin

text \<open>
  The global allocator without the feature \<open>magazine-caching\<close> (\<open>aethalloc-abi/src/global.rs\<close>, the items under
  \<open>cfg(not(feature = "magazine-caching"))\<close>): every thread keeps one list of free blocks per size class, linked through the
  first word of the blocks, and moves half of a list that has grown to 4096 blocks to a global list. Headers, large blocks and
  metrics are those of \<open>GlobalAlloc\<close>. This theory has the operations; one step is a whole call of a thread, so a
  compare-and-swap loop of a global list succeeds at once.
\<close>

definition MAX_FREE_LIST_LENGTH :: usize where
  "MAX_FREE_LIST_LENGTH = 4096"

definition GLOBAL_FREE_BATCH :: usize where
  "GLOBAL_FREE_BATCH = 128"

subsection \<open>State\<close>

record SimpleCache =
  heads :: "addr list"
  counts :: "usize list"
  cache_metrics :: ThreadMetrics

definition SimpleCache_new :: SimpleCache where
  "SimpleCache_new = \<lparr>heads = replicate NUM_SIZE_CLASSES 0, counts = replicate NUM_SIZE_CLASSES 0, cache_metrics = ThreadMetrics_new\<rparr>"

record GlobalFreeList =
  list_head :: addr

definition GlobalFreeList_new :: GlobalFreeList where
  "GlobalFreeList_new = \<lparr>list_head = 0\<rparr>"

record sheap =
  s_space :: os
  GLOBAL_FREE_LISTS :: "GlobalFreeList list"
  s_metrics :: GlobalMetrics
  s_caches :: "SimpleCache list"

definition sheap_new :: "os \<Rightarrow> nat \<Rightarrow> sheap" where
  "sheap_new s threads = \<lparr>s_space = s, GLOBAL_FREE_LISTS = replicate NUM_SIZE_CLASSES GlobalFreeList_new,
     s_metrics = GlobalMetrics_new, s_caches = replicate threads SimpleCache_new\<rparr>"

definition s_mem :: "sheap \<Rightarrow> mem" where
  "s_mem h = mem (s_space h)"

definition s_write :: "(mem \<Rightarrow> mem) \<Rightarrow> sheap \<Rightarrow> sheap" where
  "s_write f h = h\<lparr>s_space := (s_space h)\<lparr>mem := f (mem (s_space h))\<rparr>\<rparr>"

text \<open>The cache of thread \<open>t\<close>: the head and the count of a class, read and assigned, and its metrics.\<close>

definition local_head :: "nat \<Rightarrow> usize \<Rightarrow> sheap \<Rightarrow> addr" where
  "local_head t cls h = heads (s_caches h ! t) ! cls"

definition local_count :: "nat \<Rightarrow> usize \<Rightarrow> sheap \<Rightarrow> usize" where
  "local_count t cls h = counts (s_caches h ! t) ! cls"

definition set_local :: "nat \<Rightarrow> usize \<Rightarrow> addr \<Rightarrow> usize \<Rightarrow> sheap \<Rightarrow> sheap" where
  "set_local t cls a n h = (let c = s_caches h ! t in
     h\<lparr>s_caches := (s_caches h)[t := c\<lparr>heads := (heads c)[cls := a], counts := (counts c)[cls := n]\<rparr>]\<rparr>)"

definition s_bump :: "nat \<Rightarrow> (ThreadMetrics \<Rightarrow> ThreadMetrics) \<Rightarrow> sheap \<Rightarrow> sheap" where
  "s_bump t f h = (let c = s_caches h ! t in h\<lparr>s_caches := (s_caches h)[t := c\<lparr>cache_metrics := f (cache_metrics c)\<rparr>]\<rparr>)"

definition s_flush :: "nat \<Rightarrow> sheap \<Rightarrow> sheap" where
  "s_flush t h = (let c = s_caches h ! t; (tm, gm) = maybe_flush (cache_metrics c, s_metrics h)
     in h\<lparr>s_caches := (s_caches h)[t := c\<lparr>cache_metrics := tm\<rparr>], s_metrics := gm\<rparr>)"

definition global_head :: "usize \<Rightarrow> sheap \<Rightarrow> addr" where
  "global_head cls h = list_head (GLOBAL_FREE_LISTS h ! cls)"

definition set_global :: "usize \<Rightarrow> addr \<Rightarrow> sheap \<Rightarrow> sheap" where
  "set_global cls a h = h\<lparr>GLOBAL_FREE_LISTS := (GLOBAL_FREE_LISTS h)[cls := \<lparr>list_head = a\<rparr>]\<rparr>"

subsection \<open>GlobalFreeList\<close>

definition push_batch :: "usize \<Rightarrow> addr \<Rightarrow> addr \<Rightarrow> sheap \<Rightarrow> sheap" where
  "push_batch cls batch_head batch_tail h =
     set_global cls batch_head (s_write (write_usize (global_head cls h) batch_tail) h)"

definition GlobalFreeList_pop :: "usize \<Rightarrow> sheap \<Rightarrow> addr option \<times> sheap" where
  "GlobalFreeList_pop cls h =
     (let current = global_head cls h in
      if current = 0 then (None, h)
      else (Some current, set_global cls (read_usize (s_mem h) current) h))"

text \<open>Linking a block into the list of the thread: \<open>write(block, heads[class]); heads[class] = block; counts[class] += 1\<close>.\<close>

definition push_local :: "nat \<Rightarrow> usize \<Rightarrow> addr \<Rightarrow> sheap \<Rightarrow> sheap" where
  "push_local t cls block h =
     set_local t cls block (wadd (local_count t cls h) 1) (s_write (write_usize (local_head t cls h) block) h)"

text \<open>\<open>pop_batch\<close> with the number of blocks still wanted; the result is the number transferred.\<close>

primrec pop_batch :: "nat \<Rightarrow> nat \<Rightarrow> usize \<Rightarrow> sheap \<Rightarrow> nat \<times> sheap" where
  "pop_batch 0 t cls h = (0, h)"
| "pop_batch (Suc n) t cls h =
     (case GlobalFreeList_pop cls h of
        (None, h1) \<Rightarrow> (0, h1)
      | (Some block, h1) \<Rightarrow> (case pop_batch n t cls (push_local t cls block h1) of (k, h2) \<Rightarrow> (k + 1, h2)))"

subsection \<open>alloc\<close>

text \<open>A block from the list of the thread.\<close>

definition take_local :: "nat \<Rightarrow> usize \<Rightarrow> usize \<Rightarrow> addr \<Rightarrow> sheap \<Rightarrow> addr \<times> sheap" where
  "take_local t sz cls block h =
     (let h1 = set_local t cls (read_usize (s_mem h) block) (wsub (local_count t cls h) 1) h;
          h2 = s_flush t (s_bump t (\<lambda>m. m\<lparr>t_cache_hits := wadd (t_cache_hits m) 1, t_allocs := wadd (t_allocs m) 1\<rparr>) h1)
      in (block + CACHE_HEADER_SIZE, s_write (write_usize sz block) h2))"

text \<open>The loop \<open>for i in 1..blocks_per_page\<close> over a fresh page.\<close>

fun carve_local :: "nat \<Rightarrow> usize \<Rightarrow> addr \<Rightarrow> usize \<Rightarrow> nat list \<Rightarrow> sheap \<Rightarrow> sheap" where
  "carve_local t cls base block_size [] h = h"
| "carve_local t cls base block_size (i # is) h =
     carve_local t cls base block_size is (push_local t cls (base + wmul i block_size) h)"

definition Simple_fresh_block :: "syscalls \<Rightarrow> nat \<Rightarrow> usize \<Rightarrow> usize \<Rightarrow> sheap \<Rightarrow> addr \<times> sheap" where
  "Simple_fresh_block K t sz block_size h =
     (let pages = max (div_ceil block_size PAGE_SIZE) 1 in
      case PageAllocator_alloc K pages (s_space h) of
        (Some base, s) \<Rightarrow> (base + CACHE_HEADER_SIZE, s_flush t (s_write (write_usize sz base) (h\<lparr>s_space := s\<rparr>)))
      | (None, s) \<Rightarrow> (0, h\<lparr>s_space := s\<rparr>))"

definition Simple_miss :: "syscalls \<Rightarrow> nat \<Rightarrow> usize \<Rightarrow> usize \<Rightarrow> usize \<Rightarrow> sheap \<Rightarrow> addr \<times> sheap" where
  "Simple_miss K t sz cache_size cls h0 =
     (let h = s_bump t (\<lambda>m. m\<lparr>t_cache_misses := wadd (t_cache_misses m) 1, t_allocs := wadd (t_allocs m) 1\<rparr>) h0;
          block_size = wadd cache_size CACHE_HEADER_SIZE;
          blocks_per_page = PAGE_SIZE div block_size
      in if blocks_per_page > 1
         then (case PageAllocator_alloc K 1 (s_space h) of
                 (Some base, s) \<Rightarrow>
                   let h1 = carve_local t cls base block_size [1..<blocks_per_page] (h\<lparr>s_space := s\<rparr>)
                   in (base + CACHE_HEADER_SIZE, s_flush t (s_write (write_usize sz base) h1))
               | (None, s) \<Rightarrow> Simple_fresh_block K t sz block_size (h\<lparr>s_space := s\<rparr>))
         else Simple_fresh_block K t sz block_size h)"

definition Simple_alloc_cached :: "syscalls \<Rightarrow> nat \<Rightarrow> usize \<Rightarrow> usize \<Rightarrow> usize \<Rightarrow> sheap \<Rightarrow> addr \<times> sheap" where
  "Simple_alloc_cached K t sz cache_size cls h =
     (let head = local_head t cls h in
      if head \<noteq> 0 then take_local t sz cls head h
      else if global_head cls h \<noteq> 0
      then (case pop_batch GLOBAL_FREE_BATCH t cls h of
              (transferred, h1) \<Rightarrow>
                if transferred > 0 then take_local t sz cls (local_head t cls h1) h1
                else Simple_miss K t sz cache_size cls h1)
      else Simple_miss K t sz cache_size cls h)"

definition Simple_alloc_large :: "syscalls \<Rightarrow> nat \<Rightarrow> usize \<Rightarrow> usize \<Rightarrow> sheap \<Rightarrow> addr \<times> sheap" where
  "Simple_alloc_large K t sz al h0 =
     (let h = s_flush t (s_bump t
                (\<lambda>m. m\<lparr>t_direct_allocs := wadd (t_direct_allocs m) 1, t_allocs := wadd (t_allocs m) 1\<rparr>) h0);
          min_size = wadd (wadd (wadd PAGE_HEADER_SIZE LARGE_HEADER_SIZE) sz) al;
          pages = max (div_ceil min_size PAGE_SIZE) 1
      in case PageAllocator_alloc K pages (s_space h) of
           (Some base, s) \<Rightarrow>
             let h1 = s_write (write_PageHeader \<lparr>ph_magic = MAGIC, ph_num_pages = pages mod 2 ^ 32,
                        ph_requested_size = sz\<rparr> base) (h\<lparr>s_space := s\<rparr>);
                 user_addr = AethAlloc_align_up (wadd (wadd base PAGE_HEADER_SIZE) LARGE_HEADER_SIZE) al
             in (user_addr, s_write (write_LargeAllocHeader \<lparr>lh_magic = LARGE_MAGIC, lh_base_ptr = base\<rparr>
                  (user_addr - LARGE_HEADER_SIZE)) h1)
         | (None, s) \<Rightarrow> (0, h\<lparr>s_space := s\<rparr>))"

definition Simple_alloc :: "syscalls \<Rightarrow> nat \<Rightarrow> Layout \<Rightarrow> sheap \<Rightarrow> addr \<times> sheap" where
  "Simple_alloc K t layout h =
     (let sz = lay_size layout; al = lay_align layout in
      if sz = 0 then (0, h)
      else if sz \<le> MAX_CACHE_SIZE \<and> al \<le> 8
      then let cache_size = max (round_up_pow2 sz) 16 in
           (case size_to_class cache_size of
              Some cls \<Rightarrow> Simple_alloc_cached K t sz cache_size cls h
            | None \<Rightarrow> Simple_alloc_large K t sz al h)
      else Simple_alloc_large K t sz al h)"

subsection \<open>dealloc\<close>

definition s_count_free :: "nat \<Rightarrow> sheap \<Rightarrow> sheap" where
  "s_count_free t h = s_flush t (s_bump t (\<lambda>m. m\<lparr>t_frees := wadd (t_frees m) 1\<rparr>) h)"

text \<open>The walk to the end of the batch: at most \<open>n\<close> links from \<open>batch_tail\<close>.\<close>

primrec walk :: "nat \<Rightarrow> addr \<Rightarrow> mem \<Rightarrow> addr" where
  "walk 0 batch_tail m = batch_tail"
| "walk (Suc n) batch_tail m = (if batch_tail = 0 then 0 else walk n (read_usize m batch_tail) m)"

definition flush_excess :: "nat \<Rightarrow> usize \<Rightarrow> sheap \<Rightarrow> sheap" where
  "flush_excess t cls h =
     (if local_count t cls h \<ge> MAX_FREE_LIST_LENGTH
      then let flush_count = local_count t cls h div 2;
               batch_head = local_head t cls h;
               batch_tail = walk (flush_count - 1) batch_head (s_mem h)
           in if batch_tail \<noteq> 0
              then let new_local_head = read_usize (s_mem h) batch_tail;
                       h1 = s_write (write_usize 0 batch_tail) h;
                       h2 = set_local t cls new_local_head (wsub (local_count t cls h1) flush_count) h1
                   in push_batch cls batch_head batch_tail h2
              else h
      else h)"

definition Simple_dealloc_cached :: "nat \<Rightarrow> usize \<Rightarrow> addr \<Rightarrow> sheap \<Rightarrow> sheap" where
  "Simple_dealloc_cached t cls block h = flush_excess t cls (s_count_free t (push_local t cls block h))"

definition Simple_dealloc_pages :: "syscalls \<Rightarrow> nat \<Rightarrow> addr \<Rightarrow> sheap \<Rightarrow> sheap" where
  "Simple_dealloc_pages K t base h =
     (let ph = read_PageHeader (s_mem h) base;
          h1 = (if ph_magic ph = MAGIC \<and> ph_num_pages ph > 0
                then h\<lparr>s_space := PageAllocator_dealloc K base (ph_num_pages ph) (s_space h)\<rparr> else h)
      in s_count_free t h1)"

definition Simple_dealloc :: "syscalls \<Rightarrow> nat \<Rightarrow> addr \<Rightarrow> sheap \<Rightarrow> sheap" where
  "Simple_dealloc K t p h =
     (if p = 0 then h
      else let lh = read_LargeAllocHeader (s_mem h) (p - LARGE_HEADER_SIZE) in
        if lh_magic lh = LARGE_MAGIC then Simple_dealloc_pages K t (lh_base_ptr lh) h
        else let size_ptr = p - CACHE_HEADER_SIZE;
                 maybe_size = read_usize (s_mem h) size_ptr
             in if maybe_size > 0 \<and> maybe_size \<le> MAX_CACHE_SIZE \<and>
                   ph_magic (read_PageHeader (s_mem h) size_ptr) \<noteq> MAGIC
                then (case size_to_class (max (round_up_pow2 maybe_size) 16) of
                        Some cls \<Rightarrow> Simple_dealloc_cached t cls size_ptr h
                      | None \<Rightarrow> Simple_dealloc_pages K t (page_header_from_ptr p) h)
                else Simple_dealloc_pages K t (page_header_from_ptr p) h)"

end
