(* ===== verification/Ledger.thy ===== *)
theory Ledger
  imports HeapSound Links
begin

text \<open>
  Accounting of the address space of a heap, independent of how its free blocks are organised: \<open>F\<close> are the extents of the free blocks,
  \<open>G\<close> what the program owns, \<open>H\<close> what is in the hands of the operation that runs. The ledger says that all of it is exclusive and mapped
  and that the headers of the program's blocks are intact.
\<close>

definition ledger_ext :: "addr set multiset \<Rightarrow> owned multiset \<Rightarrow> addr set multiset \<Rightarrow> addr set multiset" where
  "ledger_ext F G H = F + image_mset ext_of G + H"

definition ledger :: "addr set multiset \<Rightarrow> owned multiset \<Rightarrow> addr set multiset \<Rightarrow> os \<Rightarrow> bool" where
  "ledger F G H s \<longleftrightarrow> (\<forall>g \<in># G. header_ok (mem s) g) \<and> exclusive (ledger_ext F G H) \<and> (\<forall>E \<in># ledger_ext F G H. placed s E)"

lemma ledgerD:
  assumes "ledger F G H s"
  shows "g \<in># G \<Longrightarrow> header_ok (mem s) g" and "exclusive (ledger_ext F G H)" and "E \<in># ledger_ext F G H \<Longrightarrow> placed s E"
  using assms by (auto simp: ledger_def)

lemma ledger_ext_add [simp]:
  "ledger_ext F (add_mset g G) H = add_mset (ext_of g) (ledger_ext F G H)"
  "ledger_ext F G (add_mset E H) = add_mset E (ledger_ext F G H)"
  "ledger_ext (add_mset E F) G H = add_mset E (ledger_ext F G H)"
  by (simp_all add: ledger_ext_def)

text \<open>What is free and what is in hand may be exchanged, and what is in hand may be given up.\<close>

lemma ledger_move: "ledger F G H s \<Longrightarrow> F' + H' = F + H \<Longrightarrow> ledger F' G H' s"
proof -
  assume l: "ledger F G H s" and e: "F' + H' = F + H"
  have "ledger_ext F' G H' = image_mset ext_of G + (F' + H')" by (simp add: ledger_ext_def ac_simps)
  also have "\<dots> = ledger_ext F G H" unfolding e by (simp add: ledger_ext_def ac_simps)
  finally show ?thesis using l by (simp add: ledger_def)
qed

lemma ledger_drop:
  assumes "ledger F G (H + D) s" shows "ledger F G H s"
proof -
  have e: "ledger_ext F G (H + D) = ledger_ext F G H + D" by (simp add: ledger_ext_def)
  then show ?thesis using assms exclusive_unionD [of "ledger_ext F G H" D] by (auto simp: ledger_def)
qed

lemma ledger_own: "ledger F G (add_mset (ext_of g) H) s \<Longrightarrow> header_ok (mem s) g \<Longrightarrow> ledger F (add_mset g G) H s"
  by (auto simp: ledger_def)

lemma ledger_disown: "ledger F (add_mset g G) H s \<Longrightarrow> ledger F G (add_mset (ext_of g) H) s"
  by (auto simp: ledger_def)

lemma hdr_sub: "header_ok m g \<Longrightarrow> hdr_of g \<subseteq> ext_of g"
  using owned_geometry(2) [of m g "fst (user_of g)" "snd (user_of g)"] by simp

text \<open>An address space that agrees on the extents of the ledger.\<close>

lemma ledger_frame:
  assumes "ledger F G H s" and "\<And>E. E \<in># ledger_ext F G H \<Longrightarrow> E \<subseteq> mapped s'"
    and "\<And>g a. g \<in># G \<Longrightarrow> a \<in> hdr_of g \<Longrightarrow> mem s' a = mem s a"
  shows "ledger F G H s'"
  unfolding ledger_def
proof (intro conjI ballI)
  show "header_ok (mem s') g" if "g \<in># G" for g using header_frame [OF ledgerD(1) [OF assms(1) that]] assms(3) that by blast
  show "exclusive (ledger_ext F G H)" by (rule ledgerD(2) [OF assms(1)])
  show "placed s' E" if "E \<in># ledger_ext F G H" for E using ledgerD(3) [OF assms(1) that] assms(2) [OF that] by (simp add: placed_def)
qed

lemma ledger_disjoint:
  assumes "ledger F G (add_mset E H) s"
  shows "X \<in># ledger_ext F G H \<Longrightarrow> E \<inter> X = {}"
  using ledgerD(2) [OF assms] by (auto simp: exclusive_add_iff)

lemma ledger_write:
  assumes "ledger F G (add_mset E H) s" and "\<And>a. a \<notin> E \<Longrightarrow> m' a = mem s a"
  shows "ledger F G (add_mset E H) (s\<lparr>mem := m'\<rparr>)"
proof (rule ledger_frame [OF assms(1)])
  show "X \<subseteq> mapped (s\<lparr>mem := m'\<rparr>)" if "X \<in># ledger_ext F G (add_mset E H)" for X
    using ledgerD(3) [OF assms(1) that] by (simp add: placed_def)
  fix g a assume g: "g \<in># G" and a: "a \<in> hdr_of g"
  have "ext_of g \<in># ledger_ext F G H" using g by (simp add: ledger_ext_def)
  moreover have "hdr_of g \<subseteq> ext_of g" by (rule hdr_sub [OF ledgerD(1) [OF assms(1) g]])
  ultimately have "a \<notin> E" using ledger_disjoint [OF assms(1)] a by blast
  then show "mem (s\<lparr>mem := m'\<rparr>) a = mem s a" by (simp add: assms(2))
qed

lemma ledger_carve:
  assumes l: "ledger F G (add_mset E H) s" and M: "exclusive M" "\<And>X. X \<in># M \<Longrightarrow> X \<subseteq> E"
  shows "ledger F G (M + H) s"
proof -
  have e: "ledger_ext F G (M + H) = M + ledger_ext F G H" by (simp add: ledger_ext_def ac_simps)
  have "exclusive (M + ledger_ext F G H)"
  proof (rule exclusive_mono [OF ledgerD(2) [OF l]])
    fix a show "cover (M + ledger_ext F G H) a \<le> cover (ledger_ext F G (add_mset E H)) a" using cover_le_one [OF M, of a] by simp
  qed
  moreover have "placed s X" if "X \<in># M" for X
    using ledgerD(3) [OF l, of E] M(2) [OF that] by (auto simp: placed_def)
  ultimately show ?thesis using l unfolding ledger_def e by auto
qed

lemma ledger_grant:
  assumes l: "ledger F G H s" and g: "pages_granted k s p s'"
  shows "ledger F G (add_mset {p..<p + k * 4096} H) s'"
proof -
  let ?P = "{p..<p + k * 4096}"
  have m: "mapped s' = mapped s \<union> ?P" "?P \<inter> mapped s = {}" "0 < p" "p + k * 4096 \<le> 2 ^ 63" "\<forall>a \<in> mapped s. mem s' a = mem s a"
    using g by (auto simp: pages_granted_def)
  have sub: "E \<subseteq> mapped s" if "E \<in># ledger_ext F G H" for E using ledgerD(3) [OF l that] by (simp add: placed_def)
  have "ledger F G H s'"
  proof (rule ledger_frame [OF l])
    show "E \<subseteq> mapped s'" if "E \<in># ledger_ext F G H" for E using sub [OF that] m(1) by blast
    fix x a assume x: "x \<in># G" and a: "a \<in> hdr_of x"
    have "ext_of x \<in># ledger_ext F G H" using x by (simp add: ledger_ext_def)
    then have "a \<in> mapped s" using sub hdr_sub [OF ledgerD(1) [OF l x]] a by blast
    then show "mem s' a = mem s a" using m(5) by blast
  qed
  moreover have "placed s' ?P" using m by (auto simp: placed_def)
  moreover have "?P \<inter> E = {}" if "E \<in># ledger_ext F G H" for E using sub [OF that] m(2) by blast
  ultimately show ?thesis by (auto simp: ledger_def exclusive_add_iff)
qed

text \<open>Writing inside the user part of a block.\<close>

lemma ledger_user_write:
  assumes l: "ledger F G H s" and g: "g \<in># G" "user_of g = (p, n)" and m': "\<And>a. \<not> (p \<le> a \<and> a < p + n) \<Longrightarrow> m' a = mem s a"
  shows "ledger F G H (s\<lparr>mem := m'\<rparr>)" and "X \<in># F \<Longrightarrow> a \<in> X \<Longrightarrow> m' a = mem s a"
proof -
  obtain G' where G: "G = add_mset g G'" using multi_member_split [OF g(1)] by blast
  note geo = owned_geometry [OF ledgerD(1) [OF l g(1)] g(2)]
  have dis: "ext_of g \<inter> Y = {}" if "Y \<in># ledger_ext F G' H" for Y
    using ledgerD(2) [OF l] that by (auto simp: G exclusive_add_iff)
  have out: "m' a = mem s a" if "a \<notin> {p..<p + n}" for a using that by (intro m') simp
  show "m' a = mem s a" if "X \<in># F" "a \<in> X"
  proof -
    have "X \<in># ledger_ext F G' H" using that by (simp add: ledger_ext_def)
    then have "a \<notin> {p..<p + n}" using dis [of X] geo(1) that(2) by blast
    then show ?thesis by (rule out)
  qed
  show "ledger F G H (s\<lparr>mem := m'\<rparr>)"
  proof (rule ledger_frame [OF l])
    show "E \<subseteq> mapped (s\<lparr>mem := m'\<rparr>)" if "E \<in># ledger_ext F G H" for E
      using ledgerD(3) [OF l that] by (simp add: placed_def)
    fix x a assume x: "x \<in># G" and a: "a \<in> hdr_of x"
    have "a \<notin> {p..<p + n}"
    proof (cases "x = g")
      case True
      then show ?thesis using geo(3) a by blast
    next
      case False
      then have "ext_of x \<in># ledger_ext F G' H" using x G by (simp add: ledger_ext_def)
      then show ?thesis using dis geo(1) a hdr_sub [OF ledgerD(1) [OF l x]] by blast
    qed
    then show "mem (s\<lparr>mem := m'\<rparr>) a = mem s a" using out by simp
  qed
qed

text \<open>The blocks the program holds.\<close>

lemma ledger_live:
  assumes l: "ledger F G H s" and L: "L = image_mset user_of G"
  shows "exclusive (extents L)" and "(p, n) \<in># L \<Longrightarrow> 0 < p \<and> p mod 16 = 0 \<and> {p..<p + n} \<subseteq> mapped s"
proof -
  have sub: "(case user_of g of (p, n) \<Rightarrow> {p..<p + n}) \<subseteq> ext_of g" if "g \<in># G" for g
    using owned_geometry(1) [OF ledgerD(1) [OF l that], of "fst (user_of g)" "snd (user_of g)"] by (simp add: case_prod_beta)
  have "exclusive (image_mset ext_of G)"
    using ledgerD(2) [OF l] exclusive_unionD unfolding ledger_ext_def by blast
  then have "exclusive (image_mset (\<lambda>g. case user_of g of (p, n) \<Rightarrow> {p..<p + n}) G)" by (rule exclusive_image_mono) (rule sub)
  then show "exclusive (extents L)" by (simp add: extents_def L image_mset.compositionality comp_def)
  assume "(p, n) \<in># L"
  then obtain g where g: "g \<in># G" "user_of g = (p, n)" unfolding L by force
  have "placed s (ext_of g)" by (rule ledgerD(3) [OF l]) (use g(1) in \<open>simp add: ledger_ext_def\<close>)
  then show "0 < p \<and> p mod 16 = 0 \<and> {p..<p + n} \<subseteq> mapped s"
    using sub [OF g(1)] owned_geometry(4,6) [OF ledgerD(1) [OF l g(1)] g(2)] g(2) by (auto simp: placed_def)
qed

context kernel
begin

lemma ledger_unmap:
  assumes l: "ledger F G (add_mset E H) s" and E: "{p..<p + k * 4096} \<subseteq> E"
    and k: "0 < k" "k < 2 ^ 51" "p mod 4096 = 0" "p + k * 4096 \<le> 2 ^ 63"
  shows "ledger F G H (PageAllocator_dealloc K p k s)"
    and "X \<in># ledger_ext F G H \<Longrightarrow> a \<in> X \<Longrightarrow> mem (PageAllocator_dealloc K p k s) a = mem s a"
proof -
  note u = PageAllocator_dealloc_ok(1) [OF k, of s] PageAllocator_dealloc_ok(2) [OF k, of _ s]
  have still: "X \<subseteq> mapped s - {p..<p + k * 4096}" if "X \<in># ledger_ext F G H" for X
    using ledger_disjoint [OF l that] E ledgerD(3) [OF l, of X] that by (auto simp: placed_def)
  then show same: "mem (PageAllocator_dealloc K p k s) a = mem s a" if "X \<in># ledger_ext F G H" "a \<in> X" for X a
    using that u(2) by blast
  have l': "ledger F G H s" using ledger_drop [of F G H "{#E#}" s] l by simp
  show "ledger F G H (PageAllocator_dealloc K p k s)"
  proof (rule ledger_frame [OF l'])
    show "X \<subseteq> mapped (PageAllocator_dealloc K p k s)" if "X \<in># ledger_ext F G H" for X using still [OF that] u(1) by simp
    fix x a assume x: "x \<in># G" and a: "a \<in> hdr_of x"
    have "ext_of x \<in># ledger_ext F G H" using x by (simp add: ledger_ext_def)
    then show "mem (PageAllocator_dealloc K p k s) a = mem s a" using same hdr_sub [OF ledgerD(1) [OF l' x]] a by blast
  qed
qed

end

end
