(* ===== verification/SimpleInv.thy ===== *)
theory SimpleInv
  imports SimpleCache Ledger
begin

text \<open>
  The invariant of the simple cache: the lists of the threads and the global lists are chains through the first words of disjoint
  free blocks, the counts of the threads are the lengths of their lists, and the ledger accounts for everything. A list has
  a key: the thread (\<open>None\<close> for the global list) and the class.
\<close>

type_synonym key = "nat option \<times> usize"

definition keys :: "nat \<Rightarrow> key set" where
  "keys n = insert None (Some ` {..<n}) \<times> {..<13}"

lemma finite_keys [simp]: "finite (keys n)"
  by (simp add: keys_def)

lemma keys_iff [simp]: "(Some t, c) \<in> keys n \<longleftrightarrow> t < n \<and> c < 13" "(None, c) \<in> keys n \<longleftrightarrow> c < 13"
  by (auto simp: keys_def)

fun head_at :: "key \<Rightarrow> sheap \<Rightarrow> addr" where
  "head_at (Some t, c) h = local_head t c h"
| "head_at (None, c) h = global_head c h"

definition key_ext :: "addr \<times> key \<Rightarrow> addr set" where
  "key_ext = (\<lambda>(b, k). block_ext (snd k) b)"

definition free_ext :: "nat \<Rightarrow> (key \<Rightarrow> addr list) \<Rightarrow> addr set multiset" where
  "free_ext n fs = image_mset key_ext (listed (keys n) fs)"

abbreviation threads_of :: "sheap \<Rightarrow> nat" where
  "threads_of h \<equiv> length (s_caches h)"

definition s_shape :: "sheap \<Rightarrow> bool" where
  "s_shape h \<longleftrightarrow> length (GLOBAL_FREE_LISTS h) = 14 \<and>
     (\<forall>t < threads_of h. length (heads (s_caches h ! t)) = 14 \<and> length (counts (s_caches h ! t)) = 14)"

definition s_lists :: "(key \<Rightarrow> addr list) \<Rightarrow> sheap \<Rightarrow> bool" where
  "s_lists fs h \<longleftrightarrow>
     (\<forall>k \<in> keys (threads_of h). chain (link_of (s_mem h)) (head_at k h) (fs k) \<and> (\<forall>b \<in> set (fs k). b mod 16 = 0)) \<and>
     (\<forall>t < threads_of h. \<forall>c < 13. local_count t c h = length (fs (Some t, c)))"

definition s_inv0 :: "(key \<Rightarrow> addr list) \<Rightarrow> owned multiset \<Rightarrow> addr set multiset \<Rightarrow> sheap \<Rightarrow> bool" where
  "s_inv0 fs G H h \<longleftrightarrow> s_shape h \<and> s_lists fs h \<and> ledger (free_ext (threads_of h) fs) G H (s_space h)"

lemma s_inv0D:
  assumes "s_inv0 fs G H h"
  shows "s_shape h" and "s_lists fs h" and "ledger (free_ext (threads_of h) fs) G H (s_space h)"
  using assms by (simp_all add: s_inv0_def)

lemma s_listsD:
  assumes "s_lists fs h"
  shows "k \<in> keys (threads_of h) \<Longrightarrow> chain (link_of (s_mem h)) (head_at k h) (fs k)"
    and "k \<in> keys (threads_of h) \<Longrightarrow> b \<in> set (fs k) \<Longrightarrow> b mod 16 = 0"
    and "t < threads_of h \<Longrightarrow> c < 13 \<Longrightarrow> local_count t c h = length (fs (Some t, c))"
  using assms by (auto simp: s_lists_def)

lemma free_ext_mem: "k \<in> keys n \<Longrightarrow> b \<in> set (fs k) \<Longrightarrow> block_ext (snd k) b \<in># free_ext n fs"
  unfolding free_ext_def using listed_mem [of "keys n" b k fs] by (force simp: key_ext_def)

lemma free_ext_upd:
  assumes "k \<in> keys n"
  shows "free_ext n (fs(k := bs)) + image_mset (block_ext (snd k)) (mset (fs k)) =
    free_ext n fs + image_mset (block_ext (snd k)) (mset bs)"
proof -
  have e: "free_ext n gs = image_mset (block_ext (snd k)) (mset (gs k)) + image_mset key_ext (listed (keys n - {k}) gs)" for gs
    unfolding free_ext_def listed_split [OF finite_keys assms, of gs]
    by (simp add: image_mset.compositionality comp_def key_ext_def)
  show ?thesis unfolding e [of "fs(k := bs)"] e [of fs] by (simp add: ac_simps)
qed

lemma word_in_block: "b \<le> x \<Longrightarrow> x < b + 8 \<Longrightarrow> x \<in> block_ext c b"
  by (auto simp: block_ext_def)

lemma block_in: "b \<in> block_ext c b"
  by (simp add: block_ext_def)

subsection \<open>Memory\<close>

definition s_keeps :: "owned multiset \<Rightarrow> sheap \<Rightarrow> sheap \<Rightarrow> bool" where
  "s_keeps G h h' \<longleftrightarrow> threads_of h' = threads_of h \<and> (\<forall>g \<in># G. \<forall>a \<in> ext_of g. s_mem h' a = s_mem h a)"

lemma s_keeps_trans: "s_keeps G h h' \<Longrightarrow> s_keeps G h' h'' \<Longrightarrow> s_keeps G h h''"
  by (simp add: s_keeps_def)

lemma s_keeps_same: "s_space h' = s_space h \<Longrightarrow> threads_of h' = threads_of h \<Longrightarrow> s_keeps G h h'"
  by (simp add: s_keeps_def s_mem_def)

lemma s_write_simps [simp]:
  "s_mem (s_write f h) = f (s_mem h)" "s_space (s_write f h) = (s_space h)\<lparr>mem := f (s_mem h)\<rparr>"
  "s_caches (s_write f h) = s_caches h" "GLOBAL_FREE_LISTS (s_write f h) = GLOBAL_FREE_LISTS h"
  "local_head t c (s_write f h) = local_head t c h" "local_count t c (s_write f h) = local_count t c h"
  "global_head c (s_write f h) = global_head c h"
  by (simp_all add: s_write_def s_mem_def local_head_def local_count_def global_head_def)

lemma head_at_write [simp]: "head_at k (s_write f h) = head_at k h"
  by (cases "(k, h)" rule: head_at.cases) simp_all

text \<open>The lists only depend on the extents of the free blocks.\<close>

lemma s_lists_frame:
  assumes "s_lists fs h" and "threads_of h' = threads_of h" and "\<And>k. k \<in> keys (threads_of h) \<Longrightarrow> head_at k h' = head_at k h"
    and "\<And>t c. t < threads_of h \<Longrightarrow> c < 13 \<Longrightarrow> local_count t c h' = local_count t c h"
    and "\<And>E a. E \<in># free_ext (threads_of h) fs \<Longrightarrow> a \<in> E \<Longrightarrow> s_mem h' a = s_mem h a"
  shows "s_lists fs h'"
proof -
  have "chain (link_of (s_mem h')) (head_at k h') (fs k)" if k: "k \<in> keys (threads_of h)" for k
    unfolding assms(3) [OF k]
  proof (rule link_chain_frame [OF s_listsD(1) [OF assms(1) k]])
    fix b x assume "b \<in> set (fs k)" "b \<le> x" "x < b + 8"
    then show "s_mem h' x = s_mem h x" using assms(5) [OF free_ext_mem [OF k]] word_in_block by blast
  qed
  then show ?thesis using assms(1,2,4) by (auto simp: s_lists_def)
qed

lemma s_inv0_write:
  assumes inv: "s_inv0 fs G (add_mset E H) h" and f: "\<And>a. a \<notin> E \<Longrightarrow> f (s_mem h) a = s_mem h a"
  shows "s_inv0 fs G (add_mset E H) (s_write f h)" and "s_keeps G h (s_write f h)"
proof -
  note l = s_inv0D(3) [OF inv]
  have out: "f (s_mem h) a = s_mem h a" if "X \<in># ledger_ext (free_ext (threads_of h) fs) G H" "a \<in> X" for X a
    using ledger_disjoint [OF l that(1)] that(2) by (intro f) blast
  have "s_lists fs (s_write f h)"
    by (rule s_lists_frame [OF s_inv0D(2) [OF inv]]) (use out in \<open>auto simp: ledger_ext_def\<close>)
  moreover have "ledger (free_ext (threads_of h) fs) G (add_mset E H) ((s_space h)\<lparr>mem := f (s_mem h)\<rparr>)"
    by (rule ledger_write [OF l]) (use f in \<open>simp add: s_mem_def\<close>)
  ultimately show "s_inv0 fs G (add_mset E H) (s_write f h)"
    using s_inv0D(1) [OF inv] by (simp add: s_inv0_def s_shape_def)
  have "f (s_mem h) a = s_mem h a" if "g \<in># G" "a \<in> ext_of g" for g a
    by (rule out [of "ext_of g"]) (use that in \<open>simp_all add: ledger_ext_def\<close>)
  then show "s_keeps G h (s_write f h)" by (simp add: s_keeps_def)
qed

subsection \<open>Assignments to the lists\<close>

text \<open>A heap that differs in the list \<open>k\<close> only.\<close>

lemma s_inv0_relink:
  assumes inv: "s_inv0 fs G H h" and k: "k \<in> keys (threads_of h)"
    and same: "s_space h' = s_space h" "threads_of h' = threads_of h" "s_shape h'"
    and hd: "\<And>j. j \<in> keys (threads_of h) \<Longrightarrow> head_at j h' = (if j = k then a else head_at j h)"
    and cnt: "\<And>t c. t < threads_of h \<Longrightarrow> c < 13 \<Longrightarrow>
      local_count t c h' = (if k = (Some t, c) then length bs else local_count t c h)"
    and bs: "chain (link_of (s_mem h)) a bs" "\<And>b. b \<in> set bs \<Longrightarrow> b mod 16 = 0"
    and ext: "image_mset (block_ext (snd k)) (mset bs) + H' = image_mset (block_ext (snd k)) (mset (fs k)) + H"
  shows "s_inv0 (fs(k := bs)) G H' h'"
proof -
  have m: "s_mem h' = s_mem h" using same(1) by (simp add: s_mem_def)
  have "s_lists (fs(k := bs)) h'"
    unfolding s_lists_def same(2) m
    using s_listsD [OF s_inv0D(2) [OF inv]] hd cnt bs by auto
  moreover have "ledger (free_ext (threads_of h) (fs(k := bs))) G H' (s_space h)"
  proof (rule ledger_move [OF s_inv0D(3) [OF inv]])
    show "free_ext (threads_of h) (fs(k := bs)) + H' = free_ext (threads_of h) fs + H"
      by (rule exchange [OF free_ext_upd [OF k, of fs bs] ext])
  qed
  ultimately show ?thesis using same by (simp add: s_inv0_def)
qed

lemma set_local_simps [simp]:
  "s_space (set_local t c a n h) = s_space h" "threads_of (set_local t c a n h) = threads_of h"
  "s_mem (set_local t c a n h) = s_mem h" "global_head d (set_local t c a n h) = global_head d h"
  "GLOBAL_FREE_LISTS (set_local t c a n h) = GLOBAL_FREE_LISTS h"
  by (simp_all add: set_local_def s_mem_def global_head_def Let_def)

lemma set_global_simps [simp]:
  "s_space (set_global c a h) = s_space h" "s_caches (set_global c a h) = s_caches h" "s_mem (set_global c a h) = s_mem h"
  "local_head t d (set_global c a h) = local_head t d h" "local_count t d (set_global c a h) = local_count t d h"
  by (simp_all add: set_global_def s_mem_def local_head_def local_count_def)

lemma set_local_get:
  assumes "s_shape h" and "t < threads_of h" and "c < 13" and "u < threads_of h" and "d < 13"
  shows "local_head u d (set_local t c a n h) = (if u = t \<and> d = c then a else local_head u d h)"
    and "local_count u d (set_local t c a n h) = (if u = t \<and> d = c then n else local_count u d h)"
  using assms by (auto simp: set_local_def local_head_def local_count_def s_shape_def nth_list_update Let_def)

lemma set_local_shape: "s_shape h \<Longrightarrow> s_shape (set_local t c a n h)"
  by (cases "t < threads_of h") (auto simp: set_local_def s_shape_def nth_list_update Let_def)

lemma s_inv0_set_local:
  assumes inv: "s_inv0 fs G H h" and t: "t < threads_of h" "c < 13"
    and bs: "chain (link_of (s_mem h)) a bs" "\<And>b. b \<in> set bs \<Longrightarrow> b mod 16 = 0"
    and ext: "image_mset (block_ext c) (mset bs) + H' = image_mset (block_ext c) (mset (fs (Some t, c))) + H"
    and n: "n = length bs"
  shows "s_inv0 (fs((Some t, c) := bs)) G H' (set_local t c a n h)"
proof (rule s_inv0_relink [OF inv])
  note sh = s_inv0D(1) [OF inv]
  show "s_shape (set_local t c a n h)" by (rule set_local_shape [OF sh])
  show "head_at j (set_local t c a n h) = (if j = (Some t, c) then a else head_at j h)" if "j \<in> keys (threads_of h)" for j
    using that set_local_get(1) [OF sh t] by (cases "(j, h)" rule: head_at.cases) auto
  show "local_count u d (set_local t c a n h) = (if (Some t, c) = (Some u, d) then length bs else local_count u d h)"
    if "u < threads_of h" "d < 13" for u d
    using that set_local_get(2) [OF sh t] n by auto
qed (use t bs ext in simp_all)

lemma s_inv0_set_global:
  assumes inv: "s_inv0 fs G H h" and c: "c < 13"
    and bs: "chain (link_of (s_mem h)) a bs" "\<And>b. b \<in> set bs \<Longrightarrow> b mod 16 = 0"
    and ext: "image_mset (block_ext c) (mset bs) + H' = image_mset (block_ext c) (mset (fs (None, c))) + H"
  shows "s_inv0 (fs((None, c) := bs)) G H' (set_global c a h)"
proof (rule s_inv0_relink [OF inv])
  have sh: "length (GLOBAL_FREE_LISTS h) = 14" using s_inv0D(1) [OF inv] by (simp add: s_shape_def)
  show "s_shape (set_global c a h)" using s_inv0D(1) [OF inv] by (simp add: s_shape_def set_global_def)
  show "head_at j (set_global c a h) = (if j = (None, c) then a else head_at j h)" if "j \<in> keys (threads_of h)" for j
    using that sh c by (cases "(j, h)" rule: head_at.cases) (auto simp: global_head_def set_global_def local_head_def nth_list_update)
qed (use c bs ext in simp_all)

subsection \<open>Metrics\<close>

definition s_same :: "sheap \<Rightarrow> sheap \<Rightarrow> bool" where
  "s_same h h' \<longleftrightarrow> s_space h' = s_space h \<and> GLOBAL_FREE_LISTS h' = GLOBAL_FREE_LISTS h \<and>
     map heads (s_caches h') = map heads (s_caches h) \<and> map counts (s_caches h') = map counts (s_caches h)"

lemma s_same_trans: "s_same h h' \<Longrightarrow> s_same h' h'' \<Longrightarrow> s_same h h''"
  by (simp add: s_same_def)

lemma s_same_get:
  assumes "s_same h h'"
  shows "threads_of h' = threads_of h" and "s_mem h' = s_mem h" and "s_space h' = s_space h"
    and "t < threads_of h \<Longrightarrow> heads (s_caches h' ! t) = heads (s_caches h ! t)"
    and "t < threads_of h \<Longrightarrow> counts (s_caches h' ! t) = counts (s_caches h ! t)"
    and "global_head c h' = global_head c h"
proof -
  show l: "threads_of h' = threads_of h" using assms unfolding s_same_def by (metis length_map)
  show "s_mem h' = s_mem h" "s_space h' = s_space h" "global_head c h' = global_head c h"
    using assms by (simp_all add: s_same_def s_mem_def global_head_def)
  show "heads (s_caches h' ! t) = heads (s_caches h ! t)" "counts (s_caches h' ! t) = counts (s_caches h ! t)"
    if "t < threads_of h"
    using assms l that unfolding s_same_def by (metis nth_map)+
qed

lemma s_same_local:
  assumes "s_same h h'" and "t < threads_of h"
  shows "local_head t c h' = local_head t c h" and "local_count t c h' = local_count t c h"
  using s_same_get(4,5) [OF assms] by (simp_all add: local_head_def local_count_def)

lemma s_same_inv0:
  assumes "s_same h h'" and "s_inv0 fs G H h"
  shows "s_inv0 fs G H h'"
proof -
  note g = s_same_get [OF assms(1)]
  have "s_shape h'" using s_inv0D(1) [OF assms(2)] g assms(1) by (simp add: s_shape_def s_same_def)
  moreover have "s_lists fs h'"
  proof (rule s_lists_frame [OF s_inv0D(2) [OF assms(2)]])
    show "head_at k h' = head_at k h" if "k \<in> keys (threads_of h)" for k
      using that s_same_local(1) [OF assms(1)] g(6) by (cases "(k, h)" rule: head_at.cases) auto
  qed (use g s_same_local(2) [OF assms(1)] in auto)
  ultimately show ?thesis using s_inv0D(3) [OF assms(2)] g by (simp add: s_inv0_def)
qed

lemma s_same_keeps: "s_same h h' \<Longrightarrow> s_keeps G h h'"
  using s_same_get(1,3) by (intro s_keeps_same) auto

lemma s_same_upd:
  assumes "heads c = heads (s_caches h ! t)" and "counts c = counts (s_caches h ! t)"
  shows "s_same h (h\<lparr>s_caches := (s_caches h)[t := c], s_metrics := g\<rparr>)"
    and "s_same h (h\<lparr>s_caches := (s_caches h)[t := c]\<rparr>)"
  using assms by (cases "t < threads_of h"; auto simp: s_same_def nth_list_update intro!: nth_equalityI)+

lemma s_same_bump: "s_same h (s_bump t f h)"
  unfolding s_bump_def Let_def by (rule s_same_upd(2)) simp_all

lemma s_same_flush: "s_same h (s_flush t h)"
proof -
  obtain tm gm where "maybe_flush (cache_metrics (s_caches h ! t), s_metrics h) = (tm, gm)" by fastforce
  then show ?thesis unfolding s_flush_def Let_def by (simp add: s_same_upd)
qed

lemma s_same_bump_flush: "s_same h (s_flush t (s_bump t f h))"
  by (rule s_same_trans [OF s_same_bump s_same_flush])

subsection \<open>Taking and returning a block\<close>

lemma s_own:
  assumes inv: "s_inv0 fs G (add_mset (block_ext c b) H) h" and b: "b mod 16 = 0" "0 < b"
    and sz: "0 < sz" "sz \<le> 65536" "size_to_class sz = Some c"
  shows "s_inv0 fs (add_mset (OSmall b sz) G) H (s_write (write_usize sz b) h)"
    and "s_keeps G h (s_write (write_usize sz b) h)"
proof -
  have out: "write_usize sz b (s_mem h) a = s_mem h a" if "a \<notin> block_ext c b" for a
    using that word_in_block [of b a c] by (intro write_le_other) linarith
  note w = s_inv0_write [OF inv, of "write_usize sz b", OF out]
  show "s_keeps G h (s_write (write_usize sz b) h)" by (rule w(2))
  have "header_ok (mem (s_space (s_write (write_usize sz b) h))) (OSmall b sz)"
    using b sz by (simp add: MAX_CACHE_SIZE_def)
  then show "s_inv0 fs (add_mset (OSmall b sz) G) H (s_write (write_usize sz b) h)"
    using w(1) sz(3) ledger_own [of "free_ext (threads_of h) fs" G "OSmall b sz" H] by (simp add: s_inv0_def)
qed

lemma s_pop_local:
  assumes inv: "s_inv0 fs G H h" and t: "t < threads_of h" "c < 13" and b: "local_head t c h = b" "b \<noteq> 0"
    and len: "length (fs (Some t, c)) \<le> 4096"
  obtains bs where "fs (Some t, c) = b # bs" and "b mod 16 = 0"
    and "s_inv0 (fs((Some t, c) := bs)) G (add_mset (block_ext c b) H)
      (set_local t c (link_of (s_mem h) b) (wsub (local_count t c h) 1) h)"
proof -
  note l = s_listsD [OF s_inv0D(2) [OF inv]]
  have "chain (link_of (s_mem h)) b (fs (Some t, c))" using l(1) [of "(Some t, c)"] t b(1) by simp
  from chain_nonnull [OF _ this] b(2) obtain bs where
    bs: "fs (Some t, c) = b # bs" "chain (link_of (s_mem h)) (link_of (s_mem h) b) bs" by auto
  have g: "x mod 16 = 0" if "x \<in> set (fs (Some t, c))" for x using l(2) [of "(Some t, c)" x] t that by simp
  have "wsub (local_count t c h) 1 = length bs" using l(3) [OF t] bs(1) len by (simp add: wsub_in_range)
  then have "s_inv0 (fs((Some t, c) := bs)) G (add_mset (block_ext c b) H)
      (set_local t c (link_of (s_mem h) b) (wsub (local_count t c h) 1) h)"
    using bs g by (intro s_inv0_set_local [OF inv t]) auto
  then show thesis using that bs(1) g by simp
qed

lemma s_head_less:
  assumes inv: "s_inv0 fs G H h" and k: "k \<in> keys (threads_of h)"
  shows "head_at k h < 2 ^ 64"
proof (cases "fs k")
  case Nil
  then show ?thesis using s_listsD(1) [OF s_inv0D(2) [OF inv] k] by simp
next
  case (Cons b bs)
  then have hd: "head_at k h = b" using s_listsD(1) [OF s_inv0D(2) [OF inv] k] by simp
  have "block_ext (snd k) b \<in># ledger_ext (free_ext (threads_of h) fs) G H"
    using free_ext_mem [OF k, of b fs] Cons by (simp add: ledger_ext_def)
  then have "placed (s_space h) (block_ext (snd k) b)" by (rule ledgerD(3) [OF s_inv0D(3) [OF inv]])
  then have "b < 2 ^ 63" unfolding placed_def using block_in [of b "snd k"] by (auto simp: subset_iff)
  then show ?thesis using hd by simp
qed

lemma s_far:
  assumes inv: "s_inv0 fs G (add_mset (block_ext c b) H) h" and x: "block_ext d x \<in># ledger_ext (free_ext (threads_of h) fs) G H"
  shows "b + 8 \<le> x \<or> x + 8 \<le> b"
proof -
  have "block_ext c b \<inter> block_ext d x = {}" by (rule ledger_disjoint [OF s_inv0D(3) [OF inv] x])
  then have "\<not> (b \<le> x \<and> x < b + 8)" "\<not> (x \<le> b \<and> b < x + 8)"
    using word_in_block block_in by blast+
  then show ?thesis by auto
qed

lemma s_block_far:
  assumes inv: "s_inv0 fs G (add_mset (block_ext c b) H) h" and k: "k \<in> keys (threads_of h)" and x: "x \<in> set (fs k)"
  shows "b + 8 \<le> x \<or> x + 8 \<le> b"
  by (rule s_far [OF inv, of "snd k"]) (use free_ext_mem [OF k, of x fs] x in \<open>simp add: ledger_ext_def\<close>)

lemma s_push_local:
  assumes inv: "s_inv0 fs G (add_mset (block_ext c b) H) h" and t: "t < threads_of h" "c < 13"
    and b: "b mod 16 = 0" "0 < b" and len: "length (fs (Some t, c)) < 2 ^ 63"
  shows "s_inv0 (fs((Some t, c) := b # fs (Some t, c))) G H (push_local t c b h)" and "s_keeps G h (push_local t c b h)"
proof -
  let ?k = "(Some t, c)" and ?f = "write_usize (local_head t c h) b"
  have k: "?k \<in> keys (threads_of h)" using t by simp
  have out: "?f (s_mem h) a = s_mem h a" if "a \<notin> block_ext c b" for a
    using that word_in_block [of b a c] by (intro write_le_other) linarith
  note w = s_inv0_write [OF inv, of ?f, OF out]
  have lt: "local_head t c h < 2 ^ 64" using s_head_less [OF inv k] by simp
  have ch: "chain (link_of (s_mem (s_write ?f h))) b (b # fs ?k)"
    unfolding s_write_simps
    by (rule link_chain_push [OF _ lt b(2)]) (use s_listsD(1) [OF s_inv0D(2) [OF inv] k] s_block_far [OF inv k] in simp_all)
  have "s_inv0 (fs(?k := b # fs ?k)) G H (set_local t c b (wadd (local_count t c h) 1) (s_write ?f h))"
  proof (rule s_inv0_set_local [OF w(1) _ t(2) ch])
    show "x mod 16 = 0" if "x \<in> set (b # fs ?k)" for x using that b(1) s_listsD(2) [OF s_inv0D(2) [OF inv] k] by auto
    show "wadd (local_count t c h) 1 = length (b # fs ?k)"
      using s_listsD(3) [OF s_inv0D(2) [OF inv] t] len by (simp add: wadd_in_range)
  qed (use t in simp_all)
  then show "s_inv0 (fs(?k := b # fs ?k)) G H (push_local t c b h)" by (simp add: push_local_def)
  show "s_keeps G h (push_local t c b h)"
    unfolding push_local_def by (rule s_keeps_trans [OF w(2) s_keeps_same]) simp_all
qed

lemma s_pop_global:
  assumes inv: "s_inv0 fs G H h" and c: "c < 13" and p: "GlobalFreeList_pop c h = (Some b, h')"
  obtains bs where "fs (None, c) = b # bs" and "b mod 16 = 0" and "0 < b"
    and "s_inv0 (fs((None, c) := bs)) G (add_mset (block_ext c b) H) h'" and "s_space h' = s_space h" and "s_caches h' = s_caches h"
proof -
  have b: "global_head c h = b" "b \<noteq> 0" "h' = set_global c (link_of (s_mem h) b) h"
    using p by (auto simp: GlobalFreeList_pop_def Let_def split: if_splits)
  note l = s_listsD [OF s_inv0D(2) [OF inv]]
  have "chain (link_of (s_mem h)) b (fs (None, c))" using l(1) [of "(None, c)"] c b(1) by simp
  from chain_nonnull [OF _ this] b(2) obtain bs where
    bs: "fs (None, c) = b # bs" "chain (link_of (s_mem h)) (link_of (s_mem h) b) bs" by auto
  have g: "x mod 16 = 0" if "x \<in> set (fs (None, c))" for x using l(2) [of "(None, c)" x] c that by simp
  have "s_inv0 (fs((None, c) := bs)) G (add_mset (block_ext c b) H) (set_global c (link_of (s_mem h) b) h)"
    using bs g by (intro s_inv0_set_global [OF inv c]) auto
  then show thesis using that bs(1) g b by simp
qed

end
