(* ===== verification/SimpleSound.thy ===== *)
theory SimpleSound
  imports SimpleInv HeapContract
begin

text \<open>
  The simple cache meets the allocator contract: every path of \<open>Simple_alloc\<close> and \<open>Simple_dealloc\<close> keeps the invariant, and the
  list of a thread never reaches 4096 blocks between calls.
\<close>

definition s_bounded :: "nat \<Rightarrow> (key \<Rightarrow> addr list) \<Rightarrow> bool" where
  "s_bounded n fs \<longleftrightarrow> (\<forall>t < n. \<forall>c < 13. length (fs (Some t, c)) < 4096)"

lemma s_bounded_upd: "s_bounded n fs \<Longrightarrow> length bs < 4096 \<Longrightarrow> s_bounded n (fs(k := bs))"
  by (auto simp: s_bounded_def)

subsection \<open>Batches\<close>

lemma pop_batch_inv:
  assumes "s_inv0 fs G H h" and "t < threads_of h" and "c < 13" and "length (fs (Some t, c)) + n < 2 ^ 63"
    and "pop_batch n t c h = (m, h')"
  shows "\<exists>fs'. s_inv0 fs' G H h' \<and> s_keeps G h h' \<and> m \<le> n \<and> length (fs' (Some t, c)) = length (fs (Some t, c)) + m \<and>
    (\<forall>j. j \<noteq> (Some t, c) \<and> j \<noteq> (None, c) \<longrightarrow> fs' j = fs j)"
  using assms
proof (induction n arbitrary: fs h m)
  case 0
  then show ?case by (auto intro!: exI [of _ fs] simp: s_keeps_same)
next
  case (Suc n)
  obtain r h1 where p: "GlobalFreeList_pop c h = (r, h1)" by fastforce
  show ?case
  proof (cases r)
    case None
    then have "h1 = h" using p by (auto simp: GlobalFreeList_pop_def Let_def split: if_splits)
    then show ?thesis using Suc.prems p None by (auto intro!: exI [of _ fs] simp: s_keeps_same)
  next
    case (Some b)
    from s_pop_global [OF Suc.prems(1,3) p [unfolded Some]] obtain bs where
      bs: "fs (None, c) = b # bs" "b mod 16 = 0" "0 < b" "s_inv0 (fs((None, c) := bs)) G (add_mset (block_ext c b) H) h1"
        "s_space h1 = s_space h" "s_caches h1 = s_caches h" .
    let ?fs = "fs((None, c) := bs)" and ?h2 = "push_local t c b h1"
    have t1: "t < threads_of h1" using Suc.prems(2) bs(6) by simp
    note q = s_push_local [OF bs(4) t1 Suc.prems(3) bs(2,3)]
    have len: "length (?fs (Some t, c)) < 2 ^ 63" using Suc.prems(4) by simp
    obtain m' where r: "pop_batch n t c ?h2 = (m', h')" and m: "m = Suc m'"
      using Suc.prems(5) p Some by (cases "pop_batch n t c ?h2") auto
    have t2: "t < threads_of ?h2" using q(2) [OF len] t1 by (simp add: s_keeps_def)
    from Suc.IH [OF q(1) [OF len] t2 Suc.prems(3) _ r] Suc.prems(4) obtain fs' where
      f: "s_inv0 fs' G H h'" "s_keeps G ?h2 h'" "m' \<le> n" "length (fs' (Some t, c)) = Suc (length (fs (Some t, c))) + m'"
        "\<forall>j. j \<noteq> (Some t, c) \<and> j \<noteq> (None, c) \<longrightarrow> fs' j = fs j" by auto
    have "s_keeps G h h1" by (rule s_keeps_same) (simp_all add: bs)
    then have "s_keeps G h h'" using q(2) [OF len] f(2) s_keeps_trans by blast
    then show ?thesis using f m by (intro exI [of _ fs']) auto
  qed
qed

lemma carve_local_inv:
  assumes "s_inv0 fs G (image_mset (\<lambda>i. block_ext c (base + i * d)) (mset is) + H) h" and "t < threads_of h" and "c < 13"
    and "length (fs (Some t, c)) + length is < 2 ^ 63" and "\<And>i. i \<in> set is \<Longrightarrow> i * d < 2 ^ 64"
    and "base mod 16 = 0" "0 < base" "d mod 16 = 0"
  shows "\<exists>fs'. s_inv0 fs' G H (carve_local t c base d is h) \<and> s_keeps G h (carve_local t c base d is h) \<and>
    length (fs' (Some t, c)) = length (fs (Some t, c)) + length is \<and> (\<forall>j. j \<noteq> (Some t, c) \<longrightarrow> fs' j = fs j)"
  using assms
proof (induction "is" arbitrary: fs h)
  case Nil
  then show ?case by (auto intro!: exI [of _ fs] simp: s_keeps_same)
next
  case (Cons i "is")
  let ?b = "base + i * d" and ?fs = "fs((Some t, c) := (base + i * d) # fs (Some t, c))"
  have w: "wmul i d = i * d" using Cons.prems(5) by (simp add: wmul_in_range)
  have b: "?b mod 16 = 0" "0 < ?b"
    using Cons.prems(6-8) by (auto simp: mod_add_eq [symmetric] mod_mult_right_eq [of i d 16, symmetric])
  have inv: "s_inv0 fs G (add_mset (block_ext c ?b) (image_mset (\<lambda>i. block_ext c (base + i * d)) (mset is) + H)) h"
    using Cons.prems(1) by simp
  have len: "length (fs (Some t, c)) < 2 ^ 63" using Cons.prems(4) by simp
  note q = s_push_local [OF inv Cons.prems(2,3) b len]
  have t1: "t < threads_of (push_local t c ?b h)" using q(2) Cons.prems(2) by (simp add: s_keeps_def)
  from Cons.IH [OF q(1) t1 Cons.prems(3)] Cons.prems(4-8) obtain fs' where
    f: "s_inv0 fs' G H (carve_local t c base d is (push_local t c ?b h))"
      "s_keeps G (push_local t c ?b h) (carve_local t c base d is (push_local t c ?b h))"
      "length (fs' (Some t, c)) = Suc (length (fs (Some t, c))) + length is" "\<forall>j. j \<noteq> (Some t, c) \<longrightarrow> fs' j = fs j"
    by auto
  then show ?case using s_keeps_trans [OF q(2) f(2)] w by (intro exI [of _ fs']) simp
qed

subsection \<open>The outcome of an allocation\<close>

definition s_outcome :: "owned multiset \<Rightarrow> sheap \<Rightarrow> usize \<Rightarrow> usize \<Rightarrow> addr \<Rightarrow> sheap \<Rightarrow> bool" where
  "s_outcome G h sz al p h' \<longleftrightarrow> s_keeps G h h' \<and>
     (\<exists>fs. s_bounded (threads_of h) fs \<and> (p = 0 \<and> s_inv0 fs G {#} h' \<or>
        (\<exists>g. user_of g = (p, sz) \<and> p mod al = 0 \<and> s_inv0 fs (add_mset g G) {#} h')))"

lemma s_outcome_null: "s_inv0 fs G {#} h' \<Longrightarrow> s_bounded (threads_of h) fs \<Longrightarrow> s_keeps G h h' \<Longrightarrow> s_outcome G h sz al 0 h'"
  by (auto simp: s_outcome_def)

lemma s_outcome_block:
  assumes "s_inv0 fs (add_mset g G) {#} h'" and "s_bounded (threads_of h) fs" and "s_keeps G h h'"
    and "user_of g = (p, sz)" and "p mod al = 0"
  shows "s_outcome G h sz al p h'"
  using assms unfolding s_outcome_def by (intro conjI exI [of _ fs] disjI2 exI [of _ g])

lemma s_outcome_small:
  assumes "s_inv0 fs (add_mset (OSmall b sz) G) {#} h'" and "s_bounded (threads_of h) fs" and "s_keeps G h h'" and "al dvd 16"
  shows "s_outcome G h sz al (b + 16) h'"
proof (rule s_outcome_block [OF assms(1-3)])
  have "b mod 16 = 0" using ledgerD(1) [OF s_inv0D(3) [OF assms(1)], of "OSmall b sz"] by simp
  then have "16 dvd b + 16" by auto
  then show "(b + 16) mod al = 0" using dvd_trans [OF assms(4)] by simp
qed simp

lemma s_outcome_prefix: "s_keeps G h h1 \<Longrightarrow> s_outcome G h1 sz al p h' \<Longrightarrow> s_outcome G h sz al p h'"
  by (auto simp: s_outcome_def s_keeps_def)

lemma s_outcome_same: "s_outcome G h sz al p h1 \<Longrightarrow> s_same h1 h' \<Longrightarrow> s_outcome G h sz al p h'"
proof -
  assume o: "s_outcome G h sz al p h1" and s: "s_same h1 h'"
  then have k: "s_keeps G h h'" using s_keeps_trans [OF _ s_same_keeps [OF s]] by (simp add: s_outcome_def)
  from o [unfolded s_outcome_def, THEN conjunct2] obtain fs where fs: "s_bounded (threads_of h) fs"
    "p = 0 \<and> s_inv0 fs G {#} h1 \<or> (\<exists>g. user_of g = (p, sz) \<and> p mod al = 0 \<and> s_inv0 fs (add_mset g G) {#} h1)"
    by (elim exE conjE) (rule that)
  from fs(2) show ?thesis
  proof (elim disjE exE conjE)
    assume "p = 0" "s_inv0 fs G {#} h1"
    then show ?thesis using s_outcome_null [OF s_same_inv0 [OF s] fs(1) k] by simp
  next
    fix g assume "user_of g = (p, sz)" "p mod al = 0" "s_inv0 fs (add_mset g G) {#} h1"
    then show ?thesis using s_outcome_block [OF s_same_inv0 [OF s] fs(1) k] by simp
  qed
qed

lemma take_local_outcome:
  assumes inv: "s_inv0 fs G {#} h" and bd: "s_bounded (threads_of h) fs'" "\<And>j. j \<noteq> (Some t, c) \<Longrightarrow> j \<noteq> (None, c) \<Longrightarrow> fs j = fs' j"
    and len: "length (fs (Some t, c)) \<le> 4096"
    and t: "t < threads_of h" "c < 13" and b: "local_head t c h = b" "b \<noteq> 0"
    and sz: "0 < sz" "sz \<le> 65536" "size_to_class sz = Some c" "al dvd 16" and r: "take_local t sz c b h = (p, h')"
  shows "s_outcome G h sz al p h'"
proof -
  obtain bs where bs: "fs (Some t, c) = b # bs" "b mod 16 = 0"
    and i: "s_inv0 (fs((Some t, c) := bs)) G {#block_ext c b#} (set_local t c (link_of (s_mem h) b) (wsub (local_count t c h) 1) h)"
    by (rule s_pop_local [OF inv t b len])
  let ?h1 = "set_local t c (link_of (s_mem h) b) (wsub (local_count t c h) 1) h"
  define h2 where "h2 = s_flush t (s_bump t (\<lambda>m. m\<lparr>t_cache_hits := wadd (t_cache_hits m) 1, t_allocs := wadd (t_allocs m) 1\<rparr>) ?h1)"
  have s: "s_same ?h1 h2" unfolding h2_def by (rule s_same_bump_flush)
  have p: "p = b + 16" "h' = s_write (write_usize sz b) h2"
    using r by (simp_all add: take_local_def Let_def h2_def CACHE_HEADER_SIZE_def)
  have "0 < b" using b(2) by simp
  note o = s_own [OF s_same_inv0 [OF s i] bs(2) \<open>0 < b\<close> sz(1-3)]
  have "s_keeps G h h2" by (rule s_keeps_trans [OF s_keeps_same s_same_keeps [OF s]]) simp_all
  then have k: "s_keeps G h h'" using o(2) s_keeps_trans p(2) by blast
  have "s_bounded (threads_of h) (fs((Some t, c) := bs))"
    unfolding s_bounded_def
  proof (intro allI impI)
    fix u d assume ud: "u < threads_of h" "d < (13 :: nat)"
    have "fs (Some u, d) = fs' (Some u, d)" if "(u, d) \<noteq> (t, c)" using bd(2) [of "(Some u, d)"] that by auto
    then show "length ((fs((Some t, c) := bs)) (Some u, d)) < 4096" using bd(1) ud bs(1) len by (auto simp: s_bounded_def)
  qed
  then show ?thesis unfolding p(1) using o(1) k p(2) by (intro s_outcome_small [OF _ _ _ sz(4)]) simp_all
qed

lemma carve_page_local:
  assumes inv: "s_inv0 fs G {#{p..<p + 4096}#} h" and p: "p mod 4096 = 0" "0 < p"
    and t: "t < threads_of h" "c < 13" and bd: "s_bounded (threads_of h) fs" and emp: "fs (Some t, c) = []"
    and pos: "0 < 4096 div block_size_of c"
  shows "\<exists>fs'. s_inv0 fs' G {#block_ext c p#} (carve_local t c p (block_size_of c) [1..<4096 div block_size_of c] h) \<and>
    s_keeps G h (carve_local t c p (block_size_of c) [1..<4096 div block_size_of c] h) \<and> s_bounded (threads_of h) fs'"
proof -
  let ?d = "block_size_of c" and ?n = "4096 div block_size_of c"
  let ?e = "\<lambda>i. block_ext c (p + i * block_size_of c)"
  have be: "?e i = {p + i * ?d..<p + i * ?d + ?d}" for i by (simp add: block_ext_def block_size_of_def)
  have "?n * ?d \<le> 4096" by (rule div_times_less_eq_dividend)
  then have fit: "Suc i * ?d \<le> 4096" if "i < ?n" for i using mult_le_mono1 [of "Suc i" ?n ?d] that by linarith
  have ex: "exclusive (image_mset ?e (mset [0..<?n]))" unfolding be by (rule exclusive_strip)
  have sub: "X \<subseteq> {p..<p + 4096}" if "X \<in># image_mset ?e (mset [0..<?n])" for X
    using that fit by (fastforce simp: be)
  have l: "[0..<?n] = 0 # [1..<?n]" using pos by (simp add: upt_conv_Cons)
  have "s_inv0 fs G (image_mset ?e (mset [0..<?n]) + {#}) h"
    using inv ledger_carve [OF _ ex sub, of "free_ext (threads_of h) fs" G "{#}" "s_space h"] by (simp add: s_inv0_def del: mset_upt)
  then have i: "s_inv0 fs G (image_mset ?e (mset [1..<?n]) + {#block_ext c p#}) h" unfolding l by simp
  have n: "?n \<le> 128" using block_size_bounds [OF t(2)] div_le_mono2 [of 32 ?d 4096] by (simp add: block_size_of_def class_bytes_def)
  have w: "i * ?d < 2 ^ 64" if "i \<in> set [1..<?n]" for i using fit [of i] that by simp
  have len: "length (fs (Some t, c)) + length [1..<?n] < 2 ^ 63" using emp n by simp
  obtain fs' where f: "s_inv0 fs' G {#block_ext c p#} (carve_local t c p ?d [1..<?n] h)"
    "s_keeps G h (carve_local t c p ?d [1..<?n] h)" "length (fs' (Some t, c)) = length [1..<?n]" "\<forall>j. j \<noteq> (Some t, c) \<longrightarrow> fs' j = fs j"
    using carve_local_inv [OF i t len w page_mod_16 [OF p(1)] p(2) block_size_16] emp by auto
  have "s_bounded (threads_of h) fs'"
    unfolding s_bounded_def
  proof (intro allI impI)
    fix u d assume "u < threads_of h" "d < (13 :: nat)"
    then show "length (fs' (Some u, d)) < 4096" using bd f(3,4) n by (cases "(u, d) = (t, c)") (auto simp: s_bounded_def)
  qed
  then show ?thesis using f by blast
qed

lemma s_inv0_space:
  assumes "s_inv0 fs G H h" and "ledger (free_ext (threads_of h) fs) G H' s'"
    and "\<And>E a. E \<in># free_ext (threads_of h) fs \<Longrightarrow> a \<in> E \<Longrightarrow> mem s' a = s_mem h a"
  shows "s_inv0 fs G H' (h\<lparr>s_space := s'\<rparr>)"
proof -
  have "s_lists fs (h\<lparr>s_space := s'\<rparr>)"
  proof (rule s_lists_frame [OF s_inv0D(2) [OF assms(1)]])
    show "head_at k (h\<lparr>s_space := s'\<rparr>) = head_at k h" for k
      by (cases "(k, h)" rule: head_at.cases) (simp_all add: local_head_def global_head_def)
  qed (use assms(3) in \<open>simp_all add: local_count_def s_mem_def\<close>)
  then show ?thesis using assms(2) s_inv0D(1) [OF assms(1)] by (simp add: s_inv0_def s_shape_def)
qed

context kernel
begin

lemma s_page_request:
  assumes inv: "s_inv0 fs G H h" and r: "PageAllocator_alloc K k (s_space h) = (r, s')" and k: "0 < k" "k < 2 ^ 52"
  shows "s_keeps G h (h\<lparr>s_space := s'\<rparr>) \<and>
    (case r of None \<Rightarrow> h\<lparr>s_space := s'\<rparr> = h
     | Some p \<Rightarrow> pages_granted k (s_space h) p s' \<and> s_inv0 fs G (add_mset {p..<p + k * 4096} H) (h\<lparr>s_space := s'\<rparr>))"
proof (cases r)
  case None
  with r PageAllocator_alloc_None have "s' = s_space h" by simp
  with None show ?thesis by (simp add: s_keeps_def s_mem_def)
next
  case (Some p)
  with r k have g: "pages_granted k (s_space h) p s'" by (simp add: PageAllocator_alloc_Some)
  note l = s_inv0D(3) [OF inv]
  have same: "mem s' a = s_mem h a" if "X \<in># ledger_ext (free_ext (threads_of h) fs) G H" "a \<in> X" for X a
    using ledgerD(3) [OF l that(1)] that(2) g by (auto simp: placed_def pages_granted_def s_mem_def)
  have "s_inv0 fs G (add_mset {p..<p + k * 4096} H) (h\<lparr>s_space := s'\<rparr>)"
  proof (rule s_inv0_space [OF inv ledger_grant [OF l g]])
    fix E a assume "E \<in># free_ext (threads_of h) fs" "a \<in> E"
    then show "mem s' a = s_mem h a" by (intro same [of E a]) (simp_all add: ledger_ext_def)
  qed
  moreover have "mem s' a = s_mem h a" if "x \<in># G" "a \<in> ext_of x" for x a
    by (rule same [of "ext_of x"]) (use that in \<open>simp_all add: ledger_ext_def\<close>)
  then have "s_keeps G h (h\<lparr>s_space := s'\<rparr>)" by (simp add: s_keeps_def s_mem_def)
  ultimately show ?thesis using Some g by simp
qed

lemma s_fresh_block_outcome:
  assumes inv: "s_inv0 fs G {#} h" and bd: "s_bounded (threads_of h) fs" and c: "c < 13"
    and sz: "0 < sz" "sz \<le> 65536" "size_to_class sz = Some c" "al dvd 16"
    and f: "Simple_fresh_block K t sz (block_size_of c) h = (p, h')"
  shows "s_outcome G h sz al p h'"
proof -
  define k where "k = max (div_ceil (block_size_of c) 4096) 1"
  obtain r s' where r: "PageAllocator_alloc K k (s_space h) = (r, s')" by fastforce
  note d = div_ceil_bounds [of 4096 "block_size_of c"]
  have k: "0 < k" "k < 2 ^ 52" "block_size_of c \<le> k * 4096" using d block_size_bounds [OF c] by (auto simp: k_def)
  note g = s_page_request [OF inv r k(1,2)]
  show ?thesis
  proof (cases r)
    case None
    then have "p = 0" "h' = h" using f r g by (simp_all add: Simple_fresh_block_def Let_def k_def PAGE_SIZE_def)
    then show ?thesis using inv bd by (simp add: s_outcome_null s_keeps_same)
  next
    case (Some b)
    define h1 where "h1 = h\<lparr>s_space := s'\<rparr>"
    from g Some have b: "b mod 4096 = 0" "0 < b" "s_inv0 fs G {#{b..<b + k * 4096}#} h1" "s_keeps G h h1"
      by (auto simp: pages_granted_def h1_def)
    have "ledger (free_ext (threads_of h1) fs) G ({#block_ext c b#} + {#}) (s_space h1)"
      by (rule ledger_carve [OF s_inv0D(3) [OF b(3)]]) (use k(3) in \<open>auto simp: exclusive_add_iff block_ext_def block_size_of_def\<close>)
    then have i: "s_inv0 fs G (add_mset (block_ext c b) {#}) h1" using b(3) by (simp add: s_inv0_def)
    note o = s_own [OF i page_mod_16 [OF b(1)] b(2) sz(1-3)]
    have "p = b + 16" "h' = s_flush t (s_write (write_usize sz b) h1)"
      using f r Some by (simp_all add: Simple_fresh_block_def Let_def k_def PAGE_SIZE_def CACHE_HEADER_SIZE_def h1_def)
    then show ?thesis
      using s_outcome_same [OF s_outcome_small [OF o(1) bd s_keeps_trans [OF b(4) o(2)] sz(4)] s_same_flush] by simp
  qed
qed

lemma s_miss_outcome:
  assumes inv: "s_inv0 fs G {#} h0" and bd: "s_bounded (threads_of h0) fs" and t: "t < threads_of h0" "c < 13"
    and emp: "fs (Some t, c) = []"
    and sz: "0 < sz" "sz \<le> 65536" "size_to_class sz = Some c" "al dvd 16"
    and f: "Simple_miss K t sz (class_bytes c) c h0 = (p, h')"
  shows "s_outcome G h0 sz al p h'"
proof -
  define h where "h = s_bump t (\<lambda>m. m\<lparr>t_cache_misses := wadd (t_cache_misses m) 1, t_allocs := wadd (t_allocs m) 1\<rparr>) h0"
  have sm: "s_same h0 h" unfolding h_def by (rule s_same_bump)
  have th: "threads_of h = threads_of h0" by (rule s_same_get(1) [OF sm])
  note inv' = s_same_inv0 [OF sm inv] and bd' = bd [folded th] and t' = t [folded th]
  have bs: "wadd (class_bytes c) CACHE_HEADER_SIZE = block_size_of c"
    using block_size_bounds [OF t(2)] by (simp add: wadd_in_range CACHE_HEADER_SIZE_def block_size_of_def)
  let ?n = "4096 div block_size_of c"
  have fresh: "s_outcome G h sz al p h'" if "Simple_fresh_block K t sz (block_size_of c) h = (p, h')"
    by (rule s_fresh_block_outcome [OF inv' bd' t(2) sz that])
  have "s_outcome G h sz al p h'"
  proof (cases "1 < ?n")
    case False
    then show ?thesis using f fresh unfolding Simple_miss_def h_def [symmetric] by (simp add: bs PAGE_SIZE_def)
  next
    case True
    obtain r s' where r: "PageAllocator_alloc K 1 (s_space h) = (r, s')" by fastforce
    note g = s_page_request [OF inv' r]
    show ?thesis
    proof (cases r)
      case None
      then show ?thesis using f True r g fresh unfolding Simple_miss_def h_def [symmetric] by (simp add: bs PAGE_SIZE_def)
    next
      case (Some b)
      define h1 where "h1 = h\<lparr>s_space := s'\<rparr>"
      from g Some have b: "b mod 4096 = 0" "0 < b" "s_inv0 fs G {#{b..<b + 4096}#} h1" "s_keeps G h h1" "threads_of h1 = threads_of h"
        by (auto simp: pages_granted_def h1_def)
      let ?h2 = "carve_local t c b (block_size_of c) [1..<?n] h1"
      obtain fs' where fs': "s_inv0 fs' G {#block_ext c b#} ?h2" "s_keeps G h1 ?h2" "s_bounded (threads_of h1) fs'"
        using carve_page_local [OF b(3,1,2), of t c] b(5) t' bd' emp True by auto
      note o = s_own [OF fs'(1) page_mod_16 [OF b(1)] b(2) sz(1-3)]
      have k: "s_keeps G h (s_write (write_usize sz b) ?h2)" using b(4) fs'(2) o(2) s_keeps_trans by blast
      have "p = b + CACHE_HEADER_SIZE" "h' = s_flush t (s_write (write_usize sz b) ?h2)"
        using f True r [unfolded One_nat_def] Some unfolding Simple_miss_def h_def [symmetric]
        by (simp_all add: bs PAGE_SIZE_def Let_def h1_def)
      then have "p = b + 16" "h' = s_flush t (s_write (write_usize sz b) ?h2)" by (simp_all add: CACHE_HEADER_SIZE_def)
      then show ?thesis
        using s_outcome_same [OF s_outcome_small [OF o(1) _ k sz(4)] s_same_flush] fs'(3) b(5) by simp
    qed
  qed
  then show ?thesis by (rule s_outcome_prefix [OF s_same_keeps [OF sm]])
qed

lemma s_empty_list: "s_inv0 fs G H h \<Longrightarrow> t < threads_of h \<Longrightarrow> c < 13 \<Longrightarrow> local_head t c h = 0 \<Longrightarrow> fs (Some t, c) = []"
  using s_listsD(1) [OF s_inv0D(2), of fs G H h "(Some t, c)"] by simp

lemma s_alloc_cached_outcome:
  assumes inv: "s_inv0 fs G {#} h" and bd: "s_bounded (threads_of h) fs" and t: "t < threads_of h" "c < 13"
    and sz: "0 < sz" "sz \<le> 65536" "size_to_class sz = Some c" "al dvd 16"
    and f: "Simple_alloc_cached K t sz (class_bytes c) c h = (p, h')"
  shows "s_outcome G h sz al p h'"
proof (cases "local_head t c h = 0")
  case False
  then have "take_local t sz c (local_head t c h) h = (p, h')" using f by (simp add: Simple_alloc_cached_def Let_def)
  moreover have "length (fs (Some t, c)) \<le> 4096" using bd t by (auto simp: s_bounded_def intro: less_imp_le)
  ultimately show ?thesis using False by (intro take_local_outcome [OF inv bd _ _ t refl _ sz]) simp_all
next
  case True
  note emp = s_empty_list [OF inv t True]
  show ?thesis
  proof (cases "global_head c h = 0")
    case False
    obtain m h1 where m: "pop_batch 128 t c h = (m, h1)" by fastforce
    from pop_batch_inv [OF inv t _ m] emp obtain fs' where
      fs': "s_inv0 fs' G {#} h1" "s_keeps G h h1" "m \<le> 128" "length (fs' (Some t, c)) = m"
        "\<forall>j. j \<noteq> (Some t, c) \<and> j \<noteq> (None, c) \<longrightarrow> fs' j = fs j" by auto
    have th: "threads_of h1 = threads_of h" using fs'(2) by (simp add: s_keeps_def)
    note bd1 = bd [folded th] and t1 = t [folded th]
    have "s_outcome G h1 sz al p h'"
    proof (cases "m = 0")
      case True
      then have "Simple_miss K t sz (class_bytes c) c h1 = (p, h')"
        using f m False \<open>local_head t c h = 0\<close> by (simp add: Simple_alloc_cached_def GLOBAL_FREE_BATCH_def)
      moreover have "s_bounded (threads_of h1) fs'"
        unfolding s_bounded_def
      proof (intro allI impI)
        fix u d assume "u < threads_of h1" "d < (13 :: nat)"
        then show "length (fs' (Some u, d)) < 4096"
          using bd1 fs'(4,5) True by (cases "(u, d) = (t, c)") (auto simp: s_bounded_def)
      qed
      ultimately show ?thesis using fs'(4) True by (intro s_miss_outcome [OF fs'(1) _ t1 _ sz]) simp_all
    next
      case False
      then have "take_local t sz c (local_head t c h1) h1 = (p, h')"
        using f m \<open>global_head c h \<noteq> 0\<close> \<open>local_head t c h = 0\<close> by (simp add: Simple_alloc_cached_def GLOBAL_FREE_BATCH_def)
      moreover have "local_head t c h1 \<noteq> 0"
        using s_empty_list [OF fs'(1) t1] False fs'(4) by auto
      moreover have "fs' j = fs j" if "j \<noteq> (Some t, c)" "j \<noteq> (None, c)" for j using fs'(5) that by blast
      ultimately show ?thesis using fs'(3,4) by (intro take_local_outcome [OF fs'(1) bd1 _ _ t1 refl _ sz]) simp_all
    qed
    then show ?thesis by (rule s_outcome_prefix [OF fs'(2)])
  next
    case glob: True
    then have "Simple_miss K t sz (class_bytes c) c h = (p, h')"
      using f True by (simp add: Simple_alloc_cached_def)
    then show ?thesis by (rule s_miss_outcome [OF inv bd t emp sz])
  qed
qed

end

context kernel
begin

lemma s_alloc_large_shape:
  assumes sz: "0 < sz" "sz + 2 ^ k \<le> 2 ^ 63"
    and h: "h = s_flush t (s_bump t (\<lambda>m. m\<lparr>t_direct_allocs := wadd (t_direct_allocs m) 1, t_allocs := wadd (t_allocs m) 1\<rparr>) h0)"
    and f: "Simple_alloc_large K t sz (2 ^ k) h0 = (p, h')"
  shows "p = 0 \<and> h' = h \<and> fst (PageAllocator_alloc K (max (div_ceil (32 + sz + 2 ^ k) 4096) 1) (s_space h)) = None \<or>
    (\<exists>b n s'. PageAllocator_alloc K n (s_space h) = (Some b, s') \<and> 0 < n \<and> n < 2 ^ 52 \<and>
    h' = s_write (large_mem b n sz p) (h\<lparr>s_space := s'\<rparr>) \<and>
    b + 32 \<le> p \<and> p + sz \<le> b + n * 4096 \<and> p mod 2 ^ k = 0 \<and> p mod 16 = 0)"
proof -
  have ms: "wadd (wadd (wadd PAGE_HEADER_SIZE LARGE_HEADER_SIZE) sz) (2 ^ k) = 32 + sz + 2 ^ k"
    using sz(2) by (simp add: wadd_in_range PAGE_HEADER_SIZE_def LARGE_HEADER_SIZE_def)
  define n where "n = max (div_ceil (32 + sz + 2 ^ k) 4096) 1"
  note d = div_ceil_bounds [of 4096 "32 + sz + 2 ^ k"]
  have n: "0 < n" "n < 2 ^ 52" "32 + sz + 2 ^ k \<le> n * 4096" using d sz(2) by (auto simp: n_def)
  obtain r s' where r: "PageAllocator_alloc K n (s_space h) = (r, s')" by fastforce
  show ?thesis
  proof (cases r)
    case None
    then have "s' = s_space h" using r PageAllocator_alloc_None by simp
    with None f r show ?thesis unfolding Simple_alloc_large_def h [symmetric] ms
      by (simp add: Let_def n_def PAGE_SIZE_def)
  next
    case (Some b)
    define u where "u = AethAlloc_align_up (wadd (wadd b 16) 16) (2 ^ k)"
    from r Some n have "pages_granted n (s_space h) b s'" by (simp add: PageAllocator_alloc_Some)
    then have b: "b mod 4096 = 0" "b + n * 4096 \<le> 2 ^ 63" by (auto simp: pages_granted_def)
    have "p = u" "h' = s_write (large_mem b n sz u) (h\<lparr>s_space := s'\<rparr>)"
      using f r Some unfolding Simple_alloc_large_def h [symmetric] ms
      by (auto simp: Let_def n_def PAGE_SIZE_def u_def PAGE_HEADER_SIZE_def LARGE_HEADER_SIZE_def large_mem_def s_write_def)
    with r Some large_geometry [OF b n(3) u_def] n show ?thesis
      by (intro disjI2 exI [of _ b] exI [of _ n] exI [of _ s'] conjI) simp_all
  qed
qed

lemma s_alloc_large_outcome:
  assumes inv: "s_inv0 fs G {#} h0" and bd: "s_bounded (threads_of h0) fs" and sz: "0 < sz" "sz + 2 ^ k \<le> 2 ^ 63"
    and f: "Simple_alloc_large K t sz (2 ^ k) h0 = (p, h')"
  shows "s_outcome G h0 sz (2 ^ k) p h'"
proof -
  define h where "h = s_flush t (s_bump t (\<lambda>m. m\<lparr>t_direct_allocs := wadd (t_direct_allocs m) 1, t_allocs := wadd (t_allocs m) 1\<rparr>) h0)"
  have sm: "s_same h0 h" unfolding h_def by (rule s_same_bump_flush)
  note inv' = s_same_inv0 [OF sm inv] and k0 = s_same_keeps [OF sm, of G]
  show ?thesis
    using s_alloc_large_shape [OF sz h_def f]
  proof (elim disjE exE conjE)
    assume "p = 0" "h' = h"
    then show ?thesis using s_outcome_null [OF inv' bd k0] by simp
  next
    fix b n s'
    assume r: "PageAllocator_alloc K n (s_space h) = (Some b, s')" "0 < n" "n < 2 ^ 52"
      and h': "h' = s_write (large_mem b n sz p) (h\<lparr>s_space := s'\<rparr>)"
      and geo: "b + 32 \<le> p" "p + sz \<le> b + n * 4096" "p mod 2 ^ k = 0" "p mod 16 = 0"
    define h1 where "h1 = h\<lparr>s_space := s'\<rparr>"
    from s_page_request [OF inv' r] have g: "pages_granted n (s_space h) b s'" "s_keeps G h h1"
      "s_inv0 fs G (add_mset {b..<b + n * 4096} {#}) h1" by (auto simp: h1_def)
    from g(1) have b: "b mod 4096 = 0" "0 < b" "b + n * 4096 \<le> 2 ^ 63" by (auto simp: pages_granted_def)
    have fr: "large_mem b n sz p (s_mem h1) a = s_mem h1 a" if "a \<notin> {b..<b + n * 4096}" for a
      by (rule large_mem_frame [OF geo(1) _ that]) (use geo in auto)
    let ?g = "OLarge b n p sz" and ?h2 = "s_write (large_mem b n sz p) h1"
    note w = s_inv0_write [OF g(3), of "large_mem b n sz p", OF fr]
    have "header_ok (mem (s_space ?h2)) ?g"
      using large_mem_header [OF b(1,2) geo(1,2,4) b(3) sz(1)] by (simp del: header_ok.simps)
    then have "s_inv0 fs (add_mset ?g G) {#} ?h2"
      using w(1) ledger_own [of "free_ext (threads_of ?h2) fs" G ?g "{#}" "s_space ?h2"]
      by (simp add: s_inv0_def del: header_ok.simps)
    then show ?thesis
      unfolding h' h1_def [symmetric]
      by (rule s_outcome_block [OF _ bd s_keeps_trans [OF k0 s_keeps_trans [OF g(2) w(2)]]]) (use geo in simp_all)
  qed
qed

lemma s_alloc_outcome:
  assumes inv: "s_inv0 fs G {#} h" and bd: "s_bounded (threads_of h) fs" and t: "t < threads_of h"
    and lay: "Layout_from_size_align sz al = Some lay" and r: "Simple_alloc K t lay h = (p, h')"
  shows "s_outcome G h sz al p h'"
proof -
  obtain k where l: "lay = \<lparr>lay_size = sz, lay_align = al\<rparr>" "al = 2 ^ k" "sz + al \<le> 2 ^ 63 \<or> 2 ^ 63 < al \<and> sz = 0"
    using layout_cases [OF lay] by blast
  show ?thesis
  proof (cases "sz = 0")
    case True
    with r l have "p = 0" "h' = h" by (auto simp: Simple_alloc_def)
    then show ?thesis using s_outcome_null [OF inv bd] by (simp add: s_keeps_same)
  next
    case False
    show ?thesis
    proof (cases "sz \<le> 65536 \<and> al \<le> 8")
      case True
      from size_class_spec [of sz] False True obtain c where
        c: "c \<le> 12" "size_to_class sz = Some c" "size_to_class (max (round_up_pow2 sz) 16) = Some c"
          "max (round_up_pow2 sz) 16 = class_bytes c" by blast
      have al: "al dvd 16" using small_align [of k] True l(2) by simp
      have "Simple_alloc_cached K t sz (class_bytes c) c h = (p, h')"
        using r True False l c by (simp add: Simple_alloc_def MAX_CACHE_SIZE_def Let_def)
      then show ?thesis using s_alloc_cached_outcome [OF inv bd t, of c sz al p h'] c False True al by simp
    next
      case large: False
      then have "Simple_alloc_large K t sz al h = (p, h')"
        using r False l by (auto simp: Simple_alloc_def MAX_CACHE_SIZE_def)
      then show ?thesis using s_alloc_large_outcome [OF inv bd, of sz k t p h'] l False by simp
    qed
  qed
qed

end

end
