(* ===== verification/SimpleContract.thy ===== *)
theory SimpleContract
  imports SimpleSound
begin

text \<open>
  The free side of the simple cache, and the instance of the allocator contract for this build. A list that reaches 4096 blocks
  loses its first half to the global list of the class, so the bound on the lists holds again when the call returns.
\<close>

subsection \<open>Moving a batch\<close>

lemma walk_chain: "chain (link_of m) a (xs @ b # ys) \<Longrightarrow> walk (length xs) a m = b \<and> b \<noteq> 0 \<and> chain (link_of m) (link_of m b) ys"
  by (induction xs arbitrary: a) auto

lemma link_chain_splice:
  assumes "chain (link_of m) a (xs @ b # ys)" and "g < 2 ^ 64" and "chain (link_of m) g zs"
    and "\<And>c. c \<in> set xs \<union> set zs \<Longrightarrow> b + 8 \<le> c \<or> c + 8 \<le> b"
  shows "chain (link_of (write_usize g b m)) a (xs @ b # zs)"
  using assms
proof (induction xs arbitrary: a)
  case Nil
  then show ?case using link_chain_push [of m g zs b] by auto
next
  case (Cons x xs)
  have "link_of (write_usize g b m) x = link_of m x"
    using Cons.prems(4) [of x] by (intro read_le_cong write_le_other) auto
  then show ?case using Cons by auto
qed

lemma set_local_write: "set_local t c a n (s_write f h) = s_write f (set_local t c a n h)"
  by (simp add: set_local_def s_write_def Let_def)

text \<open>The batch \<open>xs @ [b]\<close>, in hand, becomes the front of the global list.\<close>

lemma push_batch_inv:
  assumes inv: "s_inv0 fs G (image_mset (block_ext c) (mset (xs @ [b]))) h" and c: "c < 13"
    and ch: "chain (link_of (s_mem h)) a (xs @ b # ys)" and al: "\<And>x. x \<in> set (xs @ [b]) \<Longrightarrow> x mod 16 = 0"
  shows "s_inv0 (fs((None, c) := xs @ b # fs (None, c))) G {#} (push_batch c a b (s_write (write_usize 0 b) h))"
    and "s_keeps G h (push_batch c a b (s_write (write_usize 0 b) h))"
proof -
  let ?H = "image_mset (block_ext c) (mset xs)" and ?g = "global_head c h" and ?zs = "fs (None, c)"
  define m1 where "m1 = write_usize 0 b (s_mem h)"
  define f where "f = (\<lambda>m. write_usize ?g b (write_usize 0 b m))"
  have i: "s_inv0 fs G (add_mset (block_ext c b) ?H) h" using inv by simp
  have k: "(None, c) \<in> keys (threads_of h)" using c by simp
  have far: "b + 8 \<le> x \<or> x + 8 \<le> b" if "x \<in> set xs \<union> set ?zs" for x
    by (rule s_far [OF i, of c]) (use that free_ext_mem [OF k, of x fs] in \<open>auto simp: ledger_ext_def\<close>)
  have out: "f (s_mem h) x = s_mem h x" if "x \<notin> block_ext c b" for x
    using that word_in_block [of b x c] write_le_other [of x b 8] unfolding f_def by (metis linorder_not_less)
  note w = s_inv0_write [OF i, of f, OF out]
  have g: "?g < 2 ^ 64" using s_head_less [OF i k] by simp
  have zs: "chain (link_of (s_mem h)) ?g ?zs" using s_listsD(1) [OF s_inv0D(2) [OF i] k] by simp
  have "chain (link_of m1) ?g ?zs"
    unfolding m1_def
  proof (rule link_chain_frame [OF zs])
    fix z x assume "z \<in> set ?zs" "z \<le> x" "x < z + 8"
    then show "write_usize 0 b (s_mem h) x = s_mem h x" using far [of z] by (intro write_le_other) auto
  qed
  moreover have "chain (link_of m1) a (xs @ b # [])" unfolding m1_def by (rule link_chain_splice [OF ch]) (use far in auto)
  ultimately have new: "chain (link_of (s_mem (s_write f h))) a (xs @ b # ?zs)"
    unfolding s_write_simps f_def m1_def [symmetric] by (intro link_chain_splice [of m1 a xs b "[]", OF _ g]) (use far in auto)
  have e: "push_batch c a b (s_write (write_usize 0 b) h) = set_global c a (s_write f h)"
    by (simp add: push_batch_def f_def s_write_def global_head_def)
  show "s_inv0 (fs((None, c) := xs @ b # ?zs)) G {#} (push_batch c a b (s_write (write_usize 0 b) h))"
    unfolding e
  proof (rule s_inv0_set_global [OF w(1) c new])
    show "x mod 16 = 0" if "x \<in> set (xs @ b # ?zs)" for x using that al s_listsD(2) [OF s_inv0D(2) [OF i] k] by auto
    show "image_mset (block_ext c) (mset (xs @ b # ?zs)) + {#} = image_mset (block_ext c) (mset ?zs) + add_mset (block_ext c b) ?H"
      unfolding mset_append mset.simps image_mset_union image_mset_add_mset by (simp add: add.commute)
  qed
  show "s_keeps G h (push_batch c a b (s_write (write_usize 0 b) h))"
    unfolding e by (rule s_keeps_trans [OF w(2) s_keeps_same]) simp_all
qed

lemma flush_excess_inv:
  assumes inv: "s_inv0 fs G {#} h" and t: "t < threads_of h" "c < 13" and len: "length (fs (Some t, c)) \<le> 4096"
    and bd: "\<And>u d. u < threads_of h \<Longrightarrow> d < 13 \<Longrightarrow> (u, d) \<noteq> (t, c) \<Longrightarrow> length (fs (Some u, d)) < 4096"
  shows "s_keeps G h (flush_excess t c h) \<and> (\<exists>fs'. s_inv0 fs' G {#} (flush_excess t c h) \<and> s_bounded (threads_of h) fs')"
proof (cases "length (fs (Some t, c)) < 4096")
  case True
  then have "flush_excess t c h = h"
    using s_listsD(3) [OF s_inv0D(2) [OF inv] t] by (simp add: flush_excess_def MAX_FREE_LIST_LENGTH_def)
  moreover have "s_bounded (threads_of h) fs" unfolding s_bounded_def using bd True by (metis prod.inject)
  ultimately show ?thesis using inv by (auto simp: s_keeps_same)
next
  case False
  let ?k = "(Some t, c)" and ?a = "local_head t c h"
  have k: "?k \<in> keys (threads_of h)" using t by simp
  note l = s_listsD [OF s_inv0D(2) [OF inv]]
  have n: "length (fs ?k) = 4096" using False len by simp
  define xs where "xs = take 2047 (fs ?k)"
  define b where "b = fs ?k ! 2047"
  define ys where "ys = drop 2048 (fs ?k)"
  have fs: "fs ?k = xs @ b # ys" and lx: "length xs = 2047" "length ys = 2048"
    using n id_take_nth_drop [of 2047 "fs ?k"] by (simp_all add: xs_def b_def ys_def)
  have ch: "chain (link_of (s_mem h)) ?a (xs @ b # ys)" using l(1) [OF k] fs by simp
  note w = walk_chain [OF ch, unfolded lx]
  have cnt: "local_count t c h = 4096" using l(3) [OF t] n by simp
  define h2 where "h2 = set_local t c (link_of (s_mem h) b) 2048 h"
  have al: "x mod 16 = 0" if "x \<in> set (fs ?k)" for x using l(2) [OF k that] .
  have i2: "s_inv0 (fs(?k := ys)) G (image_mset (block_ext c) (mset (xs @ [b]))) h2"
    unfolding h2_def by (rule s_inv0_set_local [OF inv t]) (use w lx al fs in auto)
  have e: "flush_excess t c h = push_batch c ?a b (s_write (write_usize 0 b) h2)"
    using cnt w by (simp add: flush_excess_def MAX_FREE_LIST_LENGTH_def Let_def set_local_write h2_def wsub_in_range)
  have ch2: "chain (link_of (s_mem h2)) ?a (xs @ b # ys)" using ch by (simp add: h2_def)
  note p = push_batch_inv [OF i2 t(2) ch2]
  have al2: "x mod 16 = 0" if "x \<in> set (xs @ [b])" for x by (rule al) (use that fs in auto)
  have "s_bounded (threads_of h) (fs(?k := ys, (None, c) := xs @ b # (fs(?k := ys)) (None, c)))"
    unfolding s_bounded_def using bd lx by auto
  moreover have "s_keeps G h h2" by (rule s_keeps_same) (simp_all add: h2_def)
  ultimately show ?thesis using p [OF al2] s_keeps_trans unfolding e by blast
qed

subsection \<open>dealloc\<close>

lemma s_count_free_same: "s_same h (s_count_free t h)"
  unfolding s_count_free_def by (rule s_same_bump_flush)

lemma s_dealloc_large_eq:
  assumes "header_ok (s_mem h) (OLarge base pages u n)"
  shows "Simple_dealloc K t u h = Simple_dealloc_pages K t base h"
proof -
  define v where "v = u - 16"
  have "u = v + 16" "0 < u" using assms by (auto simp: v_def)
  then show ?thesis
    using assms by (simp add: Simple_dealloc_def read_LargeAllocHeader_def LARGE_HEADER_SIZE_def add.commute [of 8 v])
qed

lemma s_dealloc_small_eq:
  assumes "header_ok (s_mem h) (OSmall b n)" and "size_to_class n = Some c"
  shows "Simple_dealloc K t (b + 16) h = Simple_dealloc_cached t c b h"
proof -
  have n: "0 < n" "n \<le> 65536" "read_usize (s_mem h) b = n" using assms(1) by (auto simp: MAX_CACHE_SIZE_def)
  have "size_to_class (max (round_up_pow2 n) 16) = Some c" using size_class_spec [OF n(1,2)] assms(2) by auto
  moreover have "read_u32 (s_mem h) b = n" using n(2,3) by (simp add: read_u32_of_usize)
  ultimately show ?thesis
    using n by (simp add: Simple_dealloc_def read_LargeAllocHeader_def read_PageHeader_def LARGE_HEADER_SIZE_def
      CACHE_HEADER_SIZE_def LARGE_MAGIC_def MAGIC_def MAX_CACHE_SIZE_def)
qed

text \<open>What a free leaves: the other blocks as they were, and the invariant with the bound on the lists.\<close>

definition s_freed :: "owned multiset \<Rightarrow> sheap \<Rightarrow> sheap \<Rightarrow> bool" where
  "s_freed G h h' \<longleftrightarrow> s_keeps G h h' \<and> (\<exists>fs. s_inv0 fs G {#} h' \<and> s_bounded (threads_of h) fs)"

lemma s_freed_same: "s_freed G h h1 \<Longrightarrow> s_same h1 h' \<Longrightarrow> s_freed G h h'"
  unfolding s_freed_def using s_keeps_trans [OF _ s_same_keeps] s_same_inv0 by blast

lemma s_dealloc_cached_freed:
  assumes inv: "s_inv0 fs G {#block_ext c b#} h" and bd: "s_bounded (threads_of h) fs" and t: "t < threads_of h" "c < 13"
    and b: "b mod 16 = 0" "0 < b"
  shows "s_freed G h (Simple_dealloc_cached t c b h)"
proof -
  let ?fs = "fs((Some t, c) := b # fs (Some t, c))"
  have len: "length (fs (Some t, c)) < 4096" using bd t by (simp add: s_bounded_def)
  note q = s_push_local [OF inv t b]
  define h2 where "h2 = s_count_free t (push_local t c b h)"
  have s: "s_same (push_local t c b h) h2" unfolding h2_def by (rule s_count_free_same)
  have i: "s_inv0 ?fs G {#} h2" by (rule s_same_inv0 [OF s q(1)]) (use len in simp)
  have k: "s_keeps G h h2" by (rule s_keeps_trans [OF q(2) s_same_keeps [OF s]]) (use len in simp)
  then have th: "threads_of h2 = threads_of h" by (simp add: s_keeps_def)
  have "s_keeps G h2 (flush_excess t c h2) \<and> (\<exists>fs'. s_inv0 fs' G {#} (flush_excess t c h2) \<and> s_bounded (threads_of h2) fs')"
  proof (rule flush_excess_inv [OF i])
    show "length (?fs (Some t, c)) \<le> 4096" using len by simp
    show "length (?fs (Some u, d)) < 4096" if "u < threads_of h2" "d < 13" "(u, d) \<noteq> (t, c)" for u d
      using that bd th by (auto simp: s_bounded_def)
  qed (use t th in simp_all)
  then show ?thesis
    unfolding s_freed_def Simple_dealloc_cached_def h2_def [symmetric] th using s_keeps_trans [OF k] by blast
qed

context kernel
begin

lemma s_unmap:
  assumes inv: "s_inv0 fs G {#E#} h" and E: "{p..<p + k * 4096} \<subseteq> E"
    and k: "0 < k" "k < 2 ^ 51" "p mod 4096 = 0" "p + k * 4096 \<le> 2 ^ 63"
  shows "s_inv0 fs G {#} (h\<lparr>s_space := PageAllocator_dealloc K p k (s_space h)\<rparr>)"
    and "s_keeps G h (h\<lparr>s_space := PageAllocator_dealloc K p k (s_space h)\<rparr>)"
proof -
  note u = ledger_unmap [OF s_inv0D(3) [OF inv] E k]
  let ?s = "PageAllocator_dealloc K p k (s_space h)"
  show "s_inv0 fs G {#} (h\<lparr>s_space := ?s\<rparr>)"
  proof (rule s_inv0_space [OF inv u(1)])
    fix X a assume "X \<in># free_ext (threads_of h) fs" "a \<in> X"
    then show "mem ?s a = s_mem h a" using u(2) [of X a] by (simp add: ledger_ext_def s_mem_def)
  qed
  have "mem ?s a = s_mem h a" if "g \<in># G" "a \<in> ext_of g" for g a
    using u(2) [of "ext_of g" a] that by (simp add: ledger_ext_def s_mem_def)
  then show "s_keeps G h (h\<lparr>s_space := ?s\<rparr>)" by (simp add: s_keeps_def s_mem_def)
qed

lemma s_dealloc_large_freed:
  assumes inv: "s_inv0 fs (add_mset (OLarge base pages u n) G) {#} h" and bd: "s_bounded (threads_of h) fs"
  shows "s_freed G h (Simple_dealloc_pages K t base h)"
proof -
  let ?k = "pages mod 2 ^ 32"
  have hd: "header_ok (s_mem h) (OLarge base pages u n)"
    using ledgerD(1) [OF s_inv0D(3) [OF inv], of "OLarge base pages u n"] by (simp add: s_mem_def)
  have i: "s_inv0 fs G {#{base..<base + pages * 4096}#} h"
    using inv ledger_disown [of "free_ext (threads_of h) fs" "OLarge base pages u n" G "{#}"] by (simp add: s_inv0_def)
  have "?k * 4096 \<le> pages * 4096" by (intro mult_le_mono1) (rule mod_less_eq_dividend)
  then have sub: "{base..<base + ?k * 4096} \<subseteq> {base..<base + pages * 4096}" "base + ?k * 4096 \<le> 2 ^ 63" using hd by auto
  have ph: "ph_magic (read_PageHeader (s_mem h) base) = MAGIC" "ph_num_pages (read_PageHeader (s_mem h) base) = ?k"
    using hd by (simp_all add: read_PageHeader_def)
  define h1 where "h1 = (if 0 < ?k then h\<lparr>s_space := PageAllocator_dealloc K base ?k (s_space h)\<rparr> else h)"
  have "s_inv0 fs G {#} h1 \<and> s_keeps G h h1"
  proof (cases "0 < ?k")
    case True
    have "?k < 2 ^ 32" by (rule mod_less_divisor) simp
    then have "?k < 2 ^ 51" by (rule less_trans) simp
    then show ?thesis using s_unmap [OF i sub(1) True _ _ sub(2)] True hd by (simp add: h1_def)
  next
    case False
    then show ?thesis using i ledger_drop [of "free_ext (threads_of h) fs" G "{#}" "{#{base..<base + pages * 4096}#}"]
      by (simp add: h1_def s_keeps_same s_inv0_def)
  qed
  then have "s_freed G h h1" unfolding s_freed_def using bd by blast
  moreover have "Simple_dealloc_pages K t base h = s_count_free t h1" using ph by (simp add: Simple_dealloc_pages_def h1_def)
  ultimately show ?thesis using s_freed_same [OF _ s_count_free_same] by simp
qed

lemma s_dealloc_freed:
  assumes inv: "s_inv0 fs (add_mset g G) {#} h" and bd: "s_bounded (threads_of h) fs" and t: "t < threads_of h"
    and g: "user_of g = (p, n)"
  shows "s_freed G h (Simple_dealloc K t p h)"
proof -
  have hd: "header_ok (s_mem h) g" using ledgerD(1) [OF s_inv0D(3) [OF inv], of g] by (simp add: s_mem_def)
  show ?thesis
  proof (cases g)
    case (OSmall b k)
    note hd' = hd [unfolded OSmall]
    then have k: "0 < k" "k \<le> 65536" "b mod 16 = 0" "0 < b" by (auto simp: MAX_CACHE_SIZE_def)
    from size_class_spec [OF k(1,2)] obtain c where c: "c \<le> 12" "size_to_class k = Some c" by blast
    have "s_inv0 fs G {#block_ext c b#} h"
      using inv ledger_disown [of "free_ext (threads_of h) fs" g G "{#}"] OSmall c(2) by (simp add: s_inv0_def)
    then show ?thesis
      using s_dealloc_cached_freed [of fs G c b h t] s_dealloc_small_eq [OF hd' c(2)] bd t c(1) k g OSmall by simp
  next
    case (OLarge base pages u k)
    then show ?thesis using s_dealloc_large_eq [OF hd [unfolded OLarge]] s_dealloc_large_freed [of fs base pages u k G h] inv bd g
      by (simp del: header_ok.simps)
  qed
qed

end

subsection \<open>The contract\<close>

definition simple_alloc :: "syscalls \<Rightarrow> nat \<times> Layout \<Rightarrow> sheap \<Rightarrow> addr option \<times> sheap" where
  "simple_alloc K = (\<lambda>(t, lay) h. case Simple_alloc K t lay h of (p, h') \<Rightarrow> (if p = 0 then None else Some p, h'))"

definition simple_dealloc :: "syscalls \<Rightarrow> nat \<Rightarrow> addr \<times> usize \<Rightarrow> sheap \<Rightarrow> sheap" where
  "simple_dealloc K t = (\<lambda>(p, _) h. Simple_dealloc K t p h)"

definition simple_poke :: "addr \<Rightarrow> byte \<Rightarrow> sheap \<Rightarrow> sheap" where
  "simple_poke a v = s_write (\<lambda>m. m(a := v))"

definition simple_inv :: "nat \<Rightarrow> live \<Rightarrow> sheap \<Rightarrow> bool" where
  "simple_inv threads L h \<longleftrightarrow> threads_of h = threads \<and>
     (\<exists>fs G. L = image_mset user_of G \<and> s_inv0 fs G {#} h \<and> s_bounded threads fs)"

lemma simple_invE:
  assumes "simple_inv threads L h"
  obtains fs G where "threads_of h = threads" "L = image_mset user_of G" "s_inv0 fs G {#} h" "s_bounded (threads_of h) fs"
  using assms by (auto simp: simple_inv_def)

lemma simple_inv_freed: "s_freed G h h' \<Longrightarrow> simple_inv (threads_of h) (image_mset user_of G) h'"
  by (auto simp: s_freed_def simple_inv_def s_keeps_def)

lemma simple_inv_new: "simple_inv threads {#} (sheap_new s threads)"
proof -
  let ?h = "sheap_new s threads"
  have th: "threads_of ?h = threads" by (simp add: sheap_new_def)
  have get: "local_head t c ?h = 0" "local_count t c ?h = 0" "global_head c ?h = 0" if "t < threads" "c < 14" for t c
    using that by (simp_all add: sheap_new_def local_head_def local_count_def global_head_def SimpleCache_new_def
      GlobalFreeList_new_def NUM_SIZE_CLASSES_def)
  have glob: "global_head c ?h = 0" if "c < 14" for c
    using that by (simp add: sheap_new_def global_head_def GlobalFreeList_new_def NUM_SIZE_CLASSES_def)
  have "s_shape ?h" by (simp add: s_shape_def sheap_new_def SimpleCache_new_def NUM_SIZE_CLASSES_def)
  moreover have "head_at k ?h = 0" if "k \<in> keys threads" for k
    using that get glob by (cases "(k, ?h)" rule: head_at.cases) auto
  then have "s_lists (\<lambda>_. []) ?h" using get by (auto simp: s_lists_def th)
  moreover have "ledger (free_ext threads (\<lambda>_. [])) {#} {#} (s_space ?h)" by (simp add: ledger_def ledger_ext_def free_ext_def)
  ultimately have "s_inv0 (\<lambda>_. []) {#} {#} ?h" by (simp add: s_inv0_def th)
  then show ?thesis using th by (force simp: simple_inv_def s_bounded_def)
qed

lemma simple_live_keeps:
  assumes "s_inv0 fs (G + G') H h" and "s_keeps G h h'" and "(p, n) \<in># image_mset user_of G" "p \<le> a" "a < p + n"
  shows "s_mem h' a = s_mem h a"
proof -
  from assms(3) obtain g where g: "g \<in># G" "user_of g = (p, n)" by force
  have "{p..<p + n} \<subseteq> ext_of g" by (rule owned_geometry(1) [OF ledgerD(1) [OF s_inv0D(3) [OF assms(1)]] g(2)]) (use g(1) in simp)
  then show ?thesis using assms(2,4,5) g(1) by (auto simp: s_keeps_def subset_iff)
qed

lemma simple_write_inv:
  assumes "simple_inv threads L h" and "(p, n) \<in># L" and f: "\<And>x. \<not> (p \<le> x \<and> x < p + n) \<Longrightarrow> f (s_mem h) x = s_mem h x"
  shows "simple_inv threads L (s_write f h)"
proof -
  from assms(1) obtain fs G where G: "threads_of h = threads" "L = image_mset user_of G" "s_inv0 fs G {#} h" "s_bounded (threads_of h) fs"
    by (rule simple_invE)
  from assms(2) G(2) obtain g where g: "g \<in># G" "user_of g = (p, n)" by force
  have "f (s_mem h) x = mem (s_space h) x" if "\<not> (p \<le> x \<and> x < p + n)" for x using f [OF that] by (simp add: s_mem_def)
  note u = ledger_user_write [OF s_inv0D(3) [OF G(3)] g this]
  have "s_inv0 fs G {#} (h\<lparr>s_space := (s_space h)\<lparr>mem := f (s_mem h)\<rparr>\<rparr>)"
  proof (rule s_inv0_space [OF G(3) u(1)])
    fix E x assume "E \<in># free_ext (threads_of h) fs" "x \<in> E"
    from u(2) [OF _ this] show "mem ((s_space h)\<lparr>mem := f (s_mem h)\<rparr>) x = s_mem h x" by (simp add: s_mem_def)
  qed
  then have "s_inv0 fs G {#} (s_write f h)" by (simp add: s_write_def s_mem_def)
  then show ?thesis unfolding simple_inv_def using G by (intro conjI exI [of _ fs] exI [of _ G]) simp_all
qed

lemma s_outcome_cases:
  assumes "s_outcome G h sz al p h'"
  obtains (null) fs where "s_keeps G h h'" "p = 0" "s_inv0 fs G {#} h'" "s_bounded (threads_of h) fs"
  | (block) fs g where "s_keeps G h h'" "0 < p" "user_of g = (p, sz)" "p mod al = 0" "s_inv0 fs (add_mset g G) {#} h'" "s_bounded (threads_of h) fs"
proof -
  from assms have k: "s_keeps G h h'" by (simp add: s_outcome_def)
  from assms [unfolded s_outcome_def, THEN conjunct2] obtain fs where fs: "s_bounded (threads_of h) fs"
    "p = 0 \<and> s_inv0 fs G {#} h' \<or> (\<exists>g. user_of g = (p, sz) \<and> p mod al = 0 \<and> s_inv0 fs (add_mset g G) {#} h')"
    by (elim exE conjE) (rule that)
  from fs(2) show thesis
  proof (elim disjE exE conjE)
    assume "p = 0" "s_inv0 fs G {#} h'"
    then show thesis by (rule null [OF k _ _ fs(1)])
  next
    fix g assume g: "user_of g = (p, sz)" "p mod al = 0" "s_inv0 fs (add_mset g G) {#} h'"
    have "16 < p" by (rule owned_geometry(6) [OF ledgerD(1) [OF s_inv0D(3) [OF g(3)]] g(1)]) simp
    then have "0 < p" by simp
    then show thesis by (rule block [OF k _ g fs(1)])
  qed
qed

context kernel
begin

lemma simple_alloc_outcome:
  assumes "simple_inv threads L h" and "aeth_valid threads (t, lay)" and "simple_alloc K (t, lay) h = (res, h')"
  obtains fs G p where "threads_of h = threads" "L = image_mset user_of G" "s_inv0 fs G {#} h"
    "s_outcome G h (lay_size lay) (lay_align lay) p h'" "res = (if p = 0 then None else Some p)"
proof -
  from assms(1) obtain fs G where g: "threads_of h = threads" "L = image_mset user_of G" "s_inv0 fs G {#} h" "s_bounded (threads_of h) fs"
    by (rule simple_invE)
  obtain p h1 where a: "Simple_alloc K t lay h = (p, h1)" by fastforce
  with assms(3) have "res = (if p = 0 then None else Some p)" "h1 = h'" by (simp_all add: simple_alloc_def)
  moreover have "s_outcome G h (lay_size lay) (lay_align lay) p h1"
    by (rule s_alloc_outcome [OF g(3,4) _ _ a]) (use assms(2) g(1) in \<open>auto simp: aeth_valid_def valid_layout_def\<close>)
  ultimately show thesis using that g(1-3) by blast
qed

lemma simple_dealloc_owned:
  assumes "simple_inv threads (add_mset (p, n) L) h" and "t < threads"
  obtains fs G g where "threads_of h = threads" "L = image_mset user_of G" "s_inv0 fs (add_mset g G) {#} h"
    "s_freed G h (simple_dealloc K t (p, n) h)"
proof -
  from assms(1) obtain fs G' where g': "threads_of h = threads" "add_mset (p, n) L = image_mset user_of G'"
    "s_inv0 fs G' {#} h" "s_bounded (threads_of h) fs" by (rule simple_invE)
  from msed_map_invR [OF g'(2) [symmetric]] obtain G g where
    g: "G' = add_mset g G" "user_of g = (p, n)" "image_mset user_of G = L" by blast
  have "s_freed G h (simple_dealloc K t (p, n) h)"
    unfolding simple_dealloc_def prod.case by (rule s_dealloc_freed [OF g'(3) [unfolded g(1)] g'(4) _ g(2)]) (use assms(2) g'(1) in simp)
  then show thesis by (rule that [OF g'(1) g(3) [symmetric] g'(3) [unfolded g(1)]])
qed

end

sublocale kernel \<subseteq> simple: heap_allocator "simple_inv threads" "aeth_valid threads" "\<lambda>(t, lay). lay_size lay"
  "simple_alloc K" "\<lambda>t. t < threads" "simple_dealloc K" simple_poke s_mem "\<lambda>h. mapped (s_space h)" for threads
proof (unfold_locales, goal_cases)
  case (1 L h r p h')
  obtain t lay where r: "r = (t, lay)" by (cases r)
  from 1 [unfolded r] show ?case
  proof (rule simple_alloc_outcome)
    fix fs G and q :: addr
    assume g: "threads_of h = threads" "L = image_mset user_of G" "Some p = (if q = 0 then None else Some q)"
    assume "s_outcome G h (lay_size lay) (lay_align lay) q h'"
    then show ?case
    proof (cases rule: s_outcome_cases)
      case (block fs' x)
      then show ?thesis unfolding simple_inv_def using g r
        by (intro conjI exI [of _ fs'] exI [of _ "add_mset x G"]) (simp_all add: s_keeps_def)
    qed (use g in simp)
  qed
next
  case (2 L h r h')
  obtain t lay where r: "r = (t, lay)" by (cases r)
  from 2 [unfolded r] show ?case
  proof (rule simple_alloc_outcome)
    fix fs G and q :: addr
    assume g: "threads_of h = threads" "L = image_mset user_of G" "None = (if q = 0 then None else Some q)"
    assume "s_outcome G h (lay_size lay) (lay_align lay) q h'"
    then show ?case
    proof (cases rule: s_outcome_cases)
      case (null fs')
      then show ?thesis unfolding simple_inv_def using g
        by (intro conjI exI [of _ fs'] exI [of _ G]) (simp_all add: s_keeps_def)
    qed (use g in \<open>simp split: if_splits\<close>)
  qed
next
  case (3 L h r res h' p n a)
  obtain t lay where r: "r = (t, lay)" by (cases r)
  from 3(1-3) [unfolded r] show ?case
  proof (rule simple_alloc_outcome)
    fix fs G q assume g: "L = image_mset user_of G" "s_inv0 fs G {#} h" and o: "s_outcome G h (lay_size lay) (lay_align lay) q h'"
    from o have "s_keeps G h h'" by (simp add: s_outcome_def)
    then show ?case using simple_live_keeps [of fs G "{#}" "{#}" h h' p n a] g 3 by simp
  qed
next
  case (4 p n L h t)
  then show ?case by (rule simple_dealloc_owned) (use simple_inv_freed in blast)
next
  case (5 p n L h t q k a)
  from 5(1,2) show ?case
  proof (rule simple_dealloc_owned)
    fix fs G g assume d: "L = image_mset user_of G" "s_inv0 fs (add_mset g G) {#} h" "s_freed G h (simple_dealloc K t (p, n) h)"
    then show ?thesis using simple_live_keeps [of fs G "{#g#}" "{#}" h "simple_dealloc K t (p, n) h" q k a] 5
      by (simp add: s_freed_def)
  qed
next
  case (6 L h p n a v)
  then show ?case unfolding simple_poke_def by (intro simple_write_inv [of threads L h p n]) auto
next
  case (7 a v h b)
  then show ?case by (simp add: simple_poke_def)
next
  case (8 L h)
  from 8 show ?case by (rule simple_invE) (use ledger_live(1) s_inv0D(3) in blast)
next
  case (9 L h p n)
  from 9(1) show ?case by (rule simple_invE) (use ledger_live(2) s_inv0D(3) 9(2) in blast)
qed

text \<open>The list of a thread as the program's blocks see it.\<close>

lemma s_lists_distinct:
  assumes "s_inv0 fs G H h" and "k \<in> keys (threads_of h)"
  shows "distinct (fs k)"
proof (rule ccontr)
  assume "\<not> distinct (fs k)"
  then obtain xs b ys zs where e: "fs k = xs @ [b] @ ys @ [b] @ zs" using not_distinct_decomp by blast
  have "free_ext (threads_of h) fs = image_mset (block_ext (snd k)) (mset (fs k)) + free_ext (threads_of h) (fs(k := []))"
    using free_ext_upd [OF assms(2), of fs "[]"] by (simp add: ac_simps)
  then have "exclusive (add_mset (block_ext (snd k) b) (add_mset (block_ext (snd k) b)
      (image_mset (block_ext (snd k)) (mset (xs @ ys @ zs)) + free_ext (threads_of h) (fs(k := [])) + image_mset ext_of G + H)))"
    using ledgerD(2) [OF s_inv0D(3) [OF assms(1)]] by (simp add: ledger_ext_def e)
  then show False using block_in [of b "snd k"] by (auto simp: exclusive_add_iff)
qed

lemma s_list_view:
  assumes inv: "s_inv0 fs G {#} h" and bd: "s_bounded (threads_of h) fs" and L: "L = image_mset user_of G"
    and t: "t < threads_of h" "c < 13"
  shows "\<exists>bs. chain (link_of (s_mem h)) (local_head t c h) bs \<and> length bs = local_count t c h \<and> local_count t c h < MAX_FREE_LIST_LENGTH \<and>
    distinct bs \<and> (\<forall>b \<in> set bs. b mod 16 = 0 \<and> (\<forall>(p, n) \<in># L. {b..<b + class_bytes c + 16} \<inter> {p..<p + n} = {}))"
proof (intro exI [of _ "fs (Some t, c)"] conjI ballI)
  let ?k = "(Some t, c)"
  have k: "?k \<in> keys (threads_of h)" using t by simp
  note l = s_listsD [OF s_inv0D(2) [OF inv]]
  show "chain (link_of (s_mem h)) (local_head t c h) (fs ?k)" using l(1) [OF k] by simp
  show "length (fs ?k) = local_count t c h" "local_count t c h < MAX_FREE_LIST_LENGTH"
    using l(3) [OF t] bd t by (simp_all add: s_bounded_def MAX_FREE_LIST_LENGTH_def)
  show "distinct (fs ?k)" by (rule s_lists_distinct [OF inv k])
  fix b assume b: "b \<in> set (fs ?k)"
  show "b mod 16 = 0" by (rule l(2) [OF k b])
  fix x assume "x \<in># L"
  then obtain g where g: "g \<in># G" "user_of g = x" unfolding L by force
  obtain p n where x: "x = (p, n)" by fastforce
  have "block_ext c b \<inter> ext_of g = {}"
    by (rule exclusive_disjoint [where M = "free_ext (threads_of h) fs" and N = "image_mset ext_of G"])
      (use free_ext_mem [OF k, of b fs] b g(1) ledgerD(2) [OF s_inv0D(3) [OF inv]] in \<open>simp_all add: ledger_ext_def\<close>)
  moreover have "{p..<p + n} \<subseteq> ext_of g" by (rule owned_geometry(1) [OF ledgerD(1) [OF s_inv0D(3) [OF inv] g(1)]]) (use g(2) x in simp)
  ultimately show "case x of (p, n) \<Rightarrow> {b..<b + class_bytes c + 16} \<inter> {p..<p + n} = {}"
    unfolding x prod.case block_ext_def add.assoc by blast
qed

end
