(* ===== verification/AllocProps.thy ===== *)
theory AllocProps
  imports HeapContract
begin

text \<open>
  What the program may rely on when it uses the global allocator: the properties of whole runs
  over any number of threads, and of single operations in the states such runs reach.
\<close>

subsection \<open>Reading the headers back\<close>

lemma get_alloc_size_owned:
  assumes "header_ok m g" and "user_of g = (p, n)"
  shows "get_alloc_size p m = n"
proof (cases g)
  case (OSmall b k)
  with assms have k: "0 < k" "k \<le> 65536" "read_usize m b = k" "p = b + 16" "n = k"
    by (auto simp: MAX_CACHE_SIZE_def)
  then have "read_u32 m b = k" by (simp add: read_u32_of_usize)
  with k show ?thesis
    by (simp add: get_alloc_size_def read_LargeAllocHeader_def read_PageHeader_def LARGE_HEADER_SIZE_def
      CACHE_HEADER_SIZE_def LARGE_MAGIC_def MAGIC_def MAX_CACHE_SIZE_def)
next
  case (OLarge base pages u k)
  define v where "v = u - 16"
  have "u = v + 16" "0 < u" "p = u" "n = k" using assms OLarge by (auto simp: v_def)
  with assms OLarge show ?thesis
    by (simp add: get_alloc_size_def read_LargeAllocHeader_def read_PageHeader_def LARGE_HEADER_SIZE_def add.commute [of 8 v])
qed

lemma get_alloc_size_live:
  assumes "heap_inv L h" and "(p, n) \<in># L"
  shows "get_alloc_size p (mem (space h)) = n"
proof -
  from assms obtain fs es G where L: "L = image_mset user_of G" and inv: "heap_inv0 fs es G {#} h" by (auto simp: heap_inv_def)
  from live_owned [OF L assms(2)] obtain g where "g \<in># G" "user_of g = (p, n)" .
  then show ?thesis using get_alloc_size_owned inv0_parts(4) [OF inv] by blast
qed

context kernel
begin

lemma aeth_run_inv:
  assumes "heap_run (aeth_valid threads) (\<lambda>(t, lay). lay_size lay) (aeth_alloc K) (\<lambda>t. t < threads) (aeth_dealloc K) aeth_poke
    ({#}, heap_new s threads) es (L, h)"
  shows "heap_inv_at threads L h"
  using aeth.run_inv [OF assms] heap_inv_at_new by simp

lemma aeth_run_keeps_at:
  assumes "heap_run (aeth_valid threads) (\<lambda>(t, lay). lay_size lay) (aeth_alloc K) (\<lambda>t. t < threads) (aeth_dealloc K) aeth_poke
    (L, h) es (L', h')" and "heap_inv_at threads L h" and "(p, n) \<in># L" "p \<le> a" "a < p + n"
    and "\<And>v. Write a v \<notin> set es" and "\<And>t. Free t p n \<notin> set es"
  shows "(p, n) \<in># L' \<and> mem (space h') a = mem (space h) a"
  using aeth.run_keeps [OF assms(1), of p n a] assms(2-7) by simp

end

text \<open>
  C4. Soundness of the allocator over whole runs. Any number of threads start with an empty heap
  and allocate with any valid layouts, free blocks of the program on any thread (also on a thread that did
  not allocate them), and write into blocks they hold, in any interleaving of whole operations. Then the blocks
  the program holds never overlap, all lie in mapped memory at multiples of 16, and
  \<open>get_alloc_size\<close> returns for each of them exactly the size that was requested.
\<close>

theorem aeth_run_sound:
  assumes "kernel K"
    and "heap_run (aeth_valid threads) (\<lambda>(t, lay). lay_size lay) (aeth_alloc K) (\<lambda>t. t < threads) (aeth_dealloc K) aeth_poke
      ({#}, heap_new s threads) es (L, h)"
  shows "exclusive (extents L) \<and>
    (\<forall>(p, n) \<in># L. 0 < p \<and> p mod 16 = 0 \<and> {p..<p + n} \<subseteq> mapped (space h) \<and> get_alloc_size p (mem (space h)) = n)"
proof -
  have i: "heap_inv L h" using kernel.aeth_run_inv [OF assms] by (simp add: heap_inv_at_def)
  show ?thesis using heap_inv_live [OF i] get_alloc_size_live [OF i] by auto
qed

definition demo_layout :: Layout where
  "demo_layout = \<lparr>lay_size = 4096, lay_align = 8\<rparr>"

lemma demo_layout_valid: "valid_layout demo_layout"
proof -
  have "is_power_of_two 8" unfolding is_power_of_two_iff by (rule exI [of _ 3]) simp
  then show ?thesis by (simp add: valid_layout_def demo_layout_def Layout_from_size_align_def)
qed

lemma demo_class: "round_up_pow2 4096 = 4096" "size_to_class 4096 = Some 8"
  using round_up_pow2_power [of 12] size_to_class_power [of 12] by simp_all

lemmas alloc_eval = AethAlloc_alloc_def AethAlloc_alloc_cached_def AethAlloc_pop_block_def AethAlloc_refill_def
  AethAlloc_miss_def AethAlloc_fresh_block_def AethAlloc_hit_def AethAlloc_swap_mags_def
  AethAlloc_dealloc_def AethAlloc_dealloc_cached_def AethAlloc_push_free_def
  alloc_mag_def free_mag_def set_alloc_mag_def set_free_mag_def get_thread_cache_def set_thread_cache_def
  bump_metrics_def flush_thread_def maybe_flush_def count_free_def write_mem_def
  Magazine_pop_def Magazine_push_def Magazine_is_empty_def pop_full_def
  read_LargeAllocHeader_def read_PageHeader_def Let_def

lemmas const_eval = MAX_CACHE_SIZE_def NUM_SIZE_CLASSES_def METRICS_FLUSH_THRESHOLD_def MAGIC_def LARGE_MAGIC_def
  CACHE_HEADER_SIZE_def LARGE_HEADER_SIZE_def PAGE_SIZE_def MAGAZINE_CAPACITY_def POOL_CLASSES_def
  wadd_def div_ceil_def

lemmas heap_eval = heap_new_def ThreadCache_new_def ThreadMetrics_new_def Magazine_new_def GlobalMagazinePools_new_def
  GlobalMagazinePool_new_def

lemma demo_pages: "PageAllocator_alloc (first_fit 9) (Suc (Suc 0)) (pages_to 0 (\<lambda>_. 0)) = (Some 4096, pages_to 2 (\<lambda>_. 0))"
  unfolding numeral_2_eq_2 [symmetric] using PageAllocator_pages_to [of 0 9 2 "\<lambda>_. 0"] by simp

lemma replicate_2: "replicate 2 x = [x, x]"
  by (simp add: numeral_2_eq_2)

lemma replicate_update_same: "(replicate n x)[i := x] = replicate n x"
  by (cases "i < n") (auto intro: nth_equalityI simp: nth_list_update)

definition demo_heap :: heap where
  "demo_heap = (heap_new (pages_to 2 (write_usize 4096 4096 (\<lambda>_. 0))) 2)\<lparr>caches :=
      [ThreadCache_new\<lparr>metrics := ThreadMetrics_new\<lparr>t_cache_misses := 1, t_allocs := 1\<rparr>\<rparr>, ThreadCache_new]\<rparr>"

lemma demo_alloc:
  "AethAlloc_alloc (first_fit 9) 0 demo_layout (heap_new (pages_to 0 (\<lambda>_. 0)) 2) = (4112, demo_heap)"
  by (simp add: demo_heap_def demo_pages demo_layout_def demo_class alloc_eval const_eval heap_eval replicate_2 replicate_update_same)

lemma demo_free_alloc:
  "fst (AethAlloc_alloc (first_fit 9) 1 demo_layout (AethAlloc_dealloc (first_fit 9) 1 4112 demo_heap)) = 4112"
proof -
  have "read_u32 (write_usize 4096 4096 (\<lambda>_. 0)) 4096 = 4096" by (simp add: read_u32_of_usize)
  then show ?thesis
    by (simp add: demo_heap_def demo_layout_def demo_class alloc_eval const_eval heap_eval replicate_update_same)
qed

theorem aeth_run_sound_witness:
  "\<exists>h :: heap. exclusive (extents {#(4112, 4096)#}) \<and> get_alloc_size 4112 (mem (space h)) = 4096 \<and> {4112..<4112 + 4096} \<subseteq> mapped (space h)"
proof -
  let ?K = "first_fit 9" and ?h0 = "heap_new (pages_to 0 (\<lambda>_. 0)) 2"
  let ?h2 = "AethAlloc_dealloc ?K 1 4112 demo_heap"
  define h3 where "h3 = snd (AethAlloc_alloc ?K 1 demo_layout ?h2)"
  have 3: "AethAlloc_alloc ?K 1 demo_layout ?h2 = (4112, h3)"
    using demo_free_alloc by (cases "AethAlloc_alloc ?K 1 demo_layout ?h2") (simp add: h3_def)
  have sz: "lay_size demo_layout = 4096" by (simp add: demo_layout_def)
  have "heap_exec (aeth_valid 2) (\<lambda>(t, lay). lay_size lay) (aeth_alloc ?K) (\<lambda>t. t < 2) (aeth_dealloc ?K) aeth_poke
      [Alloc (0, demo_layout), Free 1 4112 4096, Alloc (1, demo_layout)] ({#}, ?h0) = Some ({#(4112, 4096)#}, h3)"
    using 3 by (simp add: aeth_valid_def demo_layout_valid aeth_alloc_def aeth_dealloc_def demo_alloc sz)
  from aeth_run_sound [OF ff.kernel_axioms heap_execI [OF this]] show ?thesis by (intro exI [of _ h3]) simp
qed

text \<open>
  C5. The bytes of a block are the program's own. From any state of the allocator that satisfies its
  invariant, whatever a run of allocations, frees of other blocks and writes does, a byte of a block that is neither freed
  nor written in the run keeps its value, and the block stays with the program.
\<close>

theorem aeth_run_keeps:
  assumes "kernel K" and "heap_inv_at threads L h"
    and "heap_run (aeth_valid threads) (\<lambda>(t, lay). lay_size lay) (aeth_alloc K) (\<lambda>t. t < threads) (aeth_dealloc K) aeth_poke
      (L, h) es (L', h')"
    and "(p, n) \<in># L" "p \<le> a" "a < p + n"
    and "\<forall>v. Write a v \<notin> set es" and "\<forall>t. Free t p n \<notin> set es"
  shows "(p, n) \<in># L' \<and> mem (space h') a = mem (space h) a"
  using kernel.aeth_run_keeps_at [OF assms(1,3,2,4-6)] assms(7,8) by blast

lemma demo_heap_inv: "heap_inv_at 2 {#(4112, 4096)#} demo_heap"
proof -
  have "heap_exec (aeth_valid 2) (\<lambda>(t, lay). lay_size lay) (aeth_alloc (first_fit 9)) (\<lambda>t. t < 2) (aeth_dealloc (first_fit 9)) aeth_poke
      [Alloc (0, demo_layout)] ({#}, heap_new (pages_to 0 (\<lambda>_. 0)) 2) = Some ({#(4112, 4096)#}, demo_heap)"
    by (simp add: aeth_valid_def demo_layout_valid aeth_alloc_def demo_alloc) (simp add: demo_layout_def)
  from ff.aeth_run_inv [OF heap_execI [OF this]] show ?thesis .
qed

theorem aeth_run_keeps_witness:
  "\<exists>L' h'. heap_run (aeth_valid 2) (\<lambda>(t, lay). lay_size lay) (aeth_alloc (first_fit 9)) (\<lambda>t. t < 2) (aeth_dealloc (first_fit 9))
      aeth_poke ({#(4112, 4096)#}, demo_heap) [Alloc (1, demo_layout), Write 4112 7] (L', h') \<and>
    (4112, 4096) \<in># L' \<and> mem (space h') 5000 = mem (space demo_heap) 5000"
proof -
  let ?K = "first_fit 9" and ?es = "[Alloc (1, demo_layout), Write 4112 7]"
  obtain r h1 where a: "aeth_alloc ?K (1, demo_layout) demo_heap = (r, h1)" by (cases "aeth_alloc ?K (1, demo_layout) demo_heap")
  then obtain L' h' where "heap_exec (aeth_valid 2) (\<lambda>(t, lay). lay_size lay) (aeth_alloc ?K) (\<lambda>t. t < 2) (aeth_dealloc ?K) aeth_poke
      ?es ({#(4112, 4096)#}, demo_heap) = Some (L', h')"
    by (cases r) (auto simp: aeth_valid_def demo_layout_valid)
  note run = heap_execI [OF this]
  show ?thesis
    using aeth_run_keeps [OF ff.kernel_axioms demo_heap_inv run, of 4112 4096 5000] run
    by (intro exI [of _ L'] exI [of _ h'] conjI) simp_all
qed

text \<open>
  The result of one allocation. In every state that satisfies the invariant, a request with a valid layout
  either fails with null, and then the program holds what it held, or returns a block of
  the requested size that is aligned to the requested alignment and to 16 bytes, mapped,
  disjoint from every block the program holds, and whose recorded size is the requested one.
  A request for zero bytes is refused without any effect.
\<close>

theorem aeth_alloc_result:
  assumes "kernel K" and "heap_inv L h" and "t < length (caches h)" and "valid_layout lay"
    and "AethAlloc_alloc K t lay h = (p, h')"
  shows "(lay_size lay = 0 \<longrightarrow> p = 0 \<and> h' = h) \<and> (p = 0 \<longrightarrow> heap_inv L h') \<and>
    (p \<noteq> 0 \<longrightarrow> heap_inv (add_mset (p, lay_size lay) L) h' \<and> p mod lay_align lay = 0 \<and> p mod 16 = 0 \<and>
       {p..<p + lay_size lay} \<subseteq> mapped (space h') \<and> get_alloc_size p (mem (space h')) = lay_size lay \<and>
       (\<forall>(q, k) \<in># L. {p..<p + lay_size lay} \<inter> {q..<q + k} = {}))"
proof -
  from assms(2) obtain fs es G where L: "L = image_mset user_of G" and inv: "heap_inv0 fs es G {#} h" by (auto simp: heap_inv_def)
  have o: "alloc_outcome G h (lay_size lay) (lay_align lay) p h'"
    by (rule kernel.alloc_outcome_ok [OF assms(1) inv assms(3) _ assms(5)]) (use assms(4) in \<open>simp add: valid_layout_def\<close>)
  have z: "lay_size lay = 0 \<longrightarrow> p = 0 \<and> h' = h" using assms(5) by (auto simp: AethAlloc_alloc_def)
  have n: "p = 0 \<Longrightarrow> heap_inv L h'" using alloc_outcome_live(1) [OF o] L by simp
  have b: "p \<noteq> 0 \<Longrightarrow> heap_inv (add_mset (p, lay_size lay) L) h' \<and> p mod lay_align lay = 0"
    using alloc_outcome_live(2) [OF o] L by simp
  have "\<forall>(q, k) \<in># L. {p..<p + lay_size lay} \<inter> {q..<q + k} = {}" if "p \<noteq> 0"
    using heap_inv_live(1) [OF conjunct1 [OF b [OF that]]] extents_memI unfolding extents_simps exclusive_add_iff by blast
  then show ?thesis using z n b heap_inv_live(2) [OF conjunct1 [OF b], of p "lay_size lay"]
      get_alloc_size_live [OF conjunct1 [OF b], of p "lay_size lay"] by auto
qed

theorem aeth_alloc_result_witness:
  "heap_inv {#(4112, 4096)#} demo_heap \<and> get_alloc_size 4112 (mem (space demo_heap)) = 4096 \<and> 4112 mod lay_align demo_layout = 0"
  using aeth_alloc_result [OF ff.kernel_axioms heap_inv_new _ demo_layout_valid demo_alloc]
  by (simp add: demo_layout_def)

subsection \<open>Round trips\<close>

lemma count_free_space [simp]: "space (count_free t h) = space h"
  using same_heap_count_free [of h t] by (simp add: same_heap_def)

context kernel
begin

lemma large_free_mapped:
  assumes sz: "0 < sz" "sz + 2 ^ k \<le> 2 ^ 43" and f: "AethAlloc_alloc_large K t sz (2 ^ k) h0 = (p, h')" and p: "p \<noteq> 0"
  shows "mapped (space (AethAlloc_dealloc K t' p h')) = mapped (space h0)"
proof -
  define h where "h = flush_thread t (bump_metrics t
    (\<lambda>m. m\<lparr>t_direct_allocs := wadd (t_direct_allocs m) 1, t_allocs := wadd (t_allocs m) 1\<rparr>) h0)"
  have "same_heap h0 h" unfolding h_def by (rule same_heap_trans [OF same_heap_bump same_heap_flush])
  then have sp: "space h = space h0" by (simp add: same_heap_def)
  have "sz + 2 ^ k \<le> 2 ^ 63" using sz(2) by simp
  from alloc_large_shape [OF sz(1) this h_def f] p obtain b n s' where
    g: "pages_granted n (space h) b s'" and n: "n = max (div_ceil (32 + sz + 2 ^ k) 4096) 1" and
    h': "h' = write_mem (large_mem b n sz p) (h\<lparr>space := s'\<rparr>)" and
    geo: "b + 32 \<le> p" "p + sz \<le> b + n * 4096" "p mod 16 = 0" by auto
  have b: "b mod 4096 = 0" "0 < b" "b + n * 4096 \<le> 2 ^ 63" using g by (auto simp: pages_granted_def)
  have hd: "header_ok (mem (space h')) (OLarge b n p sz)"
    using large_mem_header [OF b(1,2) geo b(3) sz(1), of "mem s'"] by (simp add: h' write_mem_def del: header_ok.simps)
  have nb: "0 < n" "n < 2 ^ 32" using div_ceil_bounds [of 4096 "32 + sz + 2 ^ k"] sz(2) by (auto simp: n)
  have "ph_magic (read_PageHeader (mem (space h')) b) = MAGIC" "ph_num_pages (read_PageHeader (mem (space h')) b) = n"
    using hd nb by (simp_all add: read_PageHeader_def)
  then have "space (AethAlloc_dealloc K t' p h') = PageAllocator_dealloc K b n (space h')"
    using nb by (simp add: dealloc_large_eq [OF hd] AethAlloc_dealloc_pages_def)
  then have "mapped (space (AethAlloc_dealloc K t' p h')) = mapped (space h') - {b..<b + n * 4096}"
    using PageAllocator_dealloc_ok(1) [of n b "space h'"] nb b by simp
  also have "\<dots> = mapped (space h)" using g by (auto simp: h' write_mem_def pages_granted_def)
  finally show ?thesis by (simp add: sp)
qed

end

text \<open>
  C11. A large region goes back to the operating system whole. If a request that bypasses the caches (more than
  65536 bytes or an alignment above 8, up to 8 TiB in all) succeeds, freeing its pointer on any thread leaves
  exactly the pages mapped that were mapped before the request.
\<close>

theorem large_free_unmaps:
  assumes "kernel K" and "valid_layout lay" and "MAX_CACHE_SIZE < lay_size lay \<or> 8 < lay_align lay"
    and "lay_size lay + lay_align lay \<le> 2 ^ 43" and "AethAlloc_alloc K t lay h = (p, h')" and "p \<noteq> 0"
  shows "mapped (space (AethAlloc_dealloc K t' p h')) = mapped (space h)"
proof -
  obtain k where k: "lay_align lay = 2 ^ k"
    using assms(2) by (auto simp: valid_layout_def Layout_from_size_align_def is_power_of_two_iff split: if_splits)
  have pos: "0 < lay_size lay" using assms(5,6) by (cases "lay_size lay = 0") (auto simp: AethAlloc_alloc_def)
  have "AethAlloc_alloc_large K t (lay_size lay) (2 ^ k) h = (p, h')"
    using assms(3,5) pos by (auto simp: AethAlloc_alloc_def Let_def k split: if_splits)
  from kernel.large_free_mapped [OF assms(1) pos _ this assms(6)] assms(4) show ?thesis by (simp add: k)
qed

lemma demo_large: "valid_layout \<lparr>lay_size = 100000, lay_align = 64\<rparr>"
    "\<exists>h'. AethAlloc_alloc (first_fit 9) 0 \<lparr>lay_size = 100000, lay_align = 64\<rparr> (heap_new (pages_to 0 (\<lambda>_. 0)) 2) = (4160, h')"
proof -
  have "is_power_of_two 64" unfolding is_power_of_two_iff by (rule exI [of _ 6]) simp
  then show "valid_layout \<lparr>lay_size = 100000, lay_align = 64\<rparr>" by (simp add: valid_layout_def Layout_from_size_align_def)
  have a: "AethAlloc_align_up 4128 64 = 4160" using align_up_spec [of 4128 6] by simp
  show "\<exists>h'. AethAlloc_alloc (first_fit 9) 0 \<lparr>lay_size = 100000, lay_align = 64\<rparr> (heap_new (pages_to 0 (\<lambda>_. 0)) 2) = (4160, h')"
    using PageAllocator_pages_to [of 0 9 25 "\<lambda>_. 0"] a
    by (simp add: AethAlloc_alloc_large_def PAGE_HEADER_SIZE_def alloc_eval const_eval heap_eval replicate_2)
qed

theorem large_free_unmaps_witness:
  "\<exists>h'. AethAlloc_alloc (first_fit 9) 0 \<lparr>lay_size = 100000, lay_align = 64\<rparr> (heap_new (pages_to 0 (\<lambda>_. 0)) 2) = (4160, h') \<and>
    mapped (space (AethAlloc_dealloc (first_fit 9) 1 4160 h')) = mapped (space (heap_new (pages_to 0 (\<lambda>_. 0)) 2))"
proof -
  from demo_large(2) obtain h' where
    h': "AethAlloc_alloc (first_fit 9) 0 \<lparr>lay_size = 100000, lay_align = 64\<rparr> (heap_new (pages_to 0 (\<lambda>_. 0)) 2) = (4160, h')" by blast
  from large_free_unmaps [OF ff.kernel_axioms demo_large(1) _ _ h', of 1] h' show ?thesis
    by (intro exI [of _ h']) (simp add: MAX_CACHE_SIZE_def)
qed

subsection \<open>Blocks move between the caches\<close>

lemma retire_refill:
  assumes "caches_ok h" and "length (magazines h) = 13" and "t < length (caches h)" and "u < length (caches h)" and "cls < 13"
    and "fst (alloc_node K (metadata h, space h)) \<noteq> 0"
  shows "\<exists>h'. AethAlloc_refill u cls (AethAlloc_retire K t cls h) = (True, h') \<and>
    alloc_mag u cls h' = free_mag t cls h \<and> free_mag t cls h' = Magazine_new \<and>
    full_head (magazines h' ! cls) = full_head (magazines h ! cls)"
proof -
  obtain n md s' where n: "alloc_node K (metadata h, space h) = (n, md, s')" "n \<noteq> 0"
    using assms(6) by (cases "alloc_node K (metadata h, space h)") auto
  define h1 where "h1 = h\<lparr>metadata := md, space := s'\<rparr>"
  have f: "free_mag t cls h1 = free_mag t cls h" "caches_ok h1" "caches h1 = caches h" "magazines h1 = magazines h"
    using caches_frame [of h1 h] assms(1) by (auto simp: h1_def free_mag_def get_thread_cache_def)
  define node where "node = \<lparr>node_next = full_head (magazines h ! cls), magazine = free_mag t cls h\<rparr>"
  define h2 where "h2 = set_free_mag t cls Magazine_new (h1\<lparr>magazines := (magazines h)[cls := (magazines h ! cls)\<lparr>full_head := n\<rparr>],
    nodes := (nodes h)(n := node)\<rparr>)"
  have r: "AethAlloc_retire K t cls h = h2"
    using n f by (simp add: AethAlloc_retire_def push_full_def h2_def node_def h1_def)
  let ?h1 = "h1\<lparr>magazines := (magazines h)[cls := (magazines h ! cls)\<lparr>full_head := n\<rparr>], nodes := (nodes h)(n := node)\<rparr>"
  have ok1: "caches_ok ?h1" "length (caches ?h1) = length (caches h)" using caches_frame [of ?h1 h] f assms(1) by auto
  have ok2: "caches_ok h2" "length (caches h2) = length (caches h)"
    unfolding h2_def using caches_ok_set(2) [OF ok1(1), of t cls Magazine_new] ok1(2) assms(3,5) by (auto simp: mag_good_def)
  have fm: "free_mag t cls h2 = Magazine_new"
    unfolding h2_def using alloc_mag_set(3) [OF ok1(1), of t cls t cls Magazine_new] ok1(2) assms(3,5) by simp
  have p: "magazines h2 ! cls = (magazines h ! cls)\<lparr>full_head := n\<rparr>" "nodes h2 n = node" "length (magazines h2) = 13"
    using assms(2,5) by (simp_all add: h2_def)
  obtain h3 where h3: "AethAlloc_refill u cls h2 = (True, set_alloc_mag u cls (free_mag t cls h) h3)"
      "caches h3 = caches h2" "full_head (magazines h3 ! cls) = full_head (magazines h ! cls)"
    using p n(2) assms(5) by (simp add: AethAlloc_refill_def pop_full_def push_empty_def node_def Let_def)
  have ok3: "caches_ok h3" "length (caches h3) = length (caches h)" using caches_frame [of h3 h2] ok2 h3(2) by auto
  have "free_mag t cls h3 = free_mag t cls h2" using h3(2) by (simp add: free_mag_def get_thread_cache_def)
  with h3 r fm alloc_mag_set(1,4) [OF ok3(1), of u cls _ cls "free_mag t cls h"] ok3(2) assms(3-5) show ?thesis by auto
qed

text \<open>
  C12. Magazines travel whole between threads. When thread \<open>t\<close> retires its free magazine of a class to the
  global pool, the next refill of any thread \<open>u\<close> in that class gets exactly that magazine, block by block; \<open>t\<close> is
  left with an empty magazine and the full stack of the pool is what it was.
\<close>

theorem magazine_handover:
  assumes "heap_inv L h" and "t < length (caches h)" and "u < length (caches h)" and "cls < 13"
    and "fst (alloc_node K (metadata h, space h)) \<noteq> 0"
  shows "\<exists>h'. AethAlloc_refill u cls (AethAlloc_retire K t cls h) = (True, h') \<and>
    alloc_mag u cls h' = free_mag t cls h \<and> free_mag t cls h' = Magazine_new \<and>
    full_head (magazines h' ! cls) = full_head (magazines h ! cls)"
proof -
  from assms(1) obtain fs es G where inv: "heap_inv0 fs es G {#} h" by (auto simp: heap_inv_def)
  show ?thesis
    by (rule retire_refill [OF inv0_parts(1) [OF inv] _ assms(2-5)]) (use inv0_parts(2) [OF inv] in \<open>simp add: pools_ok_def\<close>)
qed

theorem magazine_handover_witness:
  "\<exists>h'. AethAlloc_refill 1 8 (AethAlloc_retire (first_fit 9) 0 8 demo_heap) = (True, h') \<and> alloc_mag 1 8 h' = free_mag 0 8 demo_heap"
proof -
  have "\<exists>s. sys_mmap (first_fit 9) (pages_to 2 m) 4096 = (Some (4096 * 3), s)" for m
    using PageAllocator_pages_to [of 2 9 1 m]
    by (cases "sys_mmap (first_fit 9) (pages_to 2 m) 4096")
      (auto simp: PageAllocator_alloc_def PAGE_SIZE_def wmul_def split: option.splits if_splits)
  then obtain s where "sys_mmap (first_fit 9) (space demo_heap) 4096 = (Some 12288, s)"
    by (auto simp: demo_heap_def heap_new_def)
  then have "fst (alloc_node (first_fit 9) (metadata demo_heap, space demo_heap)) \<noteq> 0"
    using alloc_node_step [of MetadataAllocator_new "first_fit 9" "space demo_heap"]
    by (simp add: demo_heap_def heap_new_def meta_ok_def MetadataAllocator_new_def PAGE_SIZE_def alloc_metadata_page_def NODE_SIZE_def)
  moreover have "heap_inv {#(4112, 4096)#} demo_heap" "0 < length (caches demo_heap)" "1 < length (caches demo_heap)"
    using demo_heap_inv by (simp_all add: heap_inv_at_def)
  ultimately show ?thesis using magazine_handover [of "{#(4112, 4096)#}" demo_heap 0 1 8 "first_fit 9"] by auto
qed

lemma alloc_after_swap:
  assumes ok: "caches_ok h" and t: "t < length (caches h)" and cls: "cls < 13"
    and e: "Magazine_is_empty (alloc_mag t cls h)" and l: "mag_list (free_mag t cls h) = bs @ [b]"
  shows "fst (AethAlloc_alloc_cached K t sz cs cls h) = b + 16"
proof -
  let ?a = "alloc_mag t cls h" and ?f = "free_mag t cls h"
  define h1 where "h1 = set_alloc_mag t cls ?a h"
  have good: "mag_good ?a" "mag_good ?f" using caches_nth(3,4) [OF ok t, of cls] cls by auto
  have p1: "AethAlloc_pop_block t cls h = (None, h1)"
    using e by (simp add: AethAlloc_pop_block_def Magazine_pop_def Magazine_is_empty_def h1_def)
  have ok1: "caches_ok h1" "length (caches h1) = length (caches h)"
    unfolding h1_def using caches_ok_set(1) [OF ok t _ good(1)] cls by auto
  have f1: "free_mag t cls h1 = ?f" unfolding h1_def using ok t cls by (simp add: cache_simps)
  have ne: "\<not> Magazine_is_empty ?f" using l good(2) by (simp add: Magazine_is_empty_iff mag_good_def)
  have s: "alloc_mag t cls (AethAlloc_swap_mags t cls h1) = ?f"
    unfolding AethAlloc_swap_mags_def using ok1 t cls f1 caches_ok_set(1) [OF ok1(1) _ _ good(2), of t cls]
    by (simp add: cache_simps)
  obtain m' where "Magazine_pop ?f = (Some b, m')" using Magazine_pop_Some [OF _ l] good(2) by (auto simp: mag_good_def)
  then have "AethAlloc_pop_block t cls (AethAlloc_swap_mags t cls h1) =
      (Some b, set_alloc_mag t cls m' (AethAlloc_swap_mags t cls h1))" by (simp add: AethAlloc_pop_block_def s)
  then show ?thesis using p1 f1 ne by (simp add: AethAlloc_alloc_cached_def AethAlloc_hit_def Let_def CACHE_HEADER_SIZE_def)
qed

text \<open>
  C13. Cache reuse is last-in first-out. If a thread with no block at hand in its allocation magazine frees a
  cached block while its free magazine has room, its next allocation in the same size class returns that
  very block.
\<close>

theorem free_then_alloc_reuses:
  assumes "heap_inv L h" and "(p, n) \<in># L" and "n \<le> MAX_CACHE_SIZE" and "read_u32 (mem (space h)) (p - 16) \<noteq> LARGE_MAGIC"
    and "t < length (caches h)" and "size_to_class n = Some cls"
    and "Magazine_is_empty (alloc_mag t cls h)" and "\<not> Magazine_is_full (free_mag t cls h)"
    and "0 < lay_size lay" "lay_size lay \<le> MAX_CACHE_SIZE" "lay_align lay \<le> 8" and "size_to_class (lay_size lay) = Some cls"
  shows "fst (AethAlloc_alloc K t lay (AethAlloc_dealloc K t p h)) = p"
proof -
  from assms(1) obtain fs es G where L: "L = image_mset user_of G" and inv: "heap_inv0 fs es G {#} h" by (auto simp: heap_inv_def)
  from live_owned [OF L assms(2)] obtain g where g: "g \<in># G" "user_of g = (p, n)" .
  note hd = inv0_parts(4) [OF inv g(1)]
  obtain b where b: "g = OSmall b n" "p = b + 16" using g(2) hd assms(4) by (cases g) auto
  have n: "0 < n" "n \<le> 65536" using hd b(1) by (auto simp: MAX_CACHE_SIZE_def)
  have cls: "cls < 13" using size_class_spec [OF n] assms(6) by auto
  note ok = inv0_parts(1) [OF inv]
  let ?f = "free_mag t cls h"
  have good: "mag_good ?f" using caches_nth(4) [OF ok assms(5)] cls by simp
  have "mag_count ?f < 64" using assms(8) by (simp add: Magazine_is_full_def MAGAZINE_CAPACITY_def)
  from Magazine_push_ok [OF _ this, of b] good obtain m' where
    m': "Magazine_push b ?f = (True, m')" "mag_ok m'" "mag_list m' = mag_list ?f @ [b]" by (auto simp: mag_good_def)
  define h1 where "h1 = set_free_mag t cls m' h"
  define h2 where "h2 = count_free t h1"
  have good': "mag_good m'" by (rule mag_good_append [OF good m'(2,3)]) (use hd b(1) in auto)
  have ok1: "caches_ok h1" "length (caches h1) = length (caches h)"
    unfolding h1_def using caches_ok_set(2) [OF ok assms(5) _ good'] cls by auto
  have m1: "free_mag t cls h1 = m'" "alloc_mag t cls h1 = alloc_mag t cls h"
    unfolding h1_def using ok assms(5) cls by (simp_all add: cache_simps)
  have sh: "same_heap h1 h2" by (simp add: h2_def)
  have "AethAlloc_dealloc K t p h = h2"
    using dealloc_small_eq [of h b n cls K t] hd b assms(6) m'(1)
    by (simp add: AethAlloc_dealloc_cached_def AethAlloc_push_free_def h1_def h2_def del: header_ok.simps)
  moreover have "caches_ok h2" "t < length (caches h2)"
    using ok1 assms(5) same_heap_mags [OF sh] by (simp_all add: caches_ok_def)
  moreover have "alloc_mag t cls h2 = alloc_mag t cls h" "free_mag t cls h2 = m'"
    using same_heap_mags(4,5) [OF sh, of t cls] m1 ok1(2) assms(5) by simp_all
  moreover have "AethAlloc_alloc K t lay h2 = AethAlloc_alloc_cached K t (lay_size lay) (max (round_up_pow2 (lay_size lay)) 16) cls h2"
    using size_class_spec [of "lay_size lay"] assms(9-12) by (auto simp: AethAlloc_alloc_def MAX_CACHE_SIZE_def Let_def)
  ultimately show ?thesis using alloc_after_swap [of h2 t cls] cls assms(7) m'(3) b(2) by simp
qed

theorem free_then_alloc_reuses_witness:
  "fst (AethAlloc_alloc (first_fit 9) 1 demo_layout (AethAlloc_dealloc (first_fit 9) 1 4112 demo_heap)) = 4112"
proof -
  have "Magazine_is_empty (alloc_mag 1 8 demo_heap)" "\<not> Magazine_is_full (free_mag 1 8 demo_heap)"
    by (simp_all add: demo_heap_def alloc_mag_def free_mag_def get_thread_cache_def ThreadCache_new_def NUM_SIZE_CLASSES_def
      Magazine_new_def Magazine_is_empty_def Magazine_is_full_def MAGAZINE_CAPACITY_def)
  moreover have "read_u32 (mem (space demo_heap)) (4112 - 16) \<noteq> LARGE_MAGIC"
    by (simp add: demo_heap_def heap_new_def read_u32_of_usize LARGE_MAGIC_def)
  moreover have "heap_inv {#(4112, 4096)#} demo_heap" "1 < length (caches demo_heap)"
    using demo_heap_inv by (simp_all add: heap_inv_at_def)
  moreover have "lay_size demo_layout = 4096" "lay_align demo_layout = 8" by (simp_all add: demo_layout_def)
  ultimately show ?thesis
    using free_then_alloc_reuses [of "{#(4112, 4096)#}" demo_heap 4112 4096 1 8 demo_layout "first_fit 9"]
    by (simp add: demo_class MAX_CACHE_SIZE_def)
qed

end
