(* ===== verification/SimpleProps.thy ===== *)
theory SimpleProps
  imports SimpleContract AllocProps
begin

text \<open>
  What the program may rely on when it uses the global allocator built without magazines, over whole runs of any number of threads.
\<close>

lemma simple_block:
  assumes "simple_inv threads L h" and "(p, n) \<in># L"
  shows "p mod 16 = 0 \<and> p < 2 ^ 63 \<and> get_alloc_size p (s_mem h) = n"
proof -
  from assms(1) obtain fs G where G: "L = image_mset user_of G" and inv: "s_inv0 fs G {#} h" by (rule simple_invE)
  note l = s_inv0D(3) [OF inv]
  from live_owned [OF G assms(2)] obtain g where g: "g \<in># G" "user_of g = (p, n)" .
  note geo = owned_geometry [OF ledgerD(1) [OF l g(1)] g(2)]
  have "placed (s_space h) (ext_of g)" by (rule ledgerD(3) [OF l]) (use g(1) in \<open>simp add: ledger_ext_def\<close>)
  moreover have "p \<in> ext_of g" using geo(1,5) by auto
  ultimately have "p < 2 ^ 63" unfolding placed_def by (metis greaterThanLessThan_iff subsetD)
  then show ?thesis
    using ledger_live(2) [OF l G assms(2)] get_alloc_size_owned [OF ledgerD(1) [OF l g(1)] g(2)] by (simp add: s_mem_def)
qed

context kernel
begin

lemma simple_run_inv:
  assumes "heap_run (aeth_valid threads) (\<lambda>(t, lay). lay_size lay) (simple_alloc K) (\<lambda>t. t < threads) (simple_dealloc K) simple_poke
    ({#}, sheap_new s threads) es (L, h)"
  shows "simple_inv threads L h"
  using simple.run_inv [OF assms] simple_inv_new by simp

end

text \<open>
  C14. Soundness of the build with simple caches. Any number of threads start with empty lists and allocate with any valid
  layouts, free blocks of the program on any thread and write into blocks they hold, in any
  interleaving of whole operations. Then the blocks the program holds never overlap, all lie in mapped memory at
  multiples of 16, and \<open>get_alloc_size\<close> returns for each of them the size that was requested.
\<close>

theorem simple_run_sound:
  assumes "kernel K"
    and "heap_run (aeth_valid threads) (\<lambda>(t, lay). lay_size lay) (simple_alloc K) (\<lambda>t. t < threads) (simple_dealloc K) simple_poke
      ({#}, sheap_new s threads) es (L, h)"
  shows "exclusive (extents L) \<and> (\<forall>(p, n) \<in># L. 0 < p \<and> p mod 16 = 0 \<and> {p..<p + n} \<subseteq> mapped (s_space h) \<and> get_alloc_size p (s_mem h) = n)"
proof -
  note inv = kernel.simple_run_inv [OF assms]
  from inv obtain fs G where g: "L = image_mset user_of G" "s_inv0 fs G {#} h" by (rule simple_invE)
  show ?thesis using ledger_live [OF s_inv0D(3) [OF g(2)] g(1)] simple_block [OF inv] by auto
qed

lemmas simple_eval = Simple_alloc_def Simple_alloc_cached_def Simple_miss_def Simple_fresh_block_def take_local_def
  Simple_dealloc_def Simple_dealloc_cached_def flush_excess_def s_count_free_def push_local_def
  local_head_def local_count_def set_local_def global_head_def s_bump_def s_flush_def maybe_flush_def s_write_def s_mem_def
  read_LargeAllocHeader_def read_PageHeader_def Let_def

lemmas sheap_eval = sheap_new_def SimpleCache_new_def GlobalFreeList_new_def ThreadMetrics_new_def MAX_FREE_LIST_LENGTH_def

definition demo_sheap :: sheap where
  "demo_sheap = (sheap_new (pages_to 2 (write_usize 4096 4096 (\<lambda>_. 0))) 2)\<lparr>s_caches :=
      [SimpleCache_new\<lparr>cache_metrics := ThreadMetrics_new\<lparr>t_cache_misses := 1, t_allocs := 1\<rparr>\<rparr>, SimpleCache_new]\<rparr>"

lemma demo_simple_alloc:
  "Simple_alloc (first_fit 9) 0 demo_layout (sheap_new (pages_to 0 (\<lambda>_. 0)) 2) = (4112, demo_sheap)"
  by (simp add: demo_sheap_def demo_pages demo_layout_def demo_class simple_eval const_eval sheap_eval replicate_2)

lemma demo_simple_free_alloc:
  "fst (Simple_alloc (first_fit 9) 1 demo_layout (Simple_dealloc (first_fit 9) 1 4112 demo_sheap)) = 4112"
proof -
  have "read_u32 (write_usize 4096 4096 (\<lambda>_. 0)) 4096 = 4096" by (simp add: read_u32_of_usize)
  then show ?thesis
    by (simp add: demo_sheap_def demo_layout_def demo_class simple_eval const_eval sheap_eval)
qed

definition demo_sheap3 :: sheap where
  "demo_sheap3 = snd (Simple_alloc (first_fit 9) 1 demo_layout (Simple_dealloc (first_fit 9) 1 4112 demo_sheap))"

lemma demo_simple_run:
  "heap_run (aeth_valid 2) (\<lambda>(t, lay). lay_size lay) (simple_alloc (first_fit 9)) (\<lambda>t. t < 2) (simple_dealloc (first_fit 9)) simple_poke
     ({#}, sheap_new (pages_to 0 (\<lambda>_. 0)) 2) [Alloc (0, demo_layout), Free 1 4112 4096, Alloc (1, demo_layout)]
     ({#(4112, 4096)#}, demo_sheap3)"
proof (rule heap_execI)
  let ?K = "first_fit 9" and ?h2 = "Simple_dealloc (first_fit 9) 1 4112 demo_sheap"
  have 3: "Simple_alloc ?K 1 demo_layout ?h2 = (4112, demo_sheap3)"
    using demo_simple_free_alloc by (cases "Simple_alloc ?K 1 demo_layout ?h2") (simp add: demo_sheap3_def)
  have sz: "lay_size demo_layout = 4096" by (simp add: demo_layout_def)
  show "heap_exec (aeth_valid 2) (\<lambda>(t, lay). lay_size lay) (simple_alloc ?K) (\<lambda>t. t < 2) (simple_dealloc ?K) simple_poke
      [Alloc (0, demo_layout), Free 1 4112 4096, Alloc (1, demo_layout)] ({#}, sheap_new (pages_to 0 (\<lambda>_. 0)) 2) =
      Some ({#(4112, 4096)#}, demo_sheap3)"
    using 3 by (simp add: aeth_valid_def demo_layout_valid simple_alloc_def simple_dealloc_def demo_simple_alloc sz)
qed

theorem simple_run_sound_witness:
  "exclusive (extents {#(4112, 4096)#}) \<and> {4112..<4112 + 4096} \<subseteq> mapped (s_space demo_sheap3) \<and> get_alloc_size 4112 (s_mem demo_sheap3) = 4096"
  using simple_run_sound [OF ff.kernel_axioms demo_simple_run] by simp

text \<open>
  C15. The counts of the simple cache are exact and bounded. After any run, the list of every thread and class
  has exactly \<open>counts[class]\<close> blocks, they are distinct, multiples of 16 and disjoint from everything the program holds, and there are fewer than
  4096 of them: the excess has been moved to the global list.
\<close>

theorem simple_lists_bounded:
  assumes "kernel K"
    and "heap_run (aeth_valid threads) (\<lambda>(t, lay). lay_size lay) (simple_alloc K) (\<lambda>t. t < threads) (simple_dealloc K) simple_poke
      ({#}, sheap_new s threads) es (L, h)"
    and "t < threads" and "c < 13"
  shows "\<exists>bs. chain (link_of (s_mem h)) (local_head t c h) bs \<and> length bs = local_count t c h \<and> local_count t c h < MAX_FREE_LIST_LENGTH \<and>
    distinct bs \<and> (\<forall>b \<in> set bs. b mod 16 = 0 \<and> (\<forall>(p, n) \<in># L. {b..<b + class_bytes c + 16} \<inter> {p..<p + n} = {}))"
proof -
  from kernel.simple_run_inv [OF assms(1,2)] obtain fs G where
    g: "threads_of h = threads" "L = image_mset user_of G" "s_inv0 fs G {#} h" "s_bounded (threads_of h) fs" by (rule simple_invE)
  show ?thesis using s_list_view [OF g(3,4,2)] assms(3,4) g(1) by simp
qed

theorem simple_lists_bounded_witness:
  "\<exists>bs. chain (link_of (s_mem demo_sheap3)) (local_head 1 8 demo_sheap3) bs \<and> length bs < 4096"
  using simple_lists_bounded [OF ff.kernel_axioms demo_simple_run, of 1 8] by (force simp: MAX_FREE_LIST_LENGTH_def)

end
