(* ===== verification/Builds.thy ===== *)
theory Builds
  imports Layout_Contract SimpleProps
begin

text \<open>
  The two builds of the global allocator, with and without the feature \<open>magazine-caching\<close>, as implementations of the trait
  \<open>GlobalAlloc\<close>, and the proof that each keeps the contract the C interface relies on.
\<close>

definition magazine_build :: "syscalls \<Rightarrow> heap global_alloc" where
  "magazine_build K = \<lparr>ga_alloc = AethAlloc_alloc K, ga_dealloc = AethAlloc_dealloc K, ga_mem = \<lambda>h. mem (space h), ga_write = write_mem\<rparr>"

definition simple_build :: "syscalls \<Rightarrow> sheap global_alloc" where
  "simple_build K = \<lparr>ga_alloc = Simple_alloc K, ga_dealloc = Simple_dealloc K, ga_mem = s_mem, ga_write = s_write\<rparr>"

lemma build_sel [simp]:
  "ga_alloc (magazine_build K) = AethAlloc_alloc K" "ga_dealloc (magazine_build K) = AethAlloc_dealloc K"
  "ga_mem (magazine_build K) = (\<lambda>h. mem (space h))" "ga_write (magazine_build K) = write_mem"
  "ga_alloc (simple_build K) = Simple_alloc K" "ga_dealloc (simple_build K) = Simple_dealloc K"
  "ga_mem (simple_build K) = s_mem" "ga_write (simple_build K) = s_write"
  by (simp_all add: magazine_build_def simple_build_def)

lemma build_ops:
  "opt_alloc (magazine_build K) = aeth_alloc K" "opt_dealloc (magazine_build K) = aeth_dealloc K" "opt_poke (magazine_build K) = aeth_poke"
  "opt_alloc (simple_build K) = simple_alloc K" "opt_dealloc (simple_build K) = simple_dealloc K" "opt_poke (simple_build K) = simple_poke"
  by (auto simp: opt_alloc_def opt_dealloc_def opt_poke_def aeth_alloc_def aeth_dealloc_def aeth_poke_def simple_alloc_def
    simple_dealloc_def simple_poke_def fun_eq_iff)

subsection \<open>Magazines\<close>

lemma live_below:
  assumes "heap_inv L h" and "(p, n) \<in># L"
  shows "p < 2 ^ 63"
proof -
  from assms(1) obtain fs es G where L: "L = image_mset user_of G" and inv: "heap_inv0 fs es G {#} h" by (auto simp: heap_inv_def)
  from live_owned [OF L assms(2)] obtain g where g: "g \<in># G" "user_of g = (p, n)" .
  note geo = owned_geometry [OF inv0_parts(4) [OF inv g(1)] g(2)]
  have "placed (space h) (ext_of g)" by (rule inv0_parts(6) [OF inv]) (use g(1) in \<open>simp add: all_ext_def\<close>)
  moreover have "p \<in> ext_of g" using geo(1,5) by auto
  ultimately show "p < 2 ^ 63" unfolding placed_def by (metis greaterThanLessThan_iff subsetD)
qed

lemma heap_inv_write:
  assumes "heap_inv_at threads L h" and "(p, n) \<in># L" and "\<And>x. \<not> (p \<le> x \<and> x < p + n) \<Longrightarrow> f (mem (space h)) x = mem (space h) x"
  shows "heap_inv_at threads L (write_mem f h)"
proof -
  from assms(1) obtain fs es G where G: "L = image_mset user_of G" and inv: "heap_inv0 fs es G {#} h"
    by (auto simp: heap_inv_at_def heap_inv_def)
  from live_owned [OF G assms(2)] obtain g where g: "g \<in># G" "user_of g = (p, n)" .
  have "heap_inv0 fs es G {#} (write_mem f h)" by (rule inv0_user_write(1) [OF inv g]) (rule assms(3))
  moreover have "caches (write_mem f h) = caches h" by (simp add: write_mem_def)
  ultimately show ?thesis using assms(1) G by (auto simp: heap_inv_at_def heap_inv_def)
qed

lemma Layout_valid: "valid_layout lay \<Longrightarrow> Layout_from_size_align (lay_size lay) (lay_align lay) = Some lay"
  by (simp add: valid_layout_def)

context kernel
begin

lemma magazine_aligned:
  assumes "heap_inv_at threads L h" and "t < threads" and "valid_layout lay" and "AethAlloc_alloc K t lay h = (p, h')"
  shows "p mod lay_align lay = 0"
proof -
  from assms(1) obtain fs es G where inv: "heap_inv0 fs es G {#} h" and t: "length (caches h) = threads"
    by (auto simp: heap_inv_at_def heap_inv_def)
  have "alloc_outcome G h (lay_size lay) (lay_align lay) p h'"
    by (rule alloc_outcome_ok [OF inv _ Layout_valid [OF assms(3)] assms(4)]) (simp add: assms(2) t)
  then show ?thesis using alloc_outcome_live(2) by (cases "p = 0") auto
qed

end

sublocale kernel \<subseteq> magazine: layout_allocator "magazine_build K" "heap_inv_at threads" threads "\<lambda>h. mapped (space h)" for threads
proof (rule layout_allocator.intro)
  show "heap_allocator (heap_inv_at threads) (aeth_valid threads) (\<lambda>(t, lay). lay_size lay) (opt_alloc (magazine_build K)) (\<lambda>t. t < threads)
      (opt_dealloc (magazine_build K)) (opt_poke (magazine_build K)) (ga_mem (magazine_build K)) (\<lambda>h. mapped (space h))"
    using aeth.heap_allocator_axioms by (simp add: build_ops)
  show "layout_allocator_axioms (magazine_build K) (heap_inv_at threads) threads"
  proof (unfold_locales, goal_cases)
    case (1 L h t lay p h')
    then show ?case using magazine_aligned by simp
  next
    case (2 lay t h)
    then show ?case by (simp add: AethAlloc_alloc_def)
  next
    case (3 f h)
    then show ?case by (simp add: write_mem_def)
  next
    case (4 L h p n f)
    then show ?case using heap_inv_write [of threads L h p n f] by simp
  next
    case (5 L h p n)
    then show ?case using heap_inv_live(2) [of L h p n] live_below [of L h p n] get_alloc_size_live [of L h p n] by (simp add: heap_inv_at_def)
  qed
qed

subsection \<open>Simple caches\<close>

context kernel
begin

lemma simple_aligned:
  assumes "simple_inv threads L h" and "t < threads" and "valid_layout lay" and "Simple_alloc K t lay h = (p, h')"
  shows "p mod lay_align lay = 0"
proof -
  from assms(1) obtain fs G where g: "threads_of h = threads" "s_inv0 fs G {#} h" "s_bounded (threads_of h) fs" by (rule simple_invE)
  have "s_outcome G h (lay_size lay) (lay_align lay) p h'"
    by (rule s_alloc_outcome [OF g(2,3) _ Layout_valid [OF assms(3)] assms(4)]) (simp add: assms(2) g(1))
  then show ?thesis by (cases rule: s_outcome_cases) simp_all
qed

end

sublocale kernel \<subseteq> simple_caches: layout_allocator "simple_build K" "simple_inv threads" threads "\<lambda>h. mapped (s_space h)" for threads
proof (rule layout_allocator.intro)
  show "heap_allocator (simple_inv threads) (aeth_valid threads) (\<lambda>(t, lay). lay_size lay) (opt_alloc (simple_build K)) (\<lambda>t. t < threads)
      (opt_dealloc (simple_build K)) (opt_poke (simple_build K)) (ga_mem (simple_build K)) (\<lambda>h. mapped (s_space h))"
    using simple.heap_allocator_axioms by (simp add: build_ops)
  show "layout_allocator_axioms (simple_build K) (simple_inv threads) threads"
  proof (unfold_locales, goal_cases)
    case (1 L h t lay p h')
    then show ?case using simple_aligned by simp
  next
    case (2 lay t h)
    then show ?case by (simp add: Simple_alloc_def)
  next
    case (3 f h)
    then show ?case by (simp add: s_write_def s_mem_def)
  next
    case (4 L h p n f)
    then show ?case using simple_write_inv [of threads L h p n f] by simp
  next
    case (5 L h p n)
    then show ?case using simple_block by simp
  qed
qed

end
