(* ===== verification/Abi.thy ===== *)
theory Abi
  imports Builds
begin

text \<open>
  The C interface, \<open>aethalloc-abi/src/lib.rs\<close>: \<open>malloc\<close>, \<open>free\<close>, \<open>calloc\<close>, \<open>realloc\<close>, \<open>aligned_alloc\<close>
  and \<open>posix_memalign\<close> over a global allocator \<open>A\<close>, each called on a thread \<open>t\<close>. Null is the address 0. The laws of the functions are
  proved for every allocator that keeps the contract, and stated for the default build with magazines.
\<close>

record 'h abi =
  ALLOCATOR :: 'h
  INITIALIZED :: bool

definition on_heap :: "('h \<Rightarrow> addr \<times> 'h) \<Rightarrow> 'h abi \<Rightarrow> addr \<times> 'h abi" where
  "on_heap f a = (case f (ALLOCATOR a) of (p, h') \<Rightarrow> (p, a\<lparr>ALLOCATOR := h'\<rparr>))"

definition store :: "'h global_alloc \<Rightarrow> (mem \<Rightarrow> mem) \<Rightarrow> 'h abi \<Rightarrow> 'h abi" where
  "store A f a = a\<lparr>ALLOCATOR := ga_write A f (ALLOCATOR a)\<rparr>"

definition bytes :: "'h global_alloc \<Rightarrow> 'h abi \<Rightarrow> mem" where
  "bytes A a = ga_mem A (ALLOCATOR a)"

definition ensure_init :: "'h abi \<Rightarrow> 'h abi" where
  "ensure_init a = (if \<not> INITIALIZED a then a\<lparr>INITIALIZED := True\<rparr> else a)"

definition malloc :: "'h global_alloc \<Rightarrow> nat \<Rightarrow> usize \<Rightarrow> 'h abi \<Rightarrow> addr \<times> 'h abi" where
  "malloc A t sz a0 =
     (let a = ensure_init a0 in
      if sz = 0 then (0, a)
      else case Layout_from_size_align sz 8 of
             Some l \<Rightarrow> on_heap (ga_alloc A t l) a
           | None \<Rightarrow> (0, a))"

definition free :: "'h global_alloc \<Rightarrow> nat \<Rightarrow> addr \<Rightarrow> 'h abi \<Rightarrow> 'h abi" where
  "free A t p a = (if p = 0 then a else a\<lparr>ALLOCATOR := ga_dealloc A t p (ALLOCATOR a)\<rparr>)"

definition calloc :: "'h global_alloc \<Rightarrow> nat \<Rightarrow> usize \<Rightarrow> usize \<Rightarrow> 'h abi \<Rightarrow> addr \<times> 'h abi" where
  "calloc A t nmemb sz a =
     (case checked_mul nmemb sz of
        None \<Rightarrow> (0, a)
      | Some tot \<Rightarrow>
          (case malloc A t tot a of
             (p, a1) \<Rightarrow> if p \<noteq> 0 then (p, store A (write_bytes p 0 tot) a1) else (p, a1)))"

definition realloc :: "'h global_alloc \<Rightarrow> nat \<Rightarrow> addr \<Rightarrow> usize \<Rightarrow> 'h abi \<Rightarrow> addr \<times> 'h abi" where
  "realloc A t p sz a =
     (if p = 0 then malloc A t sz a
      else if sz = 0 then (0, free A t p a)
      else let old_size = get_alloc_size p (bytes A a) in
        case malloc A t sz a of
          (new_ptr, a1) \<Rightarrow>
            if new_ptr \<noteq> 0
            then let copy_size = min old_size sz
                 in (new_ptr, free A t p (store A (copy_nonoverlapping p new_ptr copy_size) a1))
            else (new_ptr, a1))"

definition aligned_alloc :: "'h global_alloc \<Rightarrow> nat \<Rightarrow> usize \<Rightarrow> usize \<Rightarrow> 'h abi \<Rightarrow> addr \<times> 'h abi" where
  "aligned_alloc A t alignment sz a =
     (if alignment = 0 \<or> \<not> is_power_of_two alignment then (0, a)
      else case Layout_from_size_align (max sz 1) alignment of
             Some l \<Rightarrow> on_heap (ga_alloc A t l) a
           | None \<Rightarrow> (0, a))"

definition EINVAL :: int where
  "EINVAL = 22"

definition ENOMEM :: int where
  "ENOMEM = 12"

definition posix_memalign :: "'h global_alloc \<Rightarrow> nat \<Rightarrow> addr \<Rightarrow> usize \<Rightarrow> usize \<Rightarrow> 'h abi \<Rightarrow> int \<times> 'h abi" where
  "posix_memalign A t memptr alignment sz a =
     (if alignment = 0 \<or> \<not> is_power_of_two alignment \<or> alignment mod 8 \<noteq> 0 then (EINVAL, a)
      else case aligned_alloc A t alignment sz a of
             (p, a1) \<Rightarrow>
               if p = 0 \<and> sz \<noteq> 0 then (ENOMEM, a1)
               else (0, store A (write_usize p memptr) a1))"

subsection \<open>Laws\<close>

lemma ensure_init_heap [simp]: "ALLOCATOR (ensure_init a) = ALLOCATOR a"
  by (simp add: ensure_init_def)

lemma store_heap [simp]: "ALLOCATOR (store A f a) = ga_write A f (ALLOCATOR a)"
  by (simp add: store_def)

lemma power_two_8: "is_power_of_two 8"
  unfolding is_power_of_two_iff by (rule exI [of _ 3]) simp

lemma malloc_refuses: "sz = 0 \<or> 2 ^ 63 - 8 < sz \<Longrightarrow> malloc A t sz a = (0, ensure_init a)"
  by (auto simp: malloc_def Layout_from_size_align_def Let_def)

context layout_allocator
begin

lemma malloc_law:
  assumes "holds L (ALLOCATOR a)" and "t < threads" and "malloc A t sz a = (p, a')"
  shows "kept L (bytes A a) (bytes A a')" and "p = 0 \<Longrightarrow> holds L (ALLOCATOR a')"
    and "p \<noteq> 0 \<Longrightarrow> holds (add_mset (p, sz) L) (ALLOCATOR a') \<and> 0 < sz"
proof -
  consider "p = 0" "ALLOCATOR a' = ALLOCATOR a"
    | l where "Layout_from_size_align sz 8 = Some l" "ga_alloc A t l (ALLOCATOR a) = (p, ALLOCATOR a')"
    using assms(3) by (auto simp: malloc_def on_heap_def Let_def split: if_splits option.splits prod.splits)
  then show "kept L (bytes A a) (bytes A a')" "p = 0 \<Longrightarrow> holds L (ALLOCATOR a')"
    "p \<noteq> 0 \<Longrightarrow> holds (add_mset (p, sz) L) (ALLOCATOR a') \<and> 0 < sz"
    by (cases; use assms(1) layout_alloc [OF assms(1,2)] in \<open>simp add: bytes_def\<close>)+
qed

lemma free_law:
  assumes "holds (add_mset (p, n) L) (ALLOCATOR a)" and "t < threads"
  shows "holds L (ALLOCATOR (free A t p a))" and "kept L (bytes A a) (bytes A (free A t p a))"
  using layout_dealloc [OF assms] holds_pos [OF assms(1), of p n] by (simp_all add: free_def bytes_def)

lemma store_law:
  assumes "holds (add_mset (p, n) L) (ALLOCATOR a)" and "\<And>x. \<not> (p \<le> x \<and> x < p + n) \<Longrightarrow> f (bytes A a) x = bytes A a x"
  shows "holds (add_mset (p, n) L) (ALLOCATOR (store A f a))" and "kept L (bytes A a) (bytes A (store A f a))"
    and "bytes A (store A f a) = f (bytes A a)"
  using write_kept [OF assms(1), of f] assms(2) by (simp_all add: bytes_def write_read)

lemma calloc_law:
  assumes "holds L (ALLOCATOR a)" and "t < threads" and r: "calloc A t nmemb sz a = (p, a')"
  shows "kept L (bytes A a) (bytes A a')" and "p = 0 \<Longrightarrow> holds L (ALLOCATOR a')"
    and "p \<noteq> 0 \<Longrightarrow> holds (add_mset (p, nmemb * sz) L) (ALLOCATOR a') \<and> 0 < nmemb * sz \<and>
      (\<forall>x. p \<le> x \<and> x < p + nmemb * sz \<longrightarrow> bytes A a' x = 0)"
proof -
  let ?n = "nmemb * sz"
  obtain q a1 where m: "malloc A t ?n a = (q, a1)" by fastforce
  note s = malloc_law [OF assms(1,2) m]
  let ?w = "store A (write_bytes q 0 ?n) a1"
  consider "p = 0" "a' = a" | "p = 0" "q = 0" "a' = a1" | "p = q" "q \<noteq> 0" "a' = ?w"
    using r m by (auto simp: calloc_def checked_mul_def split: if_splits)
  moreover have "kept L (bytes A a) (bytes A ?w)" "holds (add_mset (q, ?n) L) (ALLOCATOR ?w)" "bytes A ?w = write_bytes q 0 ?n (bytes A a1)"
    if "q \<noteq> 0"
  proof -
    have i: "holds (add_mset (q, ?n) L) (ALLOCATOR a1)" using s(3) that by simp
    note w = store_law [OF i, of "write_bytes q 0 ?n"]
    show "kept L (bytes A a) (bytes A ?w)" by (rule kept_trans [OF s(1) w(2)]) (auto simp: write_bytes_def)
    show "holds (add_mset (q, ?n) L) (ALLOCATOR ?w)" by (rule w(1)) (auto simp: write_bytes_def)
    show "bytes A ?w = write_bytes q 0 ?n (bytes A a1)" by (rule w(3)) (auto simp: write_bytes_def)
  qed
  ultimately show "kept L (bytes A a) (bytes A a')" "p = 0 \<Longrightarrow> holds L (ALLOCATOR a')"
    "p \<noteq> 0 \<Longrightarrow> holds (add_mset (p, ?n) L) (ALLOCATOR a') \<and> 0 < ?n \<and> (\<forall>x. p \<le> x \<and> x < p + ?n \<longrightarrow> bytes A a' x = 0)"
    using s assms(1) by (cases; simp add: write_bytes_def)+
qed

lemma realloc_law:
  assumes h: "holds (add_mset (p, n) L) (ALLOCATOR a)" and "t < threads" and "0 < sz" and r: "realloc A t p sz a = (q, a')"
  shows "kept L (bytes A a) (bytes A a')"
    and "q = 0 \<Longrightarrow> holds (add_mset (p, n) L) (ALLOCATOR a') \<and> kept {#(p, n)#} (bytes A a) (bytes A a')"
    and "q \<noteq> 0 \<Longrightarrow> holds (add_mset (q, sz) L) (ALLOCATOR a') \<and> (\<forall>i < min n sz. bytes A a' (q + i) = bytes A a (p + i))"
proof -
  have size: "get_alloc_size p (bytes A a) = n" "0 < p" using holds_block [OF h, of p n] holds_pos [OF h, of p n] by (simp_all add: bytes_def)
  obtain q' a1 where m: "malloc A t sz a = (q', a1)" by fastforce
  note s = malloc_law [OF h assms(2) m]
  let ?cp = "copy_nonoverlapping p q' (min n sz)"
  let ?a2 = "store A ?cp a1"
  let ?a3 = "free A t p ?a2"
  consider "q = 0" "q' = 0" "a' = a1" | "q = q'" "q' \<noteq> 0" "a' = ?a3"
    using r m size \<open>0 < sz\<close> by (auto simp: realloc_def Let_def split: if_splits)
  moreover have "kept L (bytes A a) (bytes A ?a3)" "holds (add_mset (q', sz) L) (ALLOCATOR ?a3)"
    "\<forall>i < min n sz. bytes A ?a3 (q' + i) = bytes A a (p + i)" if "q' \<noteq> 0"
  proof -
    have i1: "holds (add_mset (q', sz) (add_mset (p, n) L)) (ALLOCATOR a1)" using s(3) that by simp
    have out: "\<And>x. \<not> (q' \<le> x \<and> x < q' + sz) \<Longrightarrow> ?cp (bytes A a1) x = bytes A a1 x" by (auto simp: copy_nonoverlapping_def)
    note w = store_law [OF i1, of ?cp, OF out]
    have i2: "holds (add_mset (p, n) (add_mset (q', sz) L)) (ALLOCATOR ?a2)" using w(1) by (simp add: add_mset_commute)
    note f = free_law [OF i2 assms(2)]
    show "holds (add_mset (q', sz) L) (ALLOCATOR ?a3)" by (rule f(1))
    have k: "kept L (bytes A a) (bytes A a1)" "kept {#(p, n)#} (bytes A a) (bytes A a1)" "kept L (bytes A a1) (bytes A ?a2)"
      "kept L (bytes A ?a2) (bytes A ?a3)" "kept {#(q', sz)#} (bytes A ?a2) (bytes A ?a3)"
      using kept_addD [OF s(1)] kept_addD [OF w(2)] kept_addD [OF f(2)] by blast+
    show "kept L (bytes A a) (bytes A ?a3)" using k(1,3,4) kept_trans by blast
    show "\<forall>i < min n sz. bytes A ?a3 (q' + i) = bytes A a (p + i)"
      using keptD [OF k(5)] keptD [OF k(2)] by (simp add: w(3) copy_nonoverlapping_def)
  qed
  ultimately show "kept L (bytes A a) (bytes A a')"
    "q = 0 \<Longrightarrow> holds (add_mset (p, n) L) (ALLOCATOR a') \<and> kept {#(p, n)#} (bytes A a) (bytes A a')"
    "q \<noteq> 0 \<Longrightarrow> holds (add_mset (q, sz) L) (ALLOCATOR a') \<and> (\<forall>i < min n sz. bytes A a' (q + i) = bytes A a (p + i))"
    using s(2) kept_addD [OF s(1)] by (cases; simp)+
qed

lemma aligned_law:
  assumes "holds L (ALLOCATOR a)" and "t < threads" and r: "aligned_alloc A t al sz a = (p, a')"
  shows "kept L (bytes A a) (bytes A a')" and "p = 0 \<Longrightarrow> holds L (ALLOCATOR a')"
    and "p \<noteq> 0 \<Longrightarrow> holds (add_mset (p, max sz 1) L) (ALLOCATOR a') \<and> p mod al = 0 \<and> is_power_of_two al"
proof -
  consider "p = 0" "a' = a"
    | l where "is_power_of_two al" "Layout_from_size_align (max sz 1) al = Some l" "ga_alloc A t l (ALLOCATOR a) = (p, ALLOCATOR a')"
    using r by (auto simp: aligned_alloc_def on_heap_def split: if_splits option.splits prod.splits)
  then show "kept L (bytes A a) (bytes A a')" "p = 0 \<Longrightarrow> holds L (ALLOCATOR a')"
    "p \<noteq> 0 \<Longrightarrow> holds (add_mset (p, max sz 1) L) (ALLOCATOR a') \<and> p mod al = 0 \<and> is_power_of_two al"
    by (cases; use assms(1) layout_alloc [OF assms(1,2)] in \<open>simp add: bytes_def\<close>)+
qed

text \<open>Storing a pointer inside the block \<open>(m, k)\<close> leaves the others alone.\<close>

lemma posix_kept:
  assumes h: "holds (add_mset (m, k) L) s" and "m \<le> memptr" "memptr + 8 \<le> m + k" and "kept (add_mset (m, k) L) b b1"
  shows "kept L b (write_usize p memptr b1)"
proof -
  have "write_usize p memptr b1 x = b x" if "(q, n) \<in># L" "q \<le> x" "x < q + n" for q n x
  proof -
    have "x \<notin> {m..<m + k}" using holds_disjoint [OF h that(1)] that(2,3) by auto
    then have "write_usize p memptr b1 x = b1 x" using assms(2,3) by (intro write_le_other) auto
    then show ?thesis using keptD [OF kept_addD(2) [OF assms(4)] that] by simp
  qed
  then show ?thesis by (auto simp: kept_def)
qed

text \<open>The three outcomes of \<open>posix_memalign\<close>.\<close>

lemma posix_law:
  assumes h: "holds (add_mset (m, k) L) (ALLOCATOR a)" and "t < threads" and p8: "m \<le> memptr" "memptr + 8 \<le> m + k"
    and r: "posix_memalign A t memptr al sz a = (rc, a')"
  obtains (inval) "\<not> (is_power_of_two al \<and> al mod 8 = 0)" "rc = EINVAL" "a' = a"
  | (nomem) "is_power_of_two al" "al mod 8 = 0" "rc = ENOMEM" "sz \<noteq> 0" "holds (add_mset (m, k) L) (ALLOCATOR a')"
      "kept (add_mset (m, k) L) (bytes A a) (bytes A a')"
  | (stored) p m1 where "is_power_of_two al" "al mod 8 = 0" "rc = 0" "p < 2 ^ 63" "p mod al = 0"
      "holds (add_mset (m, k) (if p = 0 then L else add_mset (p, max sz 1) L)) (ALLOCATOR a')" "p = 0 \<Longrightarrow> sz = 0"
      "kept (add_mset (m, k) L) (bytes A a) m1" "bytes A a' = write_usize p memptr m1"
proof (cases "is_power_of_two al \<and> al mod 8 = 0")
  case False
  show thesis by (rule inval [OF False]) (use False r in \<open>auto simp: posix_memalign_def\<close>)
next
  case True
  then have al: "is_power_of_two al" "al \<noteq> 0" "al mod 8 = 0" by (auto simp: is_power_of_two_iff)
  obtain p a1 where r1: "aligned_alloc A t al sz a = (p, a1)" by fastforce
  note s = aligned_law [OF h assms(2) r1]
  show thesis
  proof (cases "p = 0 \<and> sz \<noteq> 0")
    case True
    then have "rc = ENOMEM" "a' = a1" using r al r1 by (simp_all add: posix_memalign_def)
    then show thesis using nomem al True s(1,2) by simp
  next
    case False
    define f where "f = write_usize p memptr"
    have rc: "rc = 0" "a' = store A f a1" using r al r1 False by (simp_all add: posix_memalign_def f_def split: if_splits)
    let ?M = "if p = 0 then L else add_mset (p, max sz 1) L"
    have i: "holds (add_mset (m, k) ?M) (ALLOCATOR a1)" using s(2,3) by (simp add: add_mset_commute)
    have "\<And>x. \<not> (m \<le> x \<and> x < m + k) \<Longrightarrow> f (bytes A a1) x = bytes A a1 x"
      unfolding f_def by (rule write_le_other) (use p8 in auto)
    note w = store_law [OF i, of f, OF this]
    have p63: "p < 2 ^ 63"
    proof (cases "p = 0")
      case False
      with holds_block [OF i, of p "max sz 1"] show ?thesis by simp
    qed simp
    have "p mod al = 0" using s(3) by (cases "p = 0") simp_all
    then show thesis by (rule stored [OF al(1,3) rc(1) p63 _ _ _ s(1)]) (use w rc(2) False in \<open>simp_all add: f_def\<close>)
  qed
qed

end

subsection \<open>Properties of the default build\<close>

context kernel
begin

lemma magazine_layout: "layout_allocator (magazine_build K) (heap_inv_at threads) threads (\<lambda>h. mapped (space h))"
  by (rule magazine.layout_allocator_axioms)

end

text \<open>
  C10. \<open>malloc\<close> either returns null and changes nothing the program can see, or returns a mapped block of the
  requested size, aligned to 16 bytes, whose size \<open>get_alloc_size\<close> reports; all other blocks keep their bytes.
  It returns null without touching the heap for size 0 and for sizes above 2^63 - 8.
\<close>

theorem malloc_spec:
  assumes "kernel K" and "heap_inv_at threads L (ALLOCATOR a)" and "t < threads" and "malloc (magazine_build K) t sz a = (p, a')"
  shows "(sz = 0 \<or> 2 ^ 63 - 8 < sz \<longrightarrow> p = 0 \<and> ALLOCATOR a' = ALLOCATOR a) \<and>
    kept L (mem (space (ALLOCATOR a))) (mem (space (ALLOCATOR a'))) \<and> (p = 0 \<longrightarrow> heap_inv_at threads L (ALLOCATOR a')) \<and>
    (p \<noteq> 0 \<longrightarrow> heap_inv_at threads (add_mset (p, sz) L) (ALLOCATOR a') \<and> p mod 16 = 0 \<and>
       {p..<p + sz} \<subseteq> mapped (space (ALLOCATOR a')) \<and> get_alloc_size p (mem (space (ALLOCATOR a'))) = sz)"
proof -
  note m = layout_allocator.malloc_law [OF kernel.magazine_layout [OF assms(1)] assms(2-), unfolded bytes_def build_sel]
  have "sz = 0 \<or> 2 ^ 63 - 8 < sz \<longrightarrow> p = 0 \<and> ALLOCATOR a' = ALLOCATOR a"
    using malloc_refuses [of sz "magazine_build K" t a] assms(4) by auto
  moreover have "p mod 16 = 0 \<and> {p..<p + sz} \<subseteq> mapped (space (ALLOCATOR a')) \<and> get_alloc_size p (mem (space (ALLOCATOR a'))) = sz" if "p \<noteq> 0"
    using m(3) [OF that] layout_allocator.holds_block [OF kernel.magazine_layout [OF assms(1)], of threads "add_mset (p, sz) L" "ALLOCATOR a'" p sz]
      heap_inv_live(2) [of "add_mset (p, sz) L" "ALLOCATOR a'" p sz] by (simp add: heap_inv_at_def)
  ultimately show ?thesis using m by simp
qed

definition demo_abi :: "heap abi" where
  "demo_abi = \<lparr>ALLOCATOR = heap_new (pages_to 0 (\<lambda>_. 0)) 2, INITIALIZED = False\<rparr>"

definition demo_abi1 :: "heap abi" where
  "demo_abi1 = \<lparr>ALLOCATOR = demo_heap, INITIALIZED = True\<rparr>"

lemma demo_abi_inv: "heap_inv_at 2 {#} (ALLOCATOR demo_abi)" "heap_inv_at 2 {#(4112, 4096)#} (ALLOCATOR demo_abi1)"
  using heap_inv_at_new demo_heap_inv by (simp_all add: demo_abi_def demo_abi1_def)

lemma demo_malloc: "malloc (magazine_build (first_fit 9)) 0 4096 demo_abi = (4112, demo_abi1)"
proof -
  have "Layout_from_size_align 4096 8 = Some demo_layout" by (simp add: Layout_from_size_align_def power_two_8 demo_layout_def)
  then show ?thesis by (simp add: malloc_def ensure_init_def demo_abi_def demo_abi1_def on_heap_def demo_alloc)
qed

theorem malloc_spec_witness:
  "malloc (magazine_build (first_fit 9)) 0 4096 demo_abi = (4112, demo_abi1) \<and> get_alloc_size 4112 (mem (space (ALLOCATOR demo_abi1))) = 4096"
  using malloc_spec [OF ff.kernel_axioms demo_abi_inv(1) _ demo_malloc] demo_malloc by simp

text \<open>
  \<open>free\<close> on any thread takes a live block out of the program's hands and changes no byte of any
  other block; \<open>free\<close> of null does nothing.
\<close>

theorem free_spec:
  assumes "kernel K" and "heap_inv_at threads (add_mset (p, n) L) (ALLOCATOR a)" and "t < threads"
  shows "heap_inv_at threads L (ALLOCATOR (free (magazine_build K) t p a)) \<and>
    kept L (mem (space (ALLOCATOR a))) (mem (space (ALLOCATOR (free (magazine_build K) t p a)))) \<and> free (magazine_build K) t 0 a = a"
  using layout_allocator.free_law [OF kernel.magazine_layout [OF assms(1)] assms(2-)] by (simp add: bytes_def) (simp add: free_def)

theorem free_spec_witness: "heap_inv_at 2 {#} (ALLOCATOR (free (magazine_build (first_fit 9)) 1 4112 demo_abi1))"
  using free_spec [OF ff.kernel_axioms, of 2 4112 4096 "{#}" demo_abi1 1] demo_abi_inv(2) by simp

text \<open>
  C8. \<open>calloc\<close> returns null without any effect when the product of its arguments does not fit a \<open>usize\<close>; otherwise
  it returns null or a block of exactly \<open>nmemb * size\<close> bytes that all read zero, also when the block
  was used before, and other blocks keep their bytes.
\<close>

theorem calloc_spec:
  assumes "kernel K" and "heap_inv_at threads L (ALLOCATOR a)" and "t < threads" and "calloc (magazine_build K) t nmemb sz a = (p, a')"
  shows "(2 ^ 64 \<le> nmemb * sz \<longrightarrow> p = 0 \<and> a' = a) \<and> kept L (mem (space (ALLOCATOR a))) (mem (space (ALLOCATOR a'))) \<and>
    (p = 0 \<longrightarrow> heap_inv_at threads L (ALLOCATOR a')) \<and>
    (p \<noteq> 0 \<longrightarrow> heap_inv_at threads (add_mset (p, nmemb * sz) L) (ALLOCATOR a') \<and>
       (\<forall>i < nmemb * sz. mem (space (ALLOCATOR a')) (p + i) = 0))"
proof -
  note c = layout_allocator.calloc_law [OF kernel.magazine_layout [OF assms(1)] assms(2-), unfolded bytes_def build_sel]
  have "2 ^ 64 \<le> nmemb * sz \<longrightarrow> p = 0 \<and> a' = a" using assms(4) by (auto simp: calloc_def checked_mul_def)
  then show ?thesis using c by simp
qed

theorem calloc_spec_witness:
  "\<exists>a'. calloc (magazine_build (first_fit 9)) 0 64 64 demo_abi = (4112, a') \<and> (\<forall>i < 4096. mem (space (ALLOCATOR a')) (4112 + i) = 0)"
proof -
  obtain a' where a': "calloc (magazine_build (first_fit 9)) 0 64 64 demo_abi = (4112, a')"
    by (simp add: calloc_def checked_mul_def demo_malloc)
  from calloc_spec [OF ff.kernel_axioms demo_abi_inv(1) _ a'] a' show ?thesis by simp
qed

text \<open>
  C7. \<open>realloc\<close> of a live block to a positive size: on success the old block is replaced by a block of the
  new size whose first \<open>min old new\<close> bytes are those of the old block; on failure the old
  block is still the program's, with its bytes. Other blocks keep their bytes in both cases. A null pointer makes it \<open>malloc\<close>, size 0
  makes it \<open>free\<close> with a null result.
\<close>

theorem realloc_spec:
  assumes "kernel K" and "heap_inv_at threads (add_mset (p, n) L) (ALLOCATOR a)" and "t < threads" and "0 < sz"
    and "realloc (magazine_build K) t p sz a = (q, a')"
  shows "kept L (mem (space (ALLOCATOR a))) (mem (space (ALLOCATOR a'))) \<and>
    (q = 0 \<longrightarrow> heap_inv_at threads (add_mset (p, n) L) (ALLOCATOR a') \<and> kept {#(p, n)#} (mem (space (ALLOCATOR a))) (mem (space (ALLOCATOR a')))) \<and>
    (q \<noteq> 0 \<longrightarrow> heap_inv_at threads (add_mset (q, sz) L) (ALLOCATOR a') \<and>
       (\<forall>i < min n sz. mem (space (ALLOCATOR a')) (q + i) = mem (space (ALLOCATOR a)) (p + i))) \<and>
    realloc (magazine_build K) t 0 sz a = malloc (magazine_build K) t sz a \<and>
    realloc (magazine_build K) t p 0 a = (0, free (magazine_build K) t p a)"
proof -
  have "0 < p" by (rule layout_allocator.holds_pos [OF kernel.magazine_layout [OF assms(1)] assms(2), of p n]) simp
  then have "realloc (magazine_build K) t p 0 a = (0, free (magazine_build K) t p a)"
    "realloc (magazine_build K) t 0 sz a = malloc (magazine_build K) t sz a" by (simp_all add: realloc_def)
  then show ?thesis using layout_allocator.realloc_law [OF kernel.magazine_layout [OF assms(1)] assms(2-), unfolded bytes_def build_sel] by simp
qed

theorem realloc_spec_witness:
  "\<exists>q a'. realloc (magazine_build (first_fit 9)) 1 4112 8192 demo_abi1 = (q, a') \<and>
    (q \<noteq> 0 \<longrightarrow> (\<forall>i < 4096. mem (space (ALLOCATOR a')) (q + i) = mem (space (ALLOCATOR demo_abi1)) (4112 + i)))"
proof -
  obtain q a' where r: "realloc (magazine_build (first_fit 9)) 1 4112 8192 demo_abi1 = (q, a')" by fastforce
  from realloc_spec [OF ff.kernel_axioms _ _ _ r, of 2 4096 "{#}"] demo_abi_inv(2) r show ?thesis by auto
qed

text \<open>
  C9. \<open>posix_memalign\<close> and its error codes. An alignment that is no power of two or no multiple of the pointer
  size gives 22 and no effect. Otherwise the result is 12, nothing is stored and the program holds what it
  held; or the result is 0, and the pointer stored at \<open>memptr\<close> (eight bytes inside a block the program holds) is a
  new block of \<open>max size 1\<close> bytes at a multiple of the alignment, or, only for size 0, null.
\<close>

theorem posix_memalign_spec:
  assumes "kernel K" and "heap_inv_at threads (add_mset (m, k) L) (ALLOCATOR a)" and "t < threads" and "m \<le> memptr" "memptr + 8 \<le> m + k"
    and "posix_memalign (magazine_build K) t memptr al sz a = (rc, a')"
  shows "(rc = EINVAL \<longleftrightarrow> \<not> (is_power_of_two al \<and> al mod 8 = 0)) \<and> rc \<in> {0, EINVAL, ENOMEM} \<and>
    kept L (mem (space (ALLOCATOR a))) (mem (space (ALLOCATOR a'))) \<and> (rc = EINVAL \<longrightarrow> a' = a) \<and>
    (rc = ENOMEM \<longrightarrow> heap_inv_at threads (add_mset (m, k) L) (ALLOCATOR a') \<and>
       kept {#(m, k)#} (mem (space (ALLOCATOR a))) (mem (space (ALLOCATOR a'))) \<and> sz \<noteq> 0) \<and>
    (rc = 0 \<longrightarrow> (let p = read_usize (mem (space (ALLOCATOR a'))) memptr in
       if p = 0 then sz = 0 \<and> heap_inv_at threads (add_mset (m, k) L) (ALLOCATOR a')
       else p mod al = 0 \<and> heap_inv_at threads (add_mset (p, max sz 1) (add_mset (m, k) L)) (ALLOCATOR a')))"
proof (cases rule: layout_allocator.posix_law [OF kernel.magazine_layout [OF assms(1)] assms(2-), case_names inval nomem stored])
  case inval
  then show ?thesis by (auto simp: EINVAL_def ENOMEM_def)
next
  case nomem
  then show ?thesis using kept_addD [OF nomem(6)] by (simp add: EINVAL_def ENOMEM_def bytes_def)
next
  case (stored p m1)
  have "kept L (mem (space (ALLOCATOR a))) (mem (space (ALLOCATOR a')))"
    using layout_allocator.posix_kept [OF kernel.magazine_layout [OF assms(1)] assms(2,4,5) stored(8)] stored(9) by (simp add: bytes_def)
  then show ?thesis using stored by (simp add: EINVAL_def ENOMEM_def Let_def bytes_def add_mset_commute split: if_splits)
qed

theorem posix_memalign_spec_witness:
  "\<exists>rc a'. posix_memalign (magazine_build (first_fit 99)) 1 4200 256 1000 demo_abi1 = (rc, a') \<and> rc \<noteq> EINVAL \<and>
    (rc = 0 \<longrightarrow> read_usize (mem (space (ALLOCATOR a'))) 4200 mod 256 = 0)"
proof -
  obtain rc a' where r: "posix_memalign (magazine_build (first_fit 99)) 1 4200 256 1000 demo_abi1 = (rc, a')" by fastforce
  have "is_power_of_two 256" unfolding is_power_of_two_iff by (rule exI [of _ 8]) simp
  with posix_memalign_spec [OF ff.kernel_axioms _ _ _ _ r, of 2 4112 4096 "{#}"] demo_abi_inv(2) r show ?thesis
    by (auto simp: Let_def split: if_splits)
qed

end
