(* ===== verification/C_Spec.thy ===== *)
theory C_Spec
  imports Abi
begin

text \<open>
  What a C program may expect of \<open>malloc\<close> and its relatives, as an abstract machine that knows nothing of headers, caches, pools or
  pages. Its state is the list of blocks the program holds and the bytes whose value the program knows; a call with its result is
  accepted or not. Allocation may always fail, and the address of a new block is free to choose as long as it is aligned and
  away from all other blocks. The locale of layout allocators proves that the C interface over any such allocator only
  shows behaviour the machine accepts.
\<close>

subsection \<open>The abstract machine\<close>

datatype c_call =
    C_malloc usize
  | C_calloc usize usize
  | C_realloc addr usize
  | C_free addr
  | C_aligned_alloc usize usize
  | C_posix_memalign addr usize usize
  | C_store addr byte
  | C_load addr

datatype c_result = Pointer addr | Status int addr | Loaded byte | Done

record c_heap =
  blocks :: "(addr \<times> usize) list"
  known :: "addr \<Rightarrow> byte option"

definition c_empty :: c_heap where
  "c_empty = \<lparr>blocks = [], known = \<lambda>_. None\<rparr>"

definition within :: "addr \<Rightarrow> usize \<Rightarrow> c_heap \<Rightarrow> bool" where
  "within x n H \<longleftrightarrow> list_ex (\<lambda>(q, k). q \<le> x \<and> x + n \<le> q + k) (blocks H)"

definition apart :: "addr \<Rightarrow> usize \<Rightarrow> (addr \<times> usize) list \<Rightarrow> bool" where
  "apart p n bs \<longleftrightarrow> list_all (\<lambda>(q, k). min (p + n) (q + k) \<le> max p q) bs"

definition set_known :: "addr \<Rightarrow> usize \<Rightarrow> (addr \<Rightarrow> byte option) \<Rightarrow> c_heap \<Rightarrow> c_heap" where
  "set_known p n f H = H\<lparr>known := \<lambda>x. if p \<le> x \<and> x < p + n then f x else known H x\<rparr>"

definition c_new :: "usize \<Rightarrow> addr \<Rightarrow> usize \<Rightarrow> c_heap \<Rightarrow> c_heap option" where
  "c_new al p n H =
     (if p = 0 then Some H
      else if 0 < n \<and> p mod al = 0 \<and> apart p n (blocks H)
      then Some ((set_known p n (\<lambda>_. None) H)\<lparr>blocks := (p, n) # blocks H\<rparr>)
      else None)"

definition c_drop :: "addr \<Rightarrow> usize \<Rightarrow> c_heap \<Rightarrow> c_heap" where
  "c_drop p n H = (set_known p n (\<lambda>_. None) H)\<lparr>blocks := remove1 (p, n) (blocks H)\<rparr>"

fun c_accept :: "c_call \<Rightarrow> c_result \<Rightarrow> c_heap \<Rightarrow> c_heap option" where
  "c_accept (C_malloc sz) (Pointer p) H = c_new 16 p sz H"
| "c_accept (C_calloc nmemb sz) (Pointer p) H =
     map_option (if p = 0 then id else set_known p (nmemb * sz) (\<lambda>_. Some 0)) (c_new 16 p (nmemb * sz) H)"
| "c_accept (C_realloc q sz) (Pointer p) H =
     (if q = 0 then c_new 16 p sz H
      else case map_of (blocks H) q of
             None \<Rightarrow> None
           | Some n \<Rightarrow>
               if sz = 0 then (if p = 0 then Some (c_drop q n H) else None)
               else if p = 0 then Some H
               else map_option (set_known p (min n sz) (\<lambda>x. known H (q + (x - p)))) (c_new 16 p sz (c_drop q n H)))"
| "c_accept (C_free q) Done H = (if q = 0 then Some H else map_option (\<lambda>n. c_drop q n H) (map_of (blocks H) q))"
| "c_accept (C_aligned_alloc al sz) (Pointer p) H = (if p = 0 \<or> is_power_of_two al then c_new al p (max sz 1) H else None)"
| "c_accept (C_posix_memalign m al sz) (Status rc p) H =
     (if \<not> (is_power_of_two al \<and> al mod 8 = 0) then (if rc = EINVAL then Some H else None)
      else if rc = ENOMEM \<and> sz \<noteq> 0 then Some H
      else if rc = 0 \<and> (p = 0 \<longrightarrow> sz = 0)
      then map_option (set_known m 8 (\<lambda>x. Some (write_usize p m (\<lambda>_. 0) x))) (c_new al p (max sz 1) H)
      else None)"
| "c_accept (C_store x v) Done H = (if within x 1 H then Some (set_known x 1 (\<lambda>_. Some v) H) else None)"
| "c_accept (C_load x) (Loaded v) H =
     (if within x 1 H \<and> (known H x = None \<or> known H x = Some v) then Some (set_known x 1 (\<lambda>_. Some v) H) else None)"
| "c_accept _ _ H = None"

text \<open>The obligations of the program: it frees, resizes and accesses only what it holds.\<close>

fun c_permitted :: "c_call \<Rightarrow> c_heap \<Rightarrow> bool" where
  "c_permitted (C_realloc q sz) H \<longleftrightarrow> q = 0 \<or> map_of (blocks H) q \<noteq> None"
| "c_permitted (C_free q) H \<longleftrightarrow> q = 0 \<or> map_of (blocks H) q \<noteq> None"
| "c_permitted (C_posix_memalign m al sz) H \<longleftrightarrow> within m 8 H"
| "c_permitted (C_store x v) H \<longleftrightarrow> within x 1 H"
| "c_permitted (C_load x) H \<longleftrightarrow> within x 1 H"
| "c_permitted _ H \<longleftrightarrow> True"

primrec c_accepts :: "(c_call \<times> c_result) list \<Rightarrow> c_heap \<Rightarrow> c_heap option" where
  "c_accepts [] H = Some H"
| "c_accepts (e # es) H = (case c_accept (fst e) (snd e) H of None \<Rightarrow> None | Some H' \<Rightarrow> c_accepts es H')"

lemma c_accepts_append:
  "c_accepts (es @ fs) H = (case c_accepts es H of None \<Rightarrow> None | Some H' \<Rightarrow> c_accepts fs H')"
  by (induction es arbitrary: H) (auto split: option.splits)

subsection \<open>The C interface as a machine\<close>

fun c_perform :: "'h global_alloc \<Rightarrow> nat \<Rightarrow> c_call \<Rightarrow> 'h abi \<Rightarrow> c_result \<times> 'h abi" where
  "c_perform A t (C_malloc sz) a = (case malloc A t sz a of (p, a') \<Rightarrow> (Pointer p, a'))"
| "c_perform A t (C_calloc nmemb sz) a = (case calloc A t nmemb sz a of (p, a') \<Rightarrow> (Pointer p, a'))"
| "c_perform A t (C_realloc q sz) a = (case realloc A t q sz a of (p, a') \<Rightarrow> (Pointer p, a'))"
| "c_perform A t (C_free q) a = (Done, free A t q a)"
| "c_perform A t (C_aligned_alloc al sz) a = (case aligned_alloc A t al sz a of (p, a') \<Rightarrow> (Pointer p, a'))"
| "c_perform A t (C_posix_memalign m al sz) a =
     (case posix_memalign A t m al sz a of (rc, a') \<Rightarrow> (Status rc (if rc = 0 then read_usize (bytes A a') m else 0), a'))"
| "c_perform A t (C_store x v) a = (Done, store A (\<lambda>m. m(x := v)) a)"
| "c_perform A t (C_load x) a = (Loaded (bytes A a x), a)"

text \<open>
  The runs of a program on any number of threads: at every moment some thread makes a call the program is entitled to, judged by what
  the abstract machine makes of the calls and results so far.
\<close>

inductive c_run :: "'h global_alloc \<Rightarrow> nat \<Rightarrow> 'h abi \<Rightarrow> (c_call \<times> c_result) list \<Rightarrow> 'h abi \<Rightarrow> bool" for A threads a0 where
  c_start: "c_run A threads a0 [] a0"
| c_call: "c_run A threads a0 es a \<Longrightarrow> c_accepts es c_empty = Some H \<Longrightarrow> t < threads \<Longrightarrow> c_permitted c H \<Longrightarrow>
    c_perform A t c a = (r, a') \<Longrightarrow> c_run A threads a0 (es @ [(c, r)]) a'"

text \<open>What the machine knows is true of a memory, and the machine describes a state of the C interface.\<close>

definition knows :: "c_heap \<Rightarrow> mem \<Rightarrow> bool" where
  "knows H m \<longleftrightarrow> (\<forall>x v. known H x = Some v \<longrightarrow> within x 1 H \<and> m x = v)"

definition represents :: "(live \<Rightarrow> 'h \<Rightarrow> bool) \<Rightarrow> 'h global_alloc \<Rightarrow> c_heap \<Rightarrow> 'h abi \<Rightarrow> bool" where
  "represents holds A H a \<longleftrightarrow> holds (mset (blocks H)) (ALLOCATOR a) \<and> knows H (bytes A a)"

lemma set_known_sel [simp]:
  "blocks (set_known p n f H) = blocks H"
  "known (set_known p n f H) x = (if p \<le> x \<and> x < p + n then f x else known H x)"
  by (simp_all add: set_known_def)

lemma within_iff: "within x n H \<longleftrightarrow> (\<exists>q k. (q, k) \<in> set (blocks H) \<and> q \<le> x \<and> x + n \<le> q + k)"
  by (auto simp: within_def list_ex_iff)

lemma within_sub: "within p n H \<Longrightarrow> p \<le> x \<Longrightarrow> x < p + n \<Longrightarrow> within x 1 H"
  unfolding within_iff by (elim exE conjE) (intro exI conjI, assumption, simp_all)

lemma apart_iff: "apart p n bs \<longleftrightarrow> (\<forall>q k. (q, k) \<in> set bs \<longrightarrow> {p..<p + n} \<inter> {q..<q + k} = {})"
  by (fastforce simp: apart_def list_all_iff)

lemma c_drop_blocks: "(p, n) \<in> set (blocks H) \<Longrightarrow> add_mset (p, n) (mset (blocks (c_drop p n H))) = mset (blocks H)"
  by (simp add: c_drop_def)

subsection \<open>Simulation\<close>

lemma within_set_known [simp]: "within x k (set_known p n f H) = within x k H"
  by (simp add: within_def)

lemma knows_empty: "knows c_empty m"
  by (simp add: knows_def c_empty_def)

lemma knows_kept: "knows H m \<Longrightarrow> kept (mset (blocks H)) m m' \<Longrightarrow> knows H m'"
  unfolding knows_def within_iff kept_def by fastforce

lemma knows_set:
  assumes "knows H m" and "within p n H" and "\<And>x v. p \<le> x \<Longrightarrow> x < p + n \<Longrightarrow> f x = Some v \<Longrightarrow> m' x = v"
    and "\<And>x. \<not> (p \<le> x \<and> x < p + n) \<Longrightarrow> m' x = m x"
  shows "knows (set_known p n f H) m'"
  using assms(1,3,4) within_sub [OF assms(2)] by (auto simp: knows_def split: if_splits)

lemma within_drop:
  assumes "within x 1 H" and "\<not> (p \<le> x \<and> x < p + n)"
  shows "within x 1 (c_drop p n H)"
proof -
  from assms(1) obtain q k where q: "(q, k) \<in> set (blocks H)" "q \<le> x" "x + 1 \<le> q + k" unfolding within_iff by blast
  with assms(2) have "(q, k) \<noteq> (p, n)" by auto
  with q(1) have "(q, k) \<in> set (blocks (c_drop p n H))" by (simp add: c_drop_def)
  with q(2,3) show ?thesis unfolding within_iff by blast
qed

lemma knows_drop: "knows H m \<Longrightarrow> knows (c_drop p n H) m"
  unfolding knows_def using within_drop [of _ H p n] by (auto simp: c_drop_def split: if_splits)

lemma knows_new: "knows H m \<Longrightarrow> c_new al p n H = Some H' \<Longrightarrow> knows H' m"
  by (auto simp: knows_def within_def c_new_def split: if_splits)

lemma new_within:
  "c_new al p n H = Some H' \<Longrightarrow> within x k H \<Longrightarrow> within x k H'"
  "c_new al p n H = Some H' \<Longrightarrow> p \<noteq> 0 \<Longrightarrow> k \<le> n \<Longrightarrow> within p k H'"
  by (auto simp: c_new_def within_def split: if_splits)

context layout_allocator
begin

lemma holds_16: "holds (add_mset (p, n) L) h \<Longrightarrow> p mod 16 = 0"
  using holds_block by (meson union_single_eq_member)

lemma new_accepted:
  assumes "if p = 0 then holds (mset (blocks H)) h else holds (add_mset (p, n) (mset (blocks H))) h \<and> p mod al = 0 \<and> 0 < n"
  shows "\<exists>H'. c_new al p n H = Some H' \<and> holds (mset (blocks H')) h \<and>
    mset (blocks H') = (if p = 0 then mset (blocks H) else add_mset (p, n) (mset (blocks H)))"
proof -
  have "p \<noteq> 0 \<Longrightarrow> apart p n (blocks H)" using assms holds_disjoint unfolding apart_iff by fastforce
  then show ?thesis using assms by (auto simp: c_new_def)
qed

lemma sim_malloc:
  assumes "represents holds A H a" and "t < threads" and "malloc A t sz a = (p, a')"
  shows "\<exists>H'. c_new 16 p sz H = Some H' \<and> represents holds A H' a'"
proof -
  have h: "holds (mset (blocks H)) (ALLOCATOR a)" and k: "knows H (bytes A a)" using assms(1) by (simp_all add: represents_def)
  note m = malloc_law [OF h assms(2,3)]
  have "p \<noteq> 0 \<Longrightarrow> p mod 16 = 0" using m(3) holds_16 by blast
  with m(2,3) obtain H' where H': "c_new 16 p sz H = Some H'" "holds (mset (blocks H')) (ALLOCATOR a')"
    using new_accepted [of p H "ALLOCATOR a'" sz 16] by (cases "p = 0") auto
  then show ?thesis using knows_new [OF knows_kept [OF k m(1)]] by (auto simp: represents_def)
qed

lemma sim_calloc:
  assumes "represents holds A H a" and "t < threads" and "calloc A t nmemb sz a = (p, a')"
  shows "\<exists>H'. c_accept (C_calloc nmemb sz) (Pointer p) H = Some H' \<and> represents holds A H' a'"
proof -
  have h: "holds (mset (blocks H)) (ALLOCATOR a)" and k: "knows H (bytes A a)" using assms(1) by (simp_all add: represents_def)
  note m = calloc_law [OF h assms(2,3)]
  have "p \<noteq> 0 \<Longrightarrow> p mod 16 = 0" using m(3) holds_16 by blast
  with m(2,3) obtain H' where H': "c_new 16 p (nmemb * sz) H = Some H'" "holds (mset (blocks H')) (ALLOCATOR a')"
    using new_accepted [of p H "ALLOCATOR a'" "nmemb * sz" 16] by (cases "p = 0") auto
  have k': "knows H' (bytes A a')" by (rule knows_new [OF knows_kept [OF k m(1)] H'(1)])
  have "knows (set_known p (nmemb * sz) (\<lambda>_. Some 0) H') (bytes A a')" if "p \<noteq> 0"
    by (rule knows_set [OF k' new_within(2) [OF H'(1) that order_refl]]) (use m(3) [OF that] in auto)
  then show ?thesis using H' k' by (auto simp: represents_def)
qed

lemma sim_free:
  assumes "represents holds A H a" and "t < threads" and "(q, n) \<in> set (blocks H)"
  shows "represents holds A (c_drop q n H) (free A t q a)"
proof -
  have h: "holds (add_mset (q, n) (mset (blocks (c_drop q n H)))) (ALLOCATOR a)" and k: "knows H (bytes A a)"
    using assms(1) c_drop_blocks [OF assms(3)] by (simp_all add: represents_def)
  note f = free_law [OF h assms(2)]
  show ?thesis unfolding represents_def using f(1) knows_kept [OF knows_drop [OF k] f(2)] by blast
qed

lemma sim_realloc:
  assumes "represents holds A H a" and "t < threads" and "map_of (blocks H) q = Some n" and "0 < sz" "q \<noteq> 0" and "realloc A t q sz a = (p, a')"
  shows "\<exists>H'. c_accept (C_realloc q sz) (Pointer p) H = Some H' \<and> represents holds A H' a'"
proof -
  let ?D = "c_drop q n H"
  have b: "add_mset (q, n) (mset (blocks ?D)) = mset (blocks H)" by (rule c_drop_blocks [OF map_of_SomeD [OF assms(3)]])
  have h: "holds (add_mset (q, n) (mset (blocks ?D))) (ALLOCATOR a)" and k: "knows H (bytes A a)" using assms(1) b by (simp_all add: represents_def)
  note r = realloc_law [OF h assms(2,4,6)]
  show ?thesis
  proof (cases "p = 0")
    case True
    have "kept (mset (blocks H)) (bytes A a) (bytes A a')" using r(1) r(2) [OF True] unfolding b [symmetric] by (auto simp: kept_def)
    then show ?thesis using True r(2) b assms(3-5) knows_kept [OF k] by (simp add: represents_def)
  next
    case False
    then have "p mod 16 = 0" using r(3) holds_16 by blast
    then obtain H' where H': "c_new 16 p sz ?D = Some H'" "holds (mset (blocks H')) (ALLOCATOR a')"
      using new_accepted [of p ?D "ALLOCATOR a'" sz 16] r(3) [OF False] False assms(4) by auto
    have k': "knows H' (bytes A a')" by (rule knows_new [OF knows_kept [OF knows_drop [OF k] r(1)] H'(1)])
    have v: "bytes A a' x = v" if "p \<le> x" "x < p + min n sz" "known H (q + (x - p)) = Some v" for x v
    proof -
      define i where "i = x - p"
      have i: "x = p + i" "i < min n sz" using that(1,2) by (auto simp: i_def)
      with r(3) [OF False] have "bytes A a' x = bytes A a (q + i)" by simp
      then show ?thesis using k that(3) by (auto simp: knows_def i_def)
    qed
    have "knows (set_known p (min n sz) (\<lambda>x. known H (q + (x - p))) H') (bytes A a')"
      by (rule knows_set [OF k' new_within(2) [OF H'(1) False]]) (use v in auto)
    then show ?thesis using H' False assms(3-5) by (simp add: represents_def)
  qed
qed

lemma sim_aligned:
  assumes "represents holds A H a" and "t < threads" and "aligned_alloc A t al sz a = (p, a')"
  shows "\<exists>H'. c_accept (C_aligned_alloc al sz) (Pointer p) H = Some H' \<and> represents holds A H' a'"
proof -
  have h: "holds (mset (blocks H)) (ALLOCATOR a)" and k: "knows H (bytes A a)" using assms(1) by (simp_all add: represents_def)
  note m = aligned_law [OF h assms(2,3)]
  obtain H' where H': "c_new al p (max sz 1) H = Some H'" "holds (mset (blocks H')) (ALLOCATOR a')"
    using new_accepted [of p H "ALLOCATOR a'" "max sz 1" al] m(2,3) by (cases "p = 0") (auto simp: less_max_iff_disj)
  then show ?thesis using m(3) knows_new [OF knows_kept [OF k m(1)]] by (auto simp: represents_def)
qed

lemma sim_posix:
  assumes rep: "represents holds A H a" and "t < threads" and w: "within memptr 8 H" and r: "posix_memalign A t memptr al sz a = (rc, a')"
  shows "\<exists>H'. c_accept (C_posix_memalign memptr al sz) (Status rc (if rc = 0 then read_usize (bytes A a') memptr else 0)) H = Some H' \<and>
    represents holds A H' a'"
proof -
  from w obtain m k where mk: "(m, k) \<in> set (blocks H)" "m \<le> memptr" "memptr + 8 \<le> m + k" unfolding within_iff by blast
  define L where "L = mset (blocks (c_drop m k H))"
  have b: "mset (blocks H) = add_mset (m, k) L" using c_drop_blocks [OF mk(1)] by (simp add: L_def)
  have h: "holds (add_mset (m, k) L) (ALLOCATOR a)" and kn: "knows H (bytes A a)" using rep b by (simp_all add: represents_def)
  show ?thesis
  proof (cases rule: posix_law [OF h assms(2) mk(2,3) r, case_names inval nomem stored])
    case inval
    then show ?thesis using rep by (auto simp: EINVAL_def)
  next
    case nomem
    then show ?thesis using b knows_kept [OF kn] by (simp add: represents_def ENOMEM_def)
  next
    case (stored p m1)
    have p: "read_usize (bytes A a') memptr = p" using stored(4,9) by simp
    have "if p = 0 then holds (mset (blocks H)) (ALLOCATOR a')
        else holds (add_mset (p, max sz 1) (mset (blocks H))) (ALLOCATOR a') \<and> p mod al = 0 \<and> 0 < max sz 1"
      using stored(5,6) b by (simp add: add_mset_commute less_max_iff_disj split: if_splits)
    from new_accepted [OF this] obtain H' where H': "c_new al p (max sz 1) H = Some H'" "holds (mset (blocks H')) (ALLOCATOR a')" by blast
    have "knows H' m1" using knows_new [OF knows_kept [OF kn] H'(1)] stored(8) b by simp
    then have "knows (set_known memptr 8 (\<lambda>x. Some (write_usize p memptr (\<lambda>_. 0) x)) H') (bytes A a')"
      by (rule knows_set [OF _ new_within(1) [OF H'(1) w]]) (use stored(9) write_le_inside [of memptr _ 8] in \<open>auto intro: write_le_other\<close>)
    then show ?thesis using stored H' p by (simp add: represents_def ENOMEM_def)
  qed
qed

lemma sim_access:
  assumes rep: "represents holds A H a" and w: "within x 1 H"
  shows "represents holds A (set_known x 1 (\<lambda>_. Some v) H) (store A (\<lambda>m. m(x := v)) a)"
    and "represents holds A (set_known x 1 (\<lambda>_. Some (bytes A a x)) H) a"
    and "known H x = None \<or> known H x = Some (bytes A a x)"
proof -
  have h: "holds (mset (blocks H)) (ALLOCATOR a)" and k: "knows H (bytes A a)" using rep by (simp_all add: represents_def)
  from w obtain p n where p: "(p, n) \<in> set (blocks H)" "p \<le> x" "x + 1 \<le> p + n" unfolding within_iff by blast
  have "holds (mset (blocks H)) (ga_write A (\<lambda>m. m(x := v)) (ALLOCATOR a))"
    by (rule write_holds [OF h, of p n]) (use p in auto)
  moreover have "knows (set_known x 1 (\<lambda>_. Some v) H) ((bytes A a)(x := v))" by (rule knows_set [OF k w]) auto
  ultimately show "represents holds A (set_known x 1 (\<lambda>_. Some v) H) (store A (\<lambda>m. m(x := v)) a)"
    by (simp add: represents_def bytes_def write_read fun_upd_def)
  have "knows (set_known x 1 (\<lambda>_. Some (bytes A a x)) H) (bytes A a)" by (rule knows_set [OF k w]) (auto simp: less_Suc_eq)
  then show "represents holds A (set_known x 1 (\<lambda>_. Some (bytes A a x)) H) a" using h by (simp add: represents_def)
  show "known H x = None \<or> known H x = Some (bytes A a x)" using k by (cases "known H x") (auto simp: knows_def)
qed

lemma c_simulation:
  assumes "represents holds A H a" and "t < threads" and "c_permitted c H" and "c_perform A t c a = (r, a')"
  shows "\<exists>H'. c_accept c r H = Some H' \<and> represents holds A H' a'"
proof (cases c)
  case (C_malloc sz)
  then show ?thesis using assms(4) sim_malloc [OF assms(1,2)] by (auto split: prod.splits)
next
  case (C_calloc nmemb sz)
  then show ?thesis using assms(4) sim_calloc [OF assms(1,2)] by (auto simp del: c_accept.simps split: prod.splits)
next
  case (C_realloc q sz)
  obtain p a1 where r: "realloc A t q sz a = (p, a1)" by fastforce
  with C_realloc assms(4) have e: "r = Pointer p" "a' = a1" by simp_all
  consider "q = 0" | n where "q \<noteq> 0" "sz = 0" "map_of (blocks H) q = Some n" | n where "q \<noteq> 0" "0 < sz" "map_of (blocks H) q = Some n"
    using assms(3) C_realloc by auto
  then show ?thesis
  proof cases
    case 1
    then have "malloc A t sz a = (p, a1)" using r by (simp add: realloc_def)
    with 1 show ?thesis using sim_malloc [OF assms(1,2)] C_realloc e by simp
  next
    case 2
    then have "p = 0" "a1 = free A t q a" using r by (simp_all add: realloc_def)
    with 2 show ?thesis using sim_free [OF assms(1,2) map_of_SomeD [OF 2(3)]] C_realloc e by simp
  next
    case 3
    show ?thesis using sim_realloc [OF assms(1,2) 3(3,2,1) r] C_realloc e by simp
  qed
next
  case (C_free q)
  with assms(4) have e: "r = Done" "a' = free A t q a" by simp_all
  show ?thesis
  proof (cases "q = 0")
    case True
    then show ?thesis using C_free e assms(1) by (simp add: free_def)
  next
    case False
    then obtain n where n: "map_of (blocks H) q = Some n" using assms(3) C_free by auto
    then show ?thesis using sim_free [OF assms(1,2) map_of_SomeD [OF n]] C_free e False by simp
  qed
next
  case (C_aligned_alloc al sz)
  then show ?thesis using assms(4) sim_aligned [OF assms(1,2)] by (auto simp del: c_accept.simps split: prod.splits)
next
  case (C_posix_memalign m al sz)
  then show ?thesis using assms(3,4) sim_posix [OF assms(1,2)] by (auto simp del: c_accept.simps split: prod.splits)
next
  case (C_store x v)
  then show ?thesis using assms(3,4) sim_access(1) [OF assms(1)] by auto
next
  case (C_load x)
  then show ?thesis using assms(3,4) sim_access(2,3) [OF assms(1)] by auto
qed

lemma c_run_refines:
  assumes "c_run A threads a0 es a" and "holds {#} (ALLOCATOR a0)"
  shows "\<exists>H. c_accepts es c_empty = Some H \<and> represents holds A H a"
  using assms
proof (induction rule: c_run.induct)
  case c_start
  then show ?case by (simp add: represents_def knows_empty) (simp add: c_empty_def)
next
  case (c_call es a H t c r a')
  then have "represents holds A H a" by simp
  from c_simulation [OF this c_call.hyps(3-5)] show ?case using c_call.hyps(2) by (auto simp: c_accepts_append)
qed

end

subsection \<open>What the machine promises\<close>

text \<open>In the abstract machine the blocks never overlap, and a byte changes only when the program stores to it or gives its block up.\<close>

definition c_wf :: "c_heap \<Rightarrow> bool" where
  "c_wf H \<longleftrightarrow> exclusive (extents (mset (blocks H)))"

fun touches :: "addr \<Rightarrow> addr \<Rightarrow> c_call \<Rightarrow> bool" where
  "touches p x (C_realloc q sz) \<longleftrightarrow> q = p"
| "touches p x (C_free q) \<longleftrightarrow> q = p"
| "touches p x (C_posix_memalign m al sz) \<longleftrightarrow> m \<le> x \<and> x < m + 8"
| "touches p x (C_store y v) \<longleftrightarrow> y = x"
| "touches p x _ \<longleftrightarrow> False"

lemma c_wf_set_known [simp]: "c_wf (set_known p n f H) = c_wf H"
  by (simp add: c_wf_def)

lemma c_wf_new:
  assumes "c_new al p n H = Some H'" and "c_wf H"
  shows "c_wf H'"
proof (cases "p = 0")
  case False
  with assms(1) have n: "apart p n (blocks H)" "blocks H' = (p, n) # blocks H" by (auto simp: c_new_def split: if_splits)
  have "\<forall>E \<in># extents (mset (blocks H)). {p..<p + n} \<inter> E = {}"
    using n(1) extents_memE [of _ "mset (blocks H)"] unfolding apart_iff set_mset_mset by metis
  then show ?thesis using assms(2) n(2) by (simp add: c_wf_def exclusive_add_iff)
qed (use assms in \<open>simp add: c_new_def\<close>)

lemma c_wf_drop: "c_wf H \<Longrightarrow> (p, n) \<in> set (blocks H) \<Longrightarrow> c_wf (c_drop p n H)"
  using c_drop_blocks [of p n H] by (metis c_wf_def exclusive_add_iff extents_simps(2))

lemma c_wf_disjoint:
  assumes "c_wf H" and "(p, n) \<in> set (blocks H)" "(q, k) \<in> set (blocks H)" and "(q, k) \<noteq> (p, n)"
  shows "{p..<p + n} \<inter> {q..<q + k} = {}"
proof -
  have "mset (blocks H) = add_mset (p, n) (mset (blocks (c_drop p n H)))" using c_drop_blocks [OF assms(2)] by simp
  moreover have "(q, k) \<in> set (blocks (c_drop p n H))" using assms(3,4) by (simp add: c_drop_def)
  ultimately show ?thesis
    using assms(1) extents_memI [of q k "mset (blocks (c_drop p n H))"] unfolding c_wf_def
    by (metis exclusive_add_iff extents_simps(2) set_mset_mset)
qed

lemma c_wf_renew: "c_new al p n (c_drop q k H) = Some H' \<Longrightarrow> c_wf H \<Longrightarrow> map_of (blocks H) q = Some k \<Longrightarrow> c_wf H'"
  by (blast intro: c_wf_new c_wf_drop dest: map_of_SomeD)

lemma accept_wf:
  assumes "c_accept c r H = Some H'" and "c_wf H"
  shows "c_wf H'"
  using assms
  by (cases "(c, r, H)" rule: c_accept.cases)
    (auto split: if_splits option.splits dest: c_wf_new c_wf_renew map_of_SomeD intro: c_wf_drop)

lemma accepts_wf: "c_accepts es H = Some H' \<Longrightarrow> c_wf H \<Longrightarrow> c_wf H'"
  by (induction es arbitrary: H) (auto split: option.splits dest: accept_wf)

lemma new_keeps:
  assumes "c_new al q k H = Some H'" and "(p, n) \<in> set (blocks H)" "p \<le> x" "x < p + n"
  shows "(p, n) \<in> set (blocks H')" and "known H' x = known H x" and "q \<noteq> 0 \<Longrightarrow> \<not> (q \<le> x \<and> x < q + k)"
proof -
  have "\<not> (q \<le> x \<and> x < q + k)" if "apart q k (blocks H)"
  proof
    assume "q \<le> x \<and> x < q + k"
    then have "x \<in> {q..<q + k} \<inter> {p..<p + n}" using assms(3,4) by simp
    moreover have "{q..<q + k} \<inter> {p..<p + n} = {}" using that assms(2) unfolding apart_iff by fast
    ultimately show False by blast
  qed
  then show "(p, n) \<in> set (blocks H')" "known H' x = known H x" "q \<noteq> 0 \<Longrightarrow> \<not> (q \<le> x \<and> x < q + k)"
    using assms(1,2) by (auto simp: c_new_def split: if_splits)
qed

lemma drop_keeps:
  assumes "c_wf H" and "(q, k) \<in> set (blocks H)" and "(p, n) \<in> set (blocks H)" "p \<le> x" "x < p + n" and "q \<noteq> p"
  shows "(p, n) \<in> set (blocks (c_drop q k H))" and "known (c_drop q k H) x = known H x"
proof -
  have "\<not> (q \<le> x \<and> x < q + k)" using c_wf_disjoint [OF assms(1,3,2)] assms(4-6) by auto
  then show "known (c_drop q k H) x = known H x" by (auto simp: c_drop_def)
  show "(p, n) \<in> set (blocks (c_drop q k H))" using assms(3,6) by (simp add: c_drop_def)
qed

lemma accept_keeps:
  assumes a: "c_accept c r H = Some H'" and wf: "c_wf H" and p: "(p, n) \<in> set (blocks H)" "p \<le> x" "x < p + n" and u: "\<not> touches p x c"
  shows "(p, n) \<in> set (blocks H')" and "known H x = Some v \<Longrightarrow> known H' x = Some v"
proof -
  note nk = new_keeps [OF _ p] and dk = drop_keeps [OF wf _ p]
  have "(p, n) \<in> set (blocks H') \<and> (known H x = Some v \<longrightarrow> known H' x = Some v)"
  proof (cases "(c, r, H)" rule: c_accept.cases)
    case (3 q sz q' H0)
    show ?thesis
    proof (cases "q = 0")
      case False
      with a 3 obtain k where k: "map_of (blocks H) q = Some k" by (auto split: option.splits)
      have "q \<noteq> p" using u 3 by simp
      note d = dk [OF map_of_SomeD [OF k] this]
      from a 3 k False consider "H' = c_drop q k H" | "H' = H"
        | H1 where "q' \<noteq> 0" "c_new 16 q' sz (c_drop q k H) = Some H1" "H' = set_known q' (min k sz) (\<lambda>y. known H (q + (y - q'))) H1"
        by (auto split: if_splits)
      then show ?thesis
      proof cases
        case 3
        from new_keeps [OF 3(2) d(1) p(2,3)] 3 show ?thesis using d(2) by (auto simp: min_def)
      qed (use d p in simp_all)
    qed (use a 3 nk in auto)
  qed (use a p u nk dk in \<open>auto simp: less_Suc_eq split: if_splits option.splits dest: map_of_SomeD\<close>)
  then show "(p, n) \<in> set (blocks H')" "known H x = Some v \<Longrightarrow> known H' x = Some v" by auto
qed

lemma accepts_keeps:
  assumes "c_accepts es H = Some H'" and "c_wf H" and "(p, n) \<in> set (blocks H)" "p \<le> x" "x < p + n"
    and "\<forall>e \<in> set es. \<not> touches p x (fst e)" and "known H x = Some v"
  shows "known H' x = Some v"
  using assms
proof (induction es arbitrary: H)
  case (Cons e es)
  obtain c r where e: "e = (c, r)" by fastforce
  with Cons.prems(1) obtain H1 where H1: "c_accept c r H = Some H1" "c_accepts es H1 = Some H'" by (auto split: option.splits)
  note k = accept_keeps [OF H1(1) Cons.prems(2-5)]
  show ?case
    by (rule Cons.IH [OF H1(2) accept_wf [OF H1(1) Cons.prems(2)]]) (use k Cons.prems e in auto)
qed simp

end
