(* ===== verification/CProgram.thy ===== *)
theory CProgram
  imports C_Spec
begin

text \<open>
  C programs on the allocator: both builds, from an empty heap and for any number of threads, show a program only what the abstract
  machine of the C functions allows.
\<close>

definition c_start_magazine :: "os \<Rightarrow> nat \<Rightarrow> heap abi" where
  "c_start_magazine s threads = \<lparr>ALLOCATOR = heap_new s threads, INITIALIZED = False\<rparr>"

definition c_start_simple :: "os \<Rightarrow> nat \<Rightarrow> sheap abi" where
  "c_start_simple s threads = \<lparr>ALLOCATOR = sheap_new s threads, INITIALIZED = False\<rparr>"

context layout_allocator
begin

lemma represents_view:
  assumes "represents holds A H a"
  shows "exclusive (extents (mset (blocks H)))"
    and "(p, n) \<in> set (blocks H) \<Longrightarrow> 0 < p \<and> {p..<p + n} \<subseteq> region (ALLOCATOR a) \<and> get_alloc_size p (bytes A a) = n"
    and "known H x = Some v \<Longrightarrow> bytes A a x = v"
proof -
  have h: "holds (mset (blocks H)) (ALLOCATOR a)" and k: "knows H (bytes A a)" using assms by (simp_all add: represents_def)
  show "exclusive (extents (mset (blocks H)))" by (rule inv_exclusive [OF h])
  show "(p, n) \<in> set (blocks H) \<Longrightarrow> 0 < p \<and> {p..<p + n} \<subseteq> region (ALLOCATOR a) \<and> get_alloc_size p (bytes A a) = n"
    using inv_space [OF h, of p n] holds_block [OF h, of p n] by (simp add: bytes_def)
  show "known H x = Some v \<Longrightarrow> bytes A a x = v" using k by (simp add: knows_def)
qed

lemma store_load:
  assumes run: "c_run A threads a0 (es @ (C_store x v, Done) # fs @ [(C_load x, Loaded w)]) a" and "holds {#} (ALLOCATOR a0)"
    and es: "c_accepts es c_empty = Some H" "(p, n) \<in> set (blocks H)" "p \<le> x" "x < p + n"
    and fs: "\<forall>e \<in> set fs. \<not> touches p x (fst e)"
  shows "w = v"
proof -
  from c_run_refines [OF run assms(2)] obtain H' where "c_accepts (es @ (C_store x v, Done) # fs @ [(C_load x, Loaded w)]) c_empty = Some H'" by blast
  with es(1) obtain H1 H2 where H1: "c_accept (C_store x v) Done H = Some H1" and H2: "c_accepts fs H1 = Some H2"
    and ld: "c_accept (C_load x) (Loaded w) H2 \<noteq> None" by (auto simp: c_accepts_append split: option.splits)
  have wf0: "c_wf c_empty" by (simp add: c_wf_def c_empty_def)
  have "c_wf H" using es(1) wf0 by (rule accepts_wf)
  then have "c_wf H1" by (rule accept_wf [OF H1])
  moreover have "(p, n) \<in> set (blocks H1)" "known H1 x = Some v" using H1 es(2) by (auto split: if_splits)
  ultimately have "known H2 x = Some v" using accepts_keeps [OF H2 _ _ es(3,4) fs] by blast
  with ld show ?thesis by (auto split: if_splits)
qed

end

context kernel
begin

lemma simple_layout: "layout_allocator (simple_build K) (simple_inv threads) threads (\<lambda>h. mapped (s_space h))"
  by (rule simple_caches.layout_allocator_axioms)

end

lemma c_start_holds:
  "heap_inv_at threads {#} (ALLOCATOR (c_start_magazine s threads))" "simple_inv threads {#} (ALLOCATOR (c_start_simple s threads))"
  by (simp_all add: c_start_magazine_def c_start_simple_def heap_inv_at_new simple_inv_new)

subsection \<open>A concrete program\<close>

definition demo_H :: c_heap where
  "demo_H = (set_known 4112 4096 (\<lambda>_. None) c_empty)\<lparr>blocks := [(4112, 4096)]\<rparr>"

lemma demo_new: "c_new 16 4112 4096 c_empty = Some demo_H"
  by (simp add: c_new_def apart_def demo_H_def) (simp add: c_empty_def)

lemma demo_accepts: "c_accepts [(C_malloc 4096, Pointer 4112)] c_empty = Some demo_H"
  by (simp add: demo_new)

lemma demo_within: "within 4112 (Suc 0) (set_known p n f demo_H)" "within 4200 (Suc 0) (set_known p n f demo_H)"
  "within 4112 (Suc 0) demo_H" "within 4200 (Suc 0) demo_H"
  by (simp_all add: within_def demo_H_def)

lemma demo_known: "known demo_H x = None"
  by (simp add: demo_H_def c_empty_def)

text \<open>Two threads: one allocates and stores, the other loads.\<close>

lemma demo_run:
  assumes m: "malloc A 0 4096 a0 = (4112, a1)" and b: "bytes A (store A (\<lambda>m. m(4200 := 7)) a1) = (bytes A a1)(4200 := 7)"
  shows "c_run A 2 a0 ([(C_malloc 4096, Pointer 4112)] @ (C_store 4200 7, Done) # [(C_load 4112, Loaded (bytes A a1 4112))] @ [(C_load 4200, Loaded 7)])
    (store A (\<lambda>m. m(4200 := 7)) a1)"
proof -
  let ?e1 = "(C_malloc 4096, Pointer 4112)" and ?e2 = "(C_store 4200 7, Done)" and ?e3 = "(C_load 4112, Loaded (bytes A a1 4112))"
  let ?H2 = "set_known 4200 1 (\<lambda>_. Some 7) demo_H"
  let ?H3 = "set_known 4112 1 (\<lambda>_. Some (bytes A a1 4112)) ?H2"
  have h2: "c_accepts [?e1, ?e2] c_empty = Some ?H2" by (simp add: demo_new demo_within)
  have h3: "c_accepts [?e1, ?e2, ?e3] c_empty = Some ?H3"
    by (simp add: demo_new demo_within demo_known)
  have 1: "c_run A 2 a0 [?e1] a1" using c_call [OF c_start [of A 2 a0], of c_empty 0 "C_malloc 4096"] m by simp
  have 2: "c_run A 2 a0 [?e1, ?e2] (store A (\<lambda>m. m(4200 := 7)) a1)"
    using c_call [OF 1 demo_accepts, of 0 "C_store 4200 7"] by (simp add: demo_within)
  have 3: "c_run A 2 a0 [?e1, ?e2, ?e3] (store A (\<lambda>m. m(4200 := 7)) a1)"
    using c_call [OF 2 h2, of 1 "C_load 4112"] b by (simp add: demo_within)
  show ?thesis using c_call [OF 3 h3, of 1 "C_load 4200"] b by (simp add: demo_within)
qed

lemma demo_run_magazine:
  "c_run (magazine_build (first_fit 9)) 2 (c_start_magazine (pages_to 0 (\<lambda>_. 0)) 2)
    ([(C_malloc 4096, Pointer 4112)] @ (C_store 4200 7, Done) # [(C_load 4112, Loaded (mem (space demo_heap) 4112))] @ [(C_load 4200, Loaded 7)])
    (store (magazine_build (first_fit 9)) (\<lambda>m. m(4200 := 7)) demo_abi1)"
proof -
  have "malloc (magazine_build (first_fit 9)) 0 4096 (c_start_magazine (pages_to 0 (\<lambda>_. 0)) 2) = (4112, demo_abi1)"
    using demo_malloc by (simp add: c_start_magazine_def demo_abi_def)
  from demo_run [OF this] show ?thesis by (simp add: bytes_def write_mem_def demo_abi1_def)
qed

definition demo_sabi :: "sheap abi" where
  "demo_sabi = \<lparr>ALLOCATOR = demo_sheap, INITIALIZED = True\<rparr>"

lemma demo_run_simple:
  "c_run (simple_build (first_fit 9)) 2 (c_start_simple (pages_to 0 (\<lambda>_. 0)) 2)
    ([(C_malloc 4096, Pointer 4112)] @ (C_store 4200 7, Done) # [(C_load 4112, Loaded (s_mem demo_sheap 4112))] @ [(C_load 4200, Loaded 7)])
    (store (simple_build (first_fit 9)) (\<lambda>m. m(4200 := 7)) demo_sabi)"
proof -
  have "Layout_from_size_align 4096 8 = Some demo_layout" by (simp add: Layout_from_size_align_def power_two_8 demo_layout_def)
  then have "malloc (simple_build (first_fit 9)) 0 4096 (c_start_simple (pages_to 0 (\<lambda>_. 0)) 2) = (4112, demo_sabi)"
    by (simp add: malloc_def ensure_init_def c_start_simple_def demo_sabi_def on_heap_def demo_simple_alloc)
  from demo_run [OF this] show ?thesis by (simp add: bytes_def s_write_def s_mem_def demo_sabi_def)
qed

subsection \<open>Properties\<close>

text \<open>
  C1. The C library refines its specification. A program on any number of threads calls \<open>malloc\<close>, \<open>calloc\<close>, \<open>realloc\<close>, \<open>free\<close>,
  \<open>aligned_alloc\<close> and \<open>posix_memalign\<close> and loads and stores bytes, in any order, as long as it frees, resizes and accesses only
  blocks it holds. Then every result it ever sees is one the abstract machine allows, so no call goes wrong; the blocks of the machine
  are disjoint, mapped and have the sizes asked for, and every byte whose value the machine knows has that value in memory.
\<close>

theorem c_program_magazine:
  assumes "kernel K" and "c_run (magazine_build K) threads (c_start_magazine s threads) es a"
  shows "\<exists>H. c_accepts es c_empty = Some H \<and> exclusive (extents (mset (blocks H))) \<and>
    (\<forall>(p, n) \<in> set (blocks H). 0 < p \<and> {p..<p + n} \<subseteq> mapped (space (ALLOCATOR a)) \<and> get_alloc_size p (mem (space (ALLOCATOR a))) = n) \<and>
    (\<forall>x v. known H x = Some v \<longrightarrow> mem (space (ALLOCATOR a)) x = v)"
proof -
  note l = kernel.magazine_layout [OF assms(1), of threads]
  from layout_allocator.c_run_refines [OF l assms(2) c_start_holds(1)] obtain H where
    H: "c_accepts es c_empty = Some H" "represents (heap_inv_at threads) (magazine_build K) H a" by blast
  show ?thesis using H(1) layout_allocator.represents_view [OF l H(2)] by (auto simp: bytes_def)
qed

theorem c_program_magazine_witness:
  "\<exists>H. c_accepts [(C_malloc 4096, Pointer 4112), (C_store 4200 7, Done), (C_load 4112, Loaded (mem (space demo_heap) 4112)), (C_load 4200, Loaded 7)]
    c_empty = Some H \<and> exclusive (extents (mset (blocks H)))"
  using c_program_magazine [OF ff.kernel_axioms demo_run_magazine] by (elim exE conjE) (intro exI conjI, simp_all)

text \<open>C2. The same for the build without magazines.\<close>

theorem c_program_simple:
  assumes "kernel K" and "c_run (simple_build K) threads (c_start_simple s threads) es a"
  shows "\<exists>H. c_accepts es c_empty = Some H \<and> exclusive (extents (mset (blocks H))) \<and>
    (\<forall>(p, n) \<in> set (blocks H). 0 < p \<and> {p..<p + n} \<subseteq> mapped (s_space (ALLOCATOR a)) \<and> get_alloc_size p (s_mem (ALLOCATOR a)) = n) \<and>
    (\<forall>x v. known H x = Some v \<longrightarrow> s_mem (ALLOCATOR a) x = v)"
proof -
  note l = kernel.simple_layout [OF assms(1), of threads]
  from layout_allocator.c_run_refines [OF l assms(2) c_start_holds(2)] obtain H where
    H: "c_accepts es c_empty = Some H" "represents (simple_inv threads) (simple_build K) H a" by blast
  show ?thesis using H(1) layout_allocator.represents_view [OF l H(2)] by (auto simp: bytes_def)
qed

theorem c_program_simple_witness:
  "\<exists>H. c_accepts [(C_malloc 4096, Pointer 4112), (C_store 4200 7, Done), (C_load 4112, Loaded (s_mem demo_sheap 4112)), (C_load 4200, Loaded 7)]
    c_empty = Some H \<and> exclusive (extents (mset (blocks H)))"
  using c_program_simple [OF ff.kernel_axioms demo_run_simple] by (elim exE conjE) (intro exI conjI, simp_all)

text \<open>
  C3. What a program stores it reads back. After a store to a byte of a block, whatever calls the threads make, as long as none stores to
  that byte again and none frees or resizes that block, the next load of the byte returns what was stored.
\<close>

theorem c_store_load:
  assumes "kernel K"
    and "c_run (magazine_build K) threads (c_start_magazine s threads) (es @ (C_store x v, Done) # fs @ [(C_load x, Loaded w)]) a"
    and "c_accepts es c_empty = Some H" and "(p, n) \<in> set (blocks H)" "p \<le> x" "x < p + n"
    and "\<forall>e \<in> set fs. \<not> touches p x (fst e)"
  shows "w = v"
  by (rule layout_allocator.store_load [OF kernel.magazine_layout [OF assms(1)] assms(2) c_start_holds(1) assms(3-7)])

theorem c_store_load_witness:
  "\<exists>w. c_run (magazine_build (first_fit 9)) 2 (c_start_magazine (pages_to 0 (\<lambda>_. 0)) 2)
      ([(C_malloc 4096, Pointer 4112)] @ (C_store 4200 7, Done) # [(C_load 4112, Loaded (mem (space demo_heap) 4112))] @ [(C_load 4200, Loaded w)])
      (store (magazine_build (first_fit 9)) (\<lambda>m. m(4200 := 7)) demo_abi1) \<and> w = 7"
proof (intro exI conjI)
  have "(4112, 4096) \<in> set (blocks demo_H)" by (simp add: demo_H_def)
  from c_store_load [OF ff.kernel_axioms demo_run_magazine demo_accepts this] show "(7 :: byte) = 7" by simp
qed (rule demo_run_magazine)

end
