(* ===== verification/Progress.thy ===== *)
theory Progress
  imports CProgram
begin

text \<open>
  When a request fails. The contract of an allocator allows null at any time; here it is shown that the global allocator returns
  null only if the kernel refuses a mapping that is not much larger than the request, in both builds.
\<close>

definition refuses :: "syscalls \<Rightarrow> os \<Rightarrow> usize \<Rightarrow> bool" where
  "refuses K s len \<longleftrightarrow> (\<exists>n \<le> len. 0 < n \<and> n mod 4096 = 0 \<and> fst (sys_mmap K s n) = None)"

context kernel
begin

lemma page_refused:
  assumes "fst (PageAllocator_alloc K n s) = None" and "0 < n" and "n < 2 ^ 52" and "n * 4096 \<le> len"
  shows "refuses K s len"
proof -
  have w: "wmul n PAGE_SIZE = n * 4096" using assms(3) by (simp add: wmul_in_range PAGE_SIZE_def)
  obtain r s' where r: "sys_mmap K s (n * 4096) = (r, s')" by fastforce
  have "r = None" using assms(1,2) r mmap_nonnull [of s "n * 4096"] w by (cases r) (auto simp: PageAllocator_alloc_def)
  then show ?thesis unfolding refuses_def using assms(2,4) r by (intro exI [of _ "n * 4096"]) simp
qed

lemma block_pages_refused:
  assumes "fst (PageAllocator_alloc K (max (div_ceil b PAGE_SIZE) 1) s) = None" and "b \<le> 2 ^ 63 + 4096" and "b + 4096 \<le> len"
  shows "refuses K s len"
proof (rule page_refused [OF assms(1)])
  note d = div_ceil_bounds [of 4096 b]
  show "max (div_ceil b PAGE_SIZE) 1 < 2 ^ 52" "max (div_ceil b PAGE_SIZE) 1 * 4096 \<le> len"
    using d assms(2,3) by (auto simp: PAGE_SIZE_def max_def)
qed simp

end

text \<open>The two kinds of requests: those the caches serve, and those that are mapped directly.\<close>

context kernel
begin

lemma request_cases:
  assumes "valid_layout lay" and "0 < lay_size lay"
  obtains (cached) c where "lay_size lay \<le> 65536" "lay_align lay \<le> 8" "size_to_class (max (round_up_pow2 (lay_size lay)) 16) = Some c"
      "max (round_up_pow2 (lay_size lay)) 16 \<le> 2 * lay_size lay + 16"
  | (large) k where "\<not> (lay_size lay \<le> 65536 \<and> lay_align lay \<le> 8)" "lay_align lay = 2 ^ k" "lay_size lay + 2 ^ k \<le> 2 ^ 63"
proof (cases "lay_size lay \<le> 65536 \<and> lay_align lay \<le> 8")
  case True
  with size_class_spec [of "lay_size lay"] assms(2) obtain c where c: "size_to_class (max (round_up_pow2 (lay_size lay)) 16) = Some c" by auto
  have "round_up_pow2 (lay_size lay) < 2 * lay_size lay" using round_up_pow2_lt [of "lay_size lay"] True assms(2) by simp
  then show thesis by (intro cached [OF _ _ c]) (use True in auto)
next
  case False
  obtain k where "lay_align lay = 2 ^ k" "lay_size lay + lay_align lay \<le> 2 ^ 63"
    by (rule layout_cases [OF Layout_valid [OF assms(1)]]) (use assms(2) in auto)
  then show thesis by (intro large [OF False]) auto
qed

end

subsection \<open>Magazines\<close>

lemma bump_space [simp]: "space (bump_metrics t f h) = space h" "space (flush_thread t h) = space h"
  using same_heap_bump [of h t f] same_heap_flush [of h t] by (simp_all add: same_heap_def)

lemma pop_block_space [simp]: "AethAlloc_pop_block t cls h = (r, h') \<Longrightarrow> space h' = space h"
  by (auto simp: AethAlloc_pop_block_def split: prod.splits)

lemma refill_space [simp]: "AethAlloc_refill t cls h = (r, h') \<Longrightarrow> space h' = space h"
  by (auto simp: AethAlloc_refill_def Let_def split: prod.splits option.splits)

context kernel
begin

lemma fresh_block_refused:
  assumes "AethAlloc_fresh_block K t sz b h = (0, h')" and "b \<le> 2 ^ 63 + 4096" "b + 4096 \<le> len"
  shows "refuses K (space h) len"
  by (rule block_pages_refused [OF _ assms(2,3)])
    (use assms(1) in \<open>auto simp: AethAlloc_fresh_block_def Let_def CACHE_HEADER_SIZE_def split: prod.splits option.splits\<close>)

lemma miss_refused:
  assumes "AethAlloc_miss K t sz c cls h = (0, h')" and "c \<le> 2 ^ 63" "c + 16 + 4096 \<le> len"
  shows "refuses K (space h) len"
proof -
  have b: "wadd c 16 = c + 16" using assms(2) by (simp add: wadd_in_range)
  obtain r s' where r: "PageAllocator_alloc K 1 (space h) = (r, s')" by fastforce
  show ?thesis
  proof (cases "PAGE_SIZE div (c + 16) > 1")
    case True
    then have "r = None"
      using assms(1) r by (auto simp: AethAlloc_miss_def Let_def b CACHE_HEADER_SIZE_def split: option.splits)
    then show ?thesis by (intro page_refused [of 1]) (use r assms(3) in auto)
  next
    case False
    then have "AethAlloc_fresh_block K t sz (c + 16)
        (bump_metrics t (\<lambda>m. m\<lparr>t_cache_misses := wadd (t_cache_misses m) 1, t_allocs := wadd (t_allocs m) 1\<rparr>) h) = (0, h')"
      using assms(1) by (simp add: AethAlloc_miss_def Let_def b CACHE_HEADER_SIZE_def)
    from fresh_block_refused [OF this, of len] show ?thesis using assms(2,3) by simp
  qed
qed

lemma cached_refused:
  assumes "AethAlloc_alloc_cached K t sz c cls h = (0, h')" and "c \<le> 2 ^ 63" "c + 16 + 4096 \<le> len"
  shows "refuses K (space h) len"
proof -
  have hit: "AethAlloc_hit t sz b x \<noteq> (0, h')" for b x by (simp add: AethAlloc_hit_def Let_def CACHE_HEADER_SIZE_def)
  obtain r1 h1 where p1: "AethAlloc_pop_block t cls h = (r1, h1)" by fastforce
  obtain r2 h2 where p2: "(if \<not> Magazine_is_empty (free_mag t cls h1)
      then AethAlloc_pop_block t cls (AethAlloc_swap_mags t cls h1) else (None, h1)) = (r2, h2)" by fastforce
  obtain r3 h3 where p3: "(case AethAlloc_refill t cls h2 of
      (True, h') \<Rightarrow> AethAlloc_pop_block t cls h' | (False, h') \<Rightarrow> (None, h')) = (r3, h3)" by fastforce
  have s: "space h1 = space h" "space h2 = space h1" "space h3 = space h2"
    using p1 p2 p3 by (auto split: if_splits prod.splits bool.splits)
  have "AethAlloc_miss K t sz c cls h3 = (0, h')"
    using assms(1) unfolding AethAlloc_alloc_cached_def p1 prod.case p2 p3 by (auto simp: hit split: option.splits)
  from miss_refused [OF this assms(2,3)] show ?thesis using s by simp
qed

lemma large_refused:
  assumes "AethAlloc_alloc_large K t sz (2 ^ k) h = (0, h')" and "0 < sz" "sz + 2 ^ k \<le> 2 ^ 63" and "32 + sz + 2 ^ k + 4096 \<le> len"
  shows "refuses K (space h) len"
  using alloc_large_shape [OF assms(2,3) refl assms(1)] assms(3,4)
  by (intro block_pages_refused [of "32 + sz + 2 ^ k"]) (auto simp: PAGE_SIZE_def)

lemma alloc_refused:
  assumes "AethAlloc_alloc K t lay h = (0, h')" and "valid_layout lay" and "0 < lay_size lay"
  shows "refuses K (space h) (2 * lay_size lay + lay_align lay + 8192)"
proof (cases rule: request_cases [OF assms(2,3), case_names cached large])
  case c: (cached c)
  have "AethAlloc_alloc_cached K t (lay_size lay) (max (round_up_pow2 (lay_size lay)) 16) c h = (0, h')"
    using assms(1,3) c by (simp add: AethAlloc_alloc_def MAX_CACHE_SIZE_def Let_def)
  then show ?thesis by (rule cached_refused) (use c in simp_all)
next
  case k: (large k)
  then have "AethAlloc_alloc_large K t (lay_size lay) (2 ^ k) h = (0, h')" using assms(1,3) by (auto simp: AethAlloc_alloc_def MAX_CACHE_SIZE_def)
  then show ?thesis by (rule large_refused) (use assms(3) k in simp_all)
qed

end

subsection \<open>Simple caches\<close>

lemma s_bump_space [simp]: "s_space (s_bump t f h) = s_space h" "s_space (s_flush t h) = s_space h"
  by (simp_all add: s_bump_def s_flush_def Let_def split: prod.splits)

text \<open>A global list that is not empty gives at least one block.\<close>

lemma pop_batch_some:
  assumes "global_head cls h \<noteq> 0"
  shows "0 < fst (pop_batch (Suc n) t cls h)"
  using assms by (simp add: GlobalFreeList_pop_def Let_def split: prod.splits)

lemma take_local_some: "fst (take_local t sz cls b h) \<noteq> 0"
  by (simp add: take_local_def Let_def CACHE_HEADER_SIZE_def)

context kernel
begin

lemma simple_fresh_refused:
  assumes "Simple_fresh_block K t sz b h = (0, h')" and "b \<le> 2 ^ 63 + 4096" "b + 4096 \<le> len"
  shows "refuses K (s_space h) len"
  by (rule block_pages_refused [OF _ assms(2,3)])
    (use assms(1) in \<open>auto simp: Simple_fresh_block_def Let_def CACHE_HEADER_SIZE_def split: prod.splits option.splits\<close>)

lemma simple_miss_refused:
  assumes "Simple_miss K t sz c cls h = (0, h')" and "c \<le> 2 ^ 63" "c + 16 + 4096 \<le> len"
  shows "refuses K (s_space h) len"
proof -
  have b: "wadd c 16 = c + 16" using assms(2) by (simp add: wadd_in_range)
  obtain r s' where r: "PageAllocator_alloc K 1 (s_space h) = (r, s')" by fastforce
  show ?thesis
  proof (cases "PAGE_SIZE div (c + 16) > 1")
    case True
    then have "r = None"
      using assms(1) r by (auto simp: Simple_miss_def Let_def b CACHE_HEADER_SIZE_def split: option.splits)
    then show ?thesis by (intro page_refused [of 1]) (use r assms(3) in auto)
  next
    case False
    then have "Simple_fresh_block K t sz (c + 16)
        (s_bump t (\<lambda>m. m\<lparr>t_cache_misses := wadd (t_cache_misses m) 1, t_allocs := wadd (t_allocs m) 1\<rparr>) h) = (0, h')"
      using assms(1) by (simp add: Simple_miss_def Let_def b CACHE_HEADER_SIZE_def)
    from simple_fresh_refused [OF this, of len] show ?thesis using assms(2,3) by simp
  qed
qed

lemma simple_cached_refused:
  assumes "Simple_alloc_cached K t sz c cls h = (0, h')" and "c \<le> 2 ^ 63" "c + 16 + 4096 \<le> len"
  shows "refuses K (s_space h) len"
proof -
  have batch: "0 < fst (pop_batch GLOBAL_FREE_BATCH t cls h)" if "global_head cls h \<noteq> 0"
    using pop_batch_some [OF that, of 127 t] by (simp add: GLOBAL_FREE_BATCH_def del: pop_batch.simps)
  have tl: "take_local t sz cls b x \<noteq> (0, h')" for b x using take_local_some [of t sz cls b x] by auto
  have "Simple_miss K t sz c cls h = (0, h')"
    using assms(1) batch tl unfolding Simple_alloc_cached_def Let_def by (auto split: if_splits prod.splits)
  from simple_miss_refused [OF this assms(2,3)] show ?thesis .
qed

lemma simple_large_refused:
  assumes "Simple_alloc_large K t sz (2 ^ k) h = (0, h')" and "0 < sz" "sz + 2 ^ k \<le> 2 ^ 63" and "32 + sz + 2 ^ k + 4096 \<le> len"
  shows "refuses K (s_space h) len"
  using s_alloc_large_shape [OF assms(2,3) refl assms(1)] assms(3,4)
  by (intro block_pages_refused [of "32 + sz + 2 ^ k"]) (auto simp: PAGE_SIZE_def)

lemma simple_alloc_refused:
  assumes "Simple_alloc K t lay h = (0, h')" and "valid_layout lay" and "0 < lay_size lay"
  shows "refuses K (s_space h) (2 * lay_size lay + lay_align lay + 8192)"
proof (cases rule: request_cases [OF assms(2,3), case_names cached large])
  case c: (cached c)
  have "Simple_alloc_cached K t (lay_size lay) (max (round_up_pow2 (lay_size lay)) 16) c h = (0, h')"
    using assms(1,3) c by (simp add: Simple_alloc_def MAX_CACHE_SIZE_def Let_def)
  then show ?thesis by (rule simple_cached_refused) (use c in simp_all)
next
  case k: (large k)
  then have "Simple_alloc_large K t (lay_size lay) (2 ^ k) h = (0, h')" using assms(1,3) by (auto simp: Simple_alloc_def MAX_CACHE_SIZE_def)
  then show ?thesis by (rule simple_large_refused) (use assms(3) k in simp_all)
qed

end

subsection \<open>Properties\<close>

lemma malloc_alloc:
  assumes "0 < sz" and "sz \<le> 2 ^ 63 - 8"
  shows "fst (malloc A t sz a) = fst (ga_alloc A t \<lparr>lay_size = sz, lay_align = 8\<rparr> (ALLOCATOR a))"
    and "valid_layout \<lparr>lay_size = sz, lay_align = 8\<rparr>"
  using assms power_two_8
  by (auto simp: malloc_def on_heap_def Layout_from_size_align_def valid_layout_def Let_def split: prod.splits)

text \<open>
  C6. \<open>malloc\<close> fails only if it must. In both builds and in every state, a request of at least one and at most 2^63 - 8 bytes returns null only if
  the kernel, in that state, refuses a mapping of at most twice the request and 8200 bytes.
\<close>

theorem malloc_fails_only_if_refused:
  assumes "kernel K" and "0 < sz" and "sz \<le> 2 ^ 63 - 8"
  shows "(fst (malloc (magazine_build K) t sz a) = 0 \<longrightarrow> refuses K (space (ALLOCATOR a)) (2 * sz + 8200)) \<and>
    (fst (malloc (simple_build K) t sz b) = 0 \<longrightarrow> refuses K (s_space (ALLOCATOR b)) (2 * sz + 8200))"
proof -
  let ?l = "\<lparr>lay_size = sz, lay_align = 8\<rparr>"
  note m = malloc_alloc [OF assms(2,3)]
  have e: "2 * lay_size ?l + lay_align ?l + 8192 = 2 * sz + 8200" by simp
  have "refuses K (space (ALLOCATOR a)) (2 * sz + 8200)" if "fst (AethAlloc_alloc K t ?l (ALLOCATOR a)) = 0"
    using kernel.alloc_refused [OF assms(1) surjective_pairing [of "AethAlloc_alloc K t ?l (ALLOCATOR a)", unfolded that] m(2), unfolded e] assms(2) by simp
  moreover have "refuses K (s_space (ALLOCATOR b)) (2 * sz + 8200)" if "fst (Simple_alloc K t ?l (ALLOCATOR b)) = 0"
    using kernel.simple_alloc_refused [OF assms(1) surjective_pairing [of "Simple_alloc K t ?l (ALLOCATOR b)", unfolded that] m(2), unfolded e] assms(2) by simp
  ultimately show ?thesis by (simp add: m(1))
qed

lemma no_pages: "0 < n \<Longrightarrow> PageAllocator_alloc (first_fit 0) n s = (None, s)"
  by (simp add: PageAllocator_alloc_def fit_step_def)

theorem malloc_fails_only_if_refused_witness:
  "fst (malloc (magazine_build (first_fit 0)) 0 100000 demo_abi) = 0 \<and> refuses (first_fit 0) (space (ALLOCATOR demo_abi)) 208200"
proof -
  have "fst (AethAlloc_alloc (first_fit 0) 0 \<lparr>lay_size = 100000, lay_align = 8\<rparr> h) = 0" for h
    by (simp add: AethAlloc_alloc_def AethAlloc_alloc_large_def MAX_CACHE_SIZE_def no_pages Let_def less_max_iff_disj)
  then have z: "fst (malloc (magazine_build (first_fit 0)) 0 100000 demo_abi) = 0" by (simp add: malloc_alloc(1))
  with malloc_fails_only_if_refused [OF ff.kernel_axioms, of 100000 0 0 demo_abi demo_sabi] show ?thesis by simp
qed

end
