(* ===== verification/Counters.thy ===== *)
theory Counters
  imports GlobalAlloc
begin

text \<open>
  Metrics of the global allocator by themselves: the global counters together with the counters of every thread. Both builds count in the
  same way, so an operation is described by what it does to this part of the state: it applies one of the counting functions on its
  thread and may then flush. What is conserved is the sum of a global counter and the counters of all threads, modulo the width
  of the atomics.
\<close>

type_synonym meters = "GlobalMetrics \<times> ThreadMetrics list"

definition m_bump :: "nat \<Rightarrow> (ThreadMetrics \<Rightarrow> ThreadMetrics) \<Rightarrow> meters \<Rightarrow> meters" where
  "m_bump t F v = (fst v, (snd v)[t := F (snd v ! t)])"

definition m_flush :: "nat \<Rightarrow> meters \<Rightarrow> meters" where
  "m_flush t v = (case maybe_flush (snd v ! t, fst v) of (tm, gm) \<Rightarrow> (gm, (snd v)[t := tm]))"

definition m_total :: "(GlobalMetrics \<Rightarrow> nat) \<Rightarrow> (ThreadMetrics \<Rightarrow> nat) \<Rightarrow> meters \<Rightarrow> nat" where
  "m_total g f v = (g (fst v) + sum_list (map f (snd v))) mod 2 ^ 64"

text \<open>One count on thread \<open>t\<close>, flushed or not.\<close>

definition counted :: "(ThreadMetrics \<Rightarrow> ThreadMetrics) \<Rightarrow> nat \<Rightarrow> meters \<Rightarrow> meters \<Rightarrow> bool" where
  "counted F t v v' \<longleftrightarrow> v' = m_bump t F v \<or> v' = m_flush t (m_bump t F v)"

text \<open>What the operations count.\<close>

definition count_hit :: "ThreadMetrics \<Rightarrow> ThreadMetrics" where
  "count_hit m = m\<lparr>t_cache_hits := wadd (t_cache_hits m) 1, t_allocs := wadd (t_allocs m) 1\<rparr>"

definition count_miss :: "ThreadMetrics \<Rightarrow> ThreadMetrics" where
  "count_miss m = m\<lparr>t_cache_misses := wadd (t_cache_misses m) 1, t_allocs := wadd (t_allocs m) 1\<rparr>"

definition count_direct :: "ThreadMetrics \<Rightarrow> ThreadMetrics" where
  "count_direct m = m\<lparr>t_direct_allocs := wadd (t_direct_allocs m) 1, t_allocs := wadd (t_allocs m) 1\<rparr>"

definition count_one_free :: "ThreadMetrics \<Rightarrow> ThreadMetrics" where
  "count_one_free m = m\<lparr>t_frees := wadd (t_frees m) 1\<rparr>"

lemma count_folds:
  "(\<lambda>m. m\<lparr>t_cache_hits := wadd (t_cache_hits m) 1, t_allocs := wadd (t_allocs m) 1\<rparr>) = count_hit"
  "(\<lambda>m. m\<lparr>t_cache_misses := wadd (t_cache_misses m) 1, t_allocs := wadd (t_allocs m) 1\<rparr>) = count_miss"
  "(\<lambda>m. m\<lparr>t_direct_allocs := wadd (t_direct_allocs m) 1, t_allocs := wadd (t_allocs m) 1\<rparr>) = count_direct"
  "(\<lambda>m. m\<lparr>t_frees := wadd (t_frees m) 1\<rparr>) = count_one_free"
  by (simp_all add: fun_eq_iff count_hit_def count_miss_def count_direct_def count_one_free_def)

subsection \<open>Conservation\<close>

text \<open>A pair of a global and a thread counter that flushing relates, and a counter that a function raises by \<open>d\<close>.\<close>

definition flushed :: "(GlobalMetrics \<Rightarrow> nat) \<Rightarrow> (ThreadMetrics \<Rightarrow> nat) \<Rightarrow> bool" where
  "flushed g f \<longleftrightarrow> f ThreadMetrics_new = 0 \<and>
     (\<forall>t gm. g (snd (flush_metrics (t, gm))) mod 2 ^ 64 = (g gm + f t) mod 2 ^ 64)"

definition bumps :: "(ThreadMetrics \<Rightarrow> nat) \<Rightarrow> (ThreadMetrics \<Rightarrow> ThreadMetrics) \<Rightarrow> nat \<Rightarrow> bool" where
  "bumps f F d \<longleftrightarrow> (\<forall>m. f (F m) mod 2 ^ 64 = (f m + d) mod 2 ^ 64)"

lemma map_update_same: "f x = f (xs ! t) \<Longrightarrow> map f (xs[t := x]) = map f xs"
  by (cases "t < length xs") (simp_all add: map_update list_update_same_conv list_update_beyond not_less)

lemma sum_list_update_mod:
  fixes f :: "'a \<Rightarrow> nat"
  assumes "t < length xs" and "f x mod M = (f (xs ! t) + d) mod M"
  shows "sum_list (map f (xs[t := x])) mod M = (sum_list (map f xs) + d) mod M"
proof -
  define r where "r = sum_list (map f xs) - f (xs ! t)"
  have "f (xs ! t) \<le> sum_list (map f xs)" using elem_le_sum_list [of t "map f xs"] assms(1) by simp
  then have r: "sum_list (map f xs) = f (xs ! t) + r" "sum_list (map f (xs[t := x])) = f x + r"
    using sum_list_update_add [OF assms(1), of f x] by (auto simp: r_def)
  have "(f x + r) mod M = (f x mod M + r) mod M" by (simp add: mod_simps)
  also have "\<dots> = (f (xs ! t) + d + r) mod M" unfolding assms(2) by (simp add: mod_simps)
  finally show ?thesis unfolding r by (simp add: ac_simps)
qed

lemma m_total_bump:
  assumes "t < length (snd v)" and "bumps f F d"
  shows "m_total g f (m_bump t F v) = (m_total g f v + d) mod 2 ^ 64"
proof -
  let ?s = "\<lambda>v. sum_list (map f (snd v))" and ?M = "2 ^ 64 :: nat"
  have "?s (m_bump t F v) mod ?M = (?s v + d) mod ?M"
    using sum_list_update_mod [of t "snd v" f "F (snd v ! t)" ?M d] assms by (simp add: m_bump_def bumps_def)
  then have "(g (fst v) + ?s (m_bump t F v)) mod ?M = (g (fst v) + (?s v + d)) mod ?M" by (metis mod_add_right_eq)
  then show ?thesis unfolding m_total_def by (simp add: m_bump_def mod_simps ac_simps)
qed

lemma m_total_flush_metrics:
  assumes "t < length (snd v)" and "flushed g f" and "flush_metrics (snd v ! t, fst v) = (tm, gm)"
  shows "m_total g f (gm, (snd v)[t := tm]) = m_total g f v"
proof -
  let ?m = "snd v ! t" and ?M = "2 ^ 64 :: nat"
  have tm: "tm = ThreadMetrics_new" "gm = snd (flush_metrics (?m, fst v))" using assms(3) by (auto simp: flush_metrics_def)
  have s: "sum_list (map f ((snd v)[t := tm])) + f ?m = sum_list (map f (snd v))"
    using sum_list_update_add [OF assms(1), of f tm] assms(2) by (simp add: flushed_def tm(1))
  have "(g gm + sum_list (map f ((snd v)[t := tm]))) mod ?M = (g (fst v) + f ?m + sum_list (map f ((snd v)[t := tm]))) mod ?M"
    by (rule mod_add_cong [OF _ refl]) (use assms(2) in \<open>simp add: flushed_def tm(2)\<close>)
  also have "\<dots> = (g (fst v) + sum_list (map f (snd v))) mod ?M" using s by (simp add: ac_simps)
  finally show ?thesis by (simp add: m_total_def)
qed

lemma m_total_flush:
  assumes "t < length (snd v)" and "flushed g f"
  shows "m_total g f (m_flush t v) = m_total g f v"
  using m_total_flush_metrics [OF assms] by (auto simp: m_flush_def maybe_flush_def m_total_def split: prod.splits)

lemma m_length [simp]: "length (snd (m_bump t F v)) = length (snd v)" "length (snd (m_flush t v)) = length (snd v)"
  by (simp_all add: m_bump_def m_flush_def split: prod.splits)

lemma m_total_less: "m_total g f v < 2 ^ 64"
  by (simp add: m_total_def)

lemma m_total_new: "g GlobalMetrics_new = 0 \<Longrightarrow> f ThreadMetrics_new = 0 \<Longrightarrow> m_total g f (GlobalMetrics_new, replicate n ThreadMetrics_new) = 0"
  by (simp add: m_total_def sum_list_replicate)

lemma mod_sum3:
  fixes a b c M :: nat
  shows "(a mod M + b + c) mod M = (a + b + c) mod M" "(a + b mod M + c) mod M = (a + b + c) mod M"
    "(a + b + c mod M) mod M = (a + b + c) mod M" "(a mod M + b mod M + c mod M) mod M = (a + b + c) mod M"
proof -
  show 1: "(a mod M + b + c) mod M = (a + b + c) mod M" for a b c by (metis add.assoc mod_add_left_eq)
  show 2: "(a + b mod M + c) mod M = (a + b + c) mod M" for a b c using 1 [of b a c] by (simp add: add.commute [of a])
  show 3: "(a + b + c mod M) mod M = (a + b + c) mod M" for a b c by (rule mod_add_right_eq)
  show "(a mod M + b mod M + c mod M) mod M = (a + b + c) mod M" by (simp only: 1 2 3)
qed

text \<open>The requests served from a cache, after a miss, and directly, together.\<close>

definition served :: "ThreadMetrics \<Rightarrow> nat" where
  "served m = t_cache_hits m + t_cache_misses m + t_direct_allocs m"

definition g_served :: "GlobalMetrics \<Rightarrow> nat" where
  "g_served m = g_cache_hits m + g_cache_misses m + g_direct_allocs m"

lemma flushed_metrics: "flushed g_allocs t_allocs" "flushed g_frees t_frees" "flushed g_served served"
proof -
  show "flushed g_allocs t_allocs" "flushed g_frees t_frees"
    by (simp_all add: flushed_def flush_metrics_def ThreadMetrics_new_def wadd_def)
  show "flushed g_served served"
    unfolding flushed_def g_served_def served_def
    by (simp add: flush_metrics_def ThreadMetrics_new_def wadd_def mod_sum3(4)) (simp add: ac_simps)
qed

lemma bumps_metrics:
  "bumps t_allocs count_hit 1" "bumps t_allocs count_miss 1" "bumps t_allocs count_direct 1" "bumps t_allocs count_one_free 0"
  "bumps t_frees count_hit 0" "bumps t_frees count_miss 0" "bumps t_frees count_direct 0" "bumps t_frees count_one_free 1"
  by (simp_all add: bumps_def count_hit_def count_miss_def count_direct_def count_one_free_def wadd_def mod_simps ac_simps)

lemma bumps_served: "bumps served count_hit 1" "bumps served count_miss 1" "bumps served count_direct 1" "bumps served count_one_free 0"
  unfolding bumps_def served_def count_hit_def count_miss_def count_direct_def count_one_free_def wadd_def
  by (simp_all add: mod_sum3)

text \<open>A counter that a request raises by \<open>da\<close>, whatever way it is served, and a release by \<open>df\<close>.\<close>

definition counter :: "(GlobalMetrics \<Rightarrow> nat) \<Rightarrow> (ThreadMetrics \<Rightarrow> nat) \<Rightarrow> nat \<Rightarrow> nat \<Rightarrow> bool" where
  "counter g f da df \<longleftrightarrow> flushed g f \<and> g GlobalMetrics_new = 0 \<and>
     bumps f count_hit da \<and> bumps f count_miss da \<and> bumps f count_direct da \<and> bumps f count_one_free df"

lemma counters: "counter g_allocs t_allocs 1 0" "counter g_frees t_frees 0 1" "counter g_served served 1 0"
  using flushed_metrics bumps_metrics bumps_served by (simp_all add: counter_def GlobalMetrics_new_def g_served_def)

definition counted_alloc :: "nat \<Rightarrow> meters \<Rightarrow> meters \<Rightarrow> bool" where
  "counted_alloc t v v' \<longleftrightarrow> counted count_hit t v v' \<or> counted count_miss t v v' \<or> counted count_direct t v v'"

text \<open>A change of the meters adds \<open>d\<close> to the total and keeps the number of threads.\<close>

definition m_adds :: "(GlobalMetrics \<Rightarrow> nat) \<Rightarrow> (ThreadMetrics \<Rightarrow> nat) \<Rightarrow> nat \<Rightarrow> meters \<Rightarrow> meters \<Rightarrow> bool" where
  "m_adds g f d v v' \<longleftrightarrow> m_total g f v' = (m_total g f v + d) mod 2 ^ 64 \<and> length (snd v') = length (snd v)"

lemma m_adds_refl [simp]: "m_adds g f 0 v v"
  using m_total_less [of g f v] by (simp add: m_adds_def)

lemma m_adds_trans: "m_adds g f d v v' \<Longrightarrow> m_adds g f e v' v'' \<Longrightarrow> m_adds g f (d + e) v v''"
  by (simp add: m_adds_def mod_simps ac_simps)

lemma m_adds_counted:
  assumes "counted F t v v'" and "t < length (snd v)" and "flushed g f" and "bumps f F d"
  shows "m_adds g f d v v'"
  using assms m_total_bump [OF assms(2,4), of g] m_total_flush [of t "m_bump t F v" g f] by (auto simp: counted_def m_adds_def)

lemma m_adds_alloc: "counted_alloc t v v' \<Longrightarrow> t < length (snd v) \<Longrightarrow> counter g f da df \<Longrightarrow> m_adds g f da v v'"
  and m_adds_free: "counted count_one_free t v v' \<Longrightarrow> t < length (snd v) \<Longrightarrow> counter g f da df \<Longrightarrow> m_adds g f df v v'"
  by (auto simp: counted_alloc_def counter_def intro: m_adds_counted)

lemma m_adds_new:
  assumes "m_adds g f d (GlobalMetrics_new, replicate n ThreadMetrics_new) v" and "counter g f da df"
  shows "m_total g f v = d mod 2 ^ 64"
  using assms m_total_new [of g f n] by (simp add: m_adds_def counter_def flushed_def)

end
