(* ===== verification/HeapMetrics.thy ===== *)
theory HeapMetrics
  imports AllocProps Counters
begin

text \<open>
  Accounting of the metrics of the global allocator with magazines: every request and every release is one count on the meters of its
  thread, and everything else leaves the meters alone.
\<close>

definition meters_of :: "heap \<Rightarrow> meters" where
  "meters_of h = (global_metrics h, map metrics (caches h))"

definition metric_total :: "(GlobalMetrics \<Rightarrow> nat) \<Rightarrow> (ThreadMetrics \<Rightarrow> nat) \<Rightarrow> heap \<Rightarrow> nat" where
  "metric_total g f h = m_total g f (meters_of h)"

subsection \<open>Operations that do not count\<close>

lemma meters_set_cache: "metrics c = metrics (get_thread_cache t h) \<Longrightarrow> meters_of (set_thread_cache t c h) = meters_of h"
  by (simp add: meters_of_def set_thread_cache_def get_thread_cache_def map_update_same)

lemma meters_frame [simp]:
  "meters_of (set_alloc_mag t cls m h) = meters_of h" "meters_of (set_free_mag t cls m h) = meters_of h"
  "meters_of (write_mem F h) = meters_of h" "meters_of (h\<lparr>space := s\<rparr>) = meters_of h"
  "meters_of (h\<lparr>magazines := ms\<rparr>) = meters_of h" "meters_of (h\<lparr>nodes := ns\<rparr>) = meters_of h" "meters_of (h\<lparr>metadata := md\<rparr>) = meters_of h"
  by (simp_all add: set_alloc_mag_def set_free_mag_def Let_def meters_set_cache) (simp_all add: meters_of_def write_mem_def)

lemma meters_pop: "AethAlloc_pop_block t cls h = (r, h') \<Longrightarrow> meters_of h' = meters_of h"
  by (auto simp: AethAlloc_pop_block_def split: prod.splits)

lemma meters_swap [simp]: "meters_of (AethAlloc_swap_mags t cls h) = meters_of h"
  by (simp add: AethAlloc_swap_mags_def)

lemma meters_refill: "AethAlloc_refill t cls h = (ok, h') \<Longrightarrow> meters_of h' = meters_of h"
  by (auto simp: AethAlloc_refill_def Let_def simp del: heap.simps split: prod.splits option.splits)

lemma meters_push [simp]: "meters_of (snd (AethAlloc_push_free t cls b h)) = meters_of h"
  by (simp add: AethAlloc_push_free_def split_beta)

lemma meters_retire [simp]: "meters_of (AethAlloc_retire K t cls h) = meters_of h"
  by (auto simp: AethAlloc_retire_def Let_def simp del: heap.simps split: prod.splits)

subsection \<open>Operations that count\<close>

lemma meters_bump [simp]: "meters_of (bump_metrics t F h) = m_bump t F (meters_of h)"
  by (cases "t < length (caches h)") (simp_all add: meters_of_def bump_metrics_def set_thread_cache_def get_thread_cache_def m_bump_def Let_def map_update list_update_beyond not_less)

lemma meters_flush: "t < length (caches h) \<Longrightarrow> meters_of (flush_thread t h) = m_flush t (meters_of h)"
  by (simp add: meters_of_def flush_thread_def set_thread_cache_def get_thread_cache_def m_flush_def Let_def map_update split: prod.splits)

lemma meters_length [simp]: "length (snd (meters_of h)) = length (caches h)"
  by (simp add: meters_of_def)

lemma length_bump_flush [simp]:
  "length (caches (bump_metrics t F h)) = length (caches h)" "length (caches (flush_thread t h)) = length (caches h)"
  by (simp_all add: bump_metrics_def flush_thread_def set_thread_cache_def Let_def split_beta)

lemma length_frame [simp]: "length (caches (write_mem F h)) = length (caches h)" "length (caches (set_alloc_mag t cls m h)) = length (caches h)"
  by (simp_all add: write_mem_def set_alloc_mag_def set_thread_cache_def Let_def)

lemma hit_counted:
  assumes "t < length (caches h)" and "AethAlloc_hit t sz b h = (p, h')"
  shows "counted count_hit t (meters_of h) (meters_of h')"
  using assms unfolding AethAlloc_hit_def Let_def count_folds by (auto simp: counted_def meters_flush)

lemma fresh_meters:
  assumes "t < length (caches h)" and "AethAlloc_fresh_block K t sz bs h = (p, h')"
  shows "meters_of h' = meters_of h \<or> meters_of h' = m_flush t (meters_of h)"
  using assms by (auto simp: AethAlloc_fresh_block_def Let_def meters_flush split: prod.splits option.splits)

lemma miss_counted:
  assumes "t < length (caches h)" and "AethAlloc_miss K t sz cs cls h = (p, h')"
  shows "counted count_miss t (meters_of h) (meters_of h')"
proof -
  have fresh: "counted count_miss t (meters_of h) (meters_of h')"
    if "AethAlloc_fresh_block K t sz bs h1 = (p, h')" "meters_of h1 = m_bump t count_miss (meters_of h)" for bs h1
  proof -
    have "length (caches h1) = length (caches h)" using arg_cong [OF that(2), of "\<lambda>v. length (snd v)"] by simp
    then show ?thesis using fresh_meters [OF _ that(1)] assms(1) that(2) by (auto simp: counted_def)
  qed
  show ?thesis
    using assms fresh unfolding AethAlloc_miss_def Let_def count_folds
    by (auto simp: counted_def meters_flush split: if_splits prod.splits option.splits)
qed

lemma large_counted:
  assumes "t < length (caches h)" and "AethAlloc_alloc_large K t sz al h = (p, h')"
  shows "counted count_direct t (meters_of h) (meters_of h')"
  using assms unfolding AethAlloc_alloc_large_def Let_def count_folds
  by (auto simp: counted_def meters_flush split: prod.splits option.splits)

lemma cached_counted:
  assumes t: "t < length (caches h)" and r: "AethAlloc_alloc_cached K t sz cs cls h = (p, h')"
  shows "counted_alloc t (meters_of h) (meters_of h')"
proof -
  obtain r1 h1 where p1: "AethAlloc_pop_block t cls h = (r1, h1)" by fastforce
  obtain r2 h2 where p2: "(if \<not> Magazine_is_empty (free_mag t cls h1)
      then AethAlloc_pop_block t cls (AethAlloc_swap_mags t cls h1) else (None, h1)) = (r2, h2)" by fastforce
  obtain r3 h3 where p3: "(case AethAlloc_refill t cls h2 of
      (True, h') \<Rightarrow> AethAlloc_pop_block t cls h' | (False, h') \<Rightarrow> (None, h')) = (r3, h3)" by fastforce
  obtain ok hr where rf: "AethAlloc_refill t cls h2 = (ok, hr)" by fastforce
  have "meters_of h3 = meters_of hr" using p3 rf meters_pop [of t cls hr r3 h3] by (cases ok) simp_all
  then have m: "meters_of h1 = meters_of h" "meters_of h2 = meters_of h1" "meters_of h3 = meters_of h2"
    using meters_pop [OF p1] p2 meters_refill [OF rf] by (auto dest: meters_pop split: if_splits)
  have "\<exists>x. meters_of x = meters_of h \<and> ((\<exists>b. AethAlloc_hit t sz b x = (p, h')) \<or> AethAlloc_miss K t sz cs cls x = (p, h'))"
    using r m unfolding AethAlloc_alloc_cached_def p1 prod.case p2 p3 by (auto split: option.splits)
  then obtain x where x: "meters_of x = meters_of h" "(\<exists>b. AethAlloc_hit t sz b x = (p, h')) \<or> AethAlloc_miss K t sz cs cls x = (p, h')" by blast
  have "t < length (caches x)" using t arg_cong [OF x(1), of "\<lambda>v. length (snd v)"] by simp
  then show ?thesis using x hit_counted [of t x] miss_counted [of t x] unfolding counted_alloc_def by metis
qed

lemma alloc_counted:
  assumes "t < length (caches h)" and "0 < lay_size lay" and "AethAlloc_alloc K t lay h = (p, h')"
  shows "counted_alloc t (meters_of h) (meters_of h')"
  using assms(2,3) cached_counted [OF assms(1)] large_counted [OF assms(1)]
  by (auto simp: AethAlloc_alloc_def Let_def counted_alloc_def split: if_splits option.splits)

lemma count_free_counted:
  assumes "t < length (caches h)" and "meters_of h = meters_of h0"
  shows "counted count_one_free t (meters_of h0) (meters_of (count_free t h))"
  using assms unfolding count_free_def count_folds by (auto simp: counted_def meters_flush)

lemma dealloc_counted:
  assumes t: "t < length (caches h)" and p: "p \<noteq> 0"
  shows "counted count_one_free t (meters_of h) (meters_of (AethAlloc_dealloc K t p h))"
proof -
  have c: "counted count_one_free t (meters_of h) (meters_of (count_free t h'))" if "meters_of h' = meters_of h" for h'
    by (rule count_free_counted [OF _ that]) (use t arg_cong [OF that, of "\<lambda>v. length (snd v)"] in simp)
  have "counted count_one_free t (meters_of h) (meters_of (AethAlloc_dealloc_pages K t base h))" for base
    unfolding AethAlloc_dealloc_pages_def Let_def by (rule c) simp
  moreover have "counted count_one_free t (meters_of h) (meters_of (AethAlloc_dealloc_cached K t cls blk h))" for cls blk
    using meters_push [of t cls blk h] unfolding AethAlloc_dealloc_cached_def by (auto intro!: c simp del: meters_push split: prod.splits bool.splits)
      (metis meters_push meters_retire snd_conv)+
  ultimately show ?thesis using p by (simp add: AethAlloc_dealloc_def Let_def split: option.splits)
qed

subsection \<open>Totals over runs\<close>

text \<open>The number of counted allocations and of frees in a list of events.\<close>

definition alloc_events :: "(nat \<times> Layout, nat) event list \<Rightarrow> nat" where
  "alloc_events es = length (filter (\<lambda>e. case e of Alloc (t, lay) \<Rightarrow> 0 < lay_size lay | _ \<Rightarrow> False) es)"

definition free_events :: "(nat \<times> Layout, nat) event list \<Rightarrow> nat" where
  "free_events es = length (filter (\<lambda>e. case e of Free t p n \<Rightarrow> True | _ \<Rightarrow> False) es)"

lemma event_counts [simp]:
  "alloc_events [] = 0" "free_events [] = 0"
  "alloc_events (es @ [Alloc (t, lay)]) = alloc_events es + (if 0 < lay_size lay then 1 else 0)"
  "alloc_events (es @ [Free u p n]) = alloc_events es" "alloc_events (es @ [Write a v]) = alloc_events es"
  "free_events (es @ [Alloc r]) = free_events es" "free_events (es @ [Free u p n]) = free_events es + 1"
  "free_events (es @ [Write a v]) = free_events es"
  by (simp_all add: alloc_events_def free_events_def)

context kernel
begin

lemma alloc_adds:
  assumes "counter g f da df" and "t < length (caches h)" and "aeth_alloc K (t, lay) h = (q, h')"
  shows "m_adds g f (if 0 < lay_size lay then da else 0) (meters_of h) (meters_of h')"
proof -
  obtain p where a: "AethAlloc_alloc K t lay h = (p, h')" using assms(3) by (cases "AethAlloc_alloc K t lay h") (auto simp: aeth_alloc_def)
  show ?thesis
  proof (cases "lay_size lay = 0")
    case True
    then show ?thesis using a by (simp add: AethAlloc_alloc_def)
  qed (use m_adds_alloc [OF alloc_counted [OF assms(2) _ a] _ assms(1)] assms(2) in simp)
qed

lemma run_adds:
  assumes c: "counter g f da df"
    and "heap_run (aeth_valid threads) (\<lambda>(t, lay). lay_size lay) (aeth_alloc K) (\<lambda>t. t < threads) (aeth_dealloc K) aeth_poke c0 es c1"
    and "heap_inv_at threads (fst c0) (snd c0)"
  shows "m_adds g f (da * alloc_events es + df * free_events es) (meters_of (snd c0)) (meters_of (snd c1))"
  using assms(2,3)
proof (induction rule: heap_run.induct)
  case (run_nil c)
  then show ?case by simp
next
  case (run_snoc c es c' e c'')
  have i: "heap_inv_at threads (fst c') (snd c')" using aeth.run_inv [OF run_snoc.hyps(1) run_snoc.prems] .
  then have len: "length (caches (snd c')) = threads" by (simp add: heap_inv_at_def)
  note IH = m_adds_trans [OF run_snoc.IH [OF run_snoc.prems]]
  have al: "m_adds g f (da * alloc_events (es @ [Alloc r]) + df * free_events (es @ [Alloc r])) (meters_of (snd c)) (meters_of h')"
    if "aeth_valid threads r" "aeth_alloc K r (snd c') = (q, h')" for r q h'
  proof -
    obtain t lay where tl: "r = (t, lay)" by fastforce
    then show ?thesis using IH [OF alloc_adds [OF c, of t "snd c'" lay q h']] that len by (simp add: aeth_valid_def algebra_simps split: if_splits)
  qed
  from run_snoc.hyps(2) show ?case
  proof cases
    case (alloc_ok r s p s' L)
    then show ?thesis using al [of r "Some p" s'] by simp
  next
    case (alloc_null r s s' L)
    then show ?thesis using al [of r None s'] by simp
  next
    case (free t p n L s)
    then have "p \<noteq> 0" using heap_inv_live(2) [of "fst c'" "snd c'" p n] i by (simp add: heap_inv_at_def)
    then have "m_adds g f df (meters_of s) (meters_of (AethAlloc_dealloc K t p s))"
      using free m_adds_free [OF dealloc_counted _ c, of t s p K] len by simp
    then show ?thesis using IH [of df "meters_of (AethAlloc_dealloc K t p s)"] free by (simp add: aeth_dealloc_def algebra_simps)
  next
    case (client_write p n L a s v)
    then show ?thesis using run_snoc.IH [OF run_snoc.prems] by (simp add: aeth_poke_def)
  qed
qed

end

lemma aeth_run_totals:
  assumes "kernel K"
    and "heap_run (aeth_valid threads) (\<lambda>(t, lay). lay_size lay) (aeth_alloc K) (\<lambda>t. t < threads) (aeth_dealloc K) aeth_poke
      ({#}, heap_new s threads) es (L, h)"
  shows "metric_total g_allocs t_allocs h = alloc_events es mod 2 ^ 64 \<and>
    metric_total g_frees t_frees h = free_events es mod 2 ^ 64 \<and>
    metric_total g_served served h = alloc_events es mod 2 ^ 64"
proof -
  have n: "meters_of (heap_new s threads) = (GlobalMetrics_new, replicate threads ThreadMetrics_new)"
    by (simp add: meters_of_def heap_new_def ThreadCache_new_def)
  have "metric_total g f h = (da * alloc_events es + df * free_events es) mod 2 ^ 64" if "counter g f da df" for g f da df
    using m_adds_new [OF kernel.run_adds [OF assms(1) that assms(2), simplified, unfolded n] that] heap_inv_at_new by (simp add: metric_total_def)
  from this [OF counters(1)] this [OF counters(2)] this [OF counters(3)] show ?thesis by simp
qed

text \<open>
  No operation is lost or counted twice in the metrics. Over any run of any number of threads, the global counter
  plus what the threads have not flushed yet is, modulo 2^64, the number of non-empty allocation requests for
  \<open>allocs\<close>, the number of frees for \<open>frees\<close>, and again the number of requests for the sum of hits, misses and
  direct allocations, so that every request is in exactly one of these three.
\<close>

theorem aeth_run_metrics:
  assumes "kernel K"
    and "heap_run (aeth_valid threads) (\<lambda>(t, lay). lay_size lay) (aeth_alloc K) (\<lambda>t. t < threads) (aeth_dealloc K) aeth_poke
      ({#}, heap_new s threads) es (L, h)"
  shows "metric_total g_allocs t_allocs h = alloc_events es mod 2 ^ 64 \<and>
    metric_total g_frees t_frees h = free_events es mod 2 ^ 64 \<and>
    metric_total g_served served h = alloc_events es mod 2 ^ 64"
  by (rule aeth_run_totals [OF assms])

theorem aeth_run_metrics_witness: "metric_total g_allocs t_allocs demo_heap = 1 \<and> metric_total g_frees t_frees demo_heap = 0"
proof -
  have "heap_exec (aeth_valid 2) (\<lambda>(t, lay). lay_size lay) (aeth_alloc (first_fit 9)) (\<lambda>t. t < 2) (aeth_dealloc (first_fit 9)) aeth_poke
      [Alloc (0, demo_layout)] ({#}, heap_new (pages_to 0 (\<lambda>_. 0)) 2) = Some ({#(4112, 4096)#}, demo_heap)"
    by (simp add: aeth_valid_def demo_layout_valid aeth_alloc_def demo_alloc) (simp add: demo_layout_def)
  from aeth_run_metrics [OF ff.kernel_axioms heap_execI [OF this]] show ?thesis
    by (simp add: alloc_events_def free_events_def) (simp add: demo_layout_def)
qed

end
