(* ===== verification/SimpleMetrics.thy ===== *)
theory SimpleMetrics
  imports SimpleProps Counters
begin

text \<open>
  Accounting of the metrics of the build without magazines: the same counts, made by the operations on the lists of free blocks.
\<close>

definition s_meters_of :: "sheap \<Rightarrow> meters" where
  "s_meters_of h = (s_metrics h, map cache_metrics (s_caches h))"

lemma s_meters_frame [simp]:
  "s_meters_of (set_local t cls a n h) = s_meters_of h" "s_meters_of (set_global cls a h) = s_meters_of h"
  "s_meters_of (s_write F h) = s_meters_of h" "s_meters_of (h\<lparr>s_space := s\<rparr>) = s_meters_of h"
  by (simp_all add: s_meters_of_def set_local_def set_global_def s_write_def Let_def map_update_same)

lemma s_meters_push [simp]: "s_meters_of (push_local t cls b h) = s_meters_of h" "s_meters_of (push_batch cls b e h) = s_meters_of h"
  by (simp_all add: push_local_def push_batch_def)

lemma s_meters_pop: "GlobalFreeList_pop cls h = (r, h') \<Longrightarrow> s_meters_of h' = s_meters_of h"
  by (auto simp: GlobalFreeList_pop_def Let_def split: if_splits)

lemma s_meters_batch: "pop_batch n t cls h = (k, h') \<Longrightarrow> s_meters_of h' = s_meters_of h"
  by (induction n arbitrary: h k h') (auto dest: s_meters_pop split: prod.splits option.splits)

lemma s_meters_carve [simp]: "s_meters_of (carve_local t cls b bs is h) = s_meters_of h"
  by (induction "is" arbitrary: h) simp_all

lemma s_meters_excess [simp]: "s_meters_of (flush_excess t cls h) = s_meters_of h"
  by (simp add: flush_excess_def Let_def)

lemma s_meters_bump [simp]: "s_meters_of (s_bump t F h) = m_bump t F (s_meters_of h)"
  by (cases "t < length (s_caches h)")
    (simp_all add: s_meters_of_def s_bump_def m_bump_def Let_def map_update list_update_beyond not_less)

lemma s_meters_flush: "t < length (s_caches h) \<Longrightarrow> s_meters_of (s_flush t h) = m_flush t (s_meters_of h)"
  by (simp add: s_meters_of_def s_flush_def m_flush_def Let_def map_update split: prod.splits)

lemma s_meters_length: "length (snd (s_meters_of h)) = length (s_caches h)"
  by (simp add: s_meters_of_def)

lemma s_caches_length: "s_meters_of h = v \<Longrightarrow> length (s_caches h) = length (snd v)"
  by (auto simp: s_meters_length)

lemma take_local_counted:
  assumes "t < length (s_caches h)" and "take_local t sz cls b h = (p, h')"
  shows "counted count_hit t (s_meters_of h) (s_meters_of h')"
proof -
  have "length (s_caches (s_bump t count_hit (set_local t cls x n h))) = length (s_caches h)" for x n
    using s_caches_length [of "s_bump t count_hit (set_local t cls x n h)", OF refl] by (simp add: s_meters_length)
  then show ?thesis using assms unfolding take_local_def Let_def count_folds by (auto simp: counted_def s_meters_flush)
qed

lemma simple_fresh_meters:
  assumes "t < length (s_caches h)" and "Simple_fresh_block K t sz bs h = (p, h')"
  shows "s_meters_of h' = s_meters_of h \<or> s_meters_of h' = m_flush t (s_meters_of h)"
  using assms by (auto simp: Simple_fresh_block_def s_write_def Let_def s_meters_flush split: prod.splits option.splits)

lemma simple_miss_counted:
  assumes "t < length (s_caches h)" and "Simple_miss K t sz cs cls h = (p, h')"
  shows "counted count_miss t (s_meters_of h) (s_meters_of h')"
proof -
  have len: "length (s_caches x) = length (s_caches h)" if "s_meters_of x = m_bump t count_miss (s_meters_of h)" for x
    using s_caches_length [OF that] by (simp add: s_meters_length)
  have fresh: "counted count_miss t (s_meters_of h) (s_meters_of h')"
    if "Simple_fresh_block K t sz bs x = (p, h')" "s_meters_of x = m_bump t count_miss (s_meters_of h)" for bs x
    using simple_fresh_meters [OF _ that(1)] len [OF that(2)] assms(1) that(2) by (auto simp: counted_def)
  have page: "s_meters_of (s_flush t x) = m_flush t (m_bump t count_miss (s_meters_of h))"
    if "s_meters_of x = m_bump t count_miss (s_meters_of h)" for x using s_meters_flush [of t x] len [OF that] assms(1) that by simp
  show ?thesis
    using assms fresh unfolding Simple_miss_def Let_def count_folds
    by (auto simp: counted_def page split: if_splits prod.splits option.splits)
qed

lemma simple_cached_counted:
  assumes t: "t < length (s_caches h)" and r: "Simple_alloc_cached K t sz cs cls h = (p, h')"
  shows "counted_alloc t (s_meters_of h) (s_meters_of h')"
proof -
  have "\<exists>x. s_meters_of x = s_meters_of h \<and> ((\<exists>b. take_local t sz cls b x = (p, h')) \<or> Simple_miss K t sz cs cls x = (p, h'))"
    using r unfolding Simple_alloc_cached_def Let_def by (auto dest: s_meters_batch split: if_splits prod.splits)
  then obtain x where x: "s_meters_of x = s_meters_of h" "(\<exists>b. take_local t sz cls b x = (p, h')) \<or> Simple_miss K t sz cs cls x = (p, h')" by blast
  have "t < length (s_caches x)" using t s_caches_length [OF x(1)] by (simp add: s_meters_length)
  then show ?thesis using x take_local_counted [of t x] simple_miss_counted [of t x] unfolding counted_alloc_def by metis
qed

lemma simple_large_counted:
  assumes "t < length (s_caches h)" and "Simple_alloc_large K t sz al h = (p, h')"
  shows "counted count_direct t (s_meters_of h) (s_meters_of h')"
proof -
  have "length (s_caches (s_bump t count_direct h)) = length (s_caches h)"
    using s_caches_length [of "s_bump t count_direct h", OF refl] by (simp add: s_meters_length)
  then show ?thesis using assms unfolding Simple_alloc_large_def Let_def count_folds
    by (auto simp: counted_def s_meters_flush split: prod.splits option.splits)
qed

lemma simple_alloc_counted:
  assumes "t < length (s_caches h)" and "0 < lay_size lay" and "Simple_alloc K t lay h = (p, h')"
  shows "counted_alloc t (s_meters_of h) (s_meters_of h')"
  using assms(2,3) simple_cached_counted [OF assms(1)] simple_large_counted [OF assms(1)]
  by (auto simp: Simple_alloc_def Let_def counted_alloc_def split: if_splits option.splits)

lemma simple_dealloc_counted:
  assumes t: "t < length (s_caches h)" and p: "p \<noteq> 0"
  shows "counted count_one_free t (s_meters_of h) (s_meters_of (Simple_dealloc K t p h))"
proof -
  have c: "counted count_one_free t (s_meters_of h) (s_meters_of (s_count_free t x))" if "s_meters_of x = s_meters_of h" for x
  proof -
    have "length (s_caches (s_bump t count_one_free x)) = length (s_caches h)"
      using s_caches_length [of "s_bump t count_one_free x", OF refl] that by (simp add: s_meters_length)
    then show ?thesis using t that unfolding s_count_free_def count_folds by (simp add: counted_def s_meters_flush)
  qed
  have "counted count_one_free t (s_meters_of h) (s_meters_of (Simple_dealloc_pages K t base h))" for base
    unfolding Simple_dealloc_pages_def Let_def by (rule c) simp
  moreover have "counted count_one_free t (s_meters_of h) (s_meters_of (Simple_dealloc_cached t cls blk h))" for cls blk
    using c [of "push_local t cls blk h"] by (simp add: Simple_dealloc_cached_def)
  ultimately show ?thesis using p by (simp add: Simple_dealloc_def Let_def split: option.splits)
qed

end
