(* ===== verification/CMetrics.thy ===== *)
theory CMetrics
  imports CProgram HeapMetrics SimpleMetrics
begin

text \<open>
  What the metrics say about a C program. The contract of a counted allocator adds to that of layout allocators that requests and
  releases count, and nothing else does; from it follows how many allocations and frees a list of C calls and results
  amounts to. Both builds keep the contract.
\<close>

locale counted_allocator = layout_allocator A holds threads region
  for A :: "'h global_alloc" and holds :: "live \<Rightarrow> 'h \<Rightarrow> bool" and threads :: nat and region :: "'h \<Rightarrow> addr set" +
  fixes meters :: "'h \<Rightarrow> meters"
  assumes holds_meters: "holds L h \<Longrightarrow> length (snd (meters h)) = threads"
    and alloc_counts: "t < length (snd (meters h)) \<Longrightarrow> 0 < lay_size lay \<Longrightarrow> ga_alloc A t lay h = (p, h') \<Longrightarrow>
      counted_alloc t (meters h) (meters h')"
    and dealloc_counts: "t < length (snd (meters h)) \<Longrightarrow> p \<noteq> 0 \<Longrightarrow> counted count_one_free t (meters h) (meters (ga_dealloc A t p h))"
    and write_counts: "meters (ga_write A f h) = meters h"

text \<open>The requests and the releases that reach the allocator in a call with its result.\<close>

definition reaches :: "usize \<Rightarrow> usize \<Rightarrow> nat" where
  "reaches sz al = (if 0 < sz \<and> Layout_from_size_align sz al \<noteq> None then 1 else 0)"

fun c_allocs :: "c_call \<times> c_result \<Rightarrow> nat" where
  "c_allocs (C_malloc sz, r) = reaches sz 8"
| "c_allocs (C_calloc nmemb sz, r) = (if nmemb * sz < 2 ^ 64 then reaches (nmemb * sz) 8 else 0)"
| "c_allocs (C_realloc q sz, r) = reaches sz 8"
| "c_allocs (C_aligned_alloc al sz, r) = reaches (max sz 1) al"
| "c_allocs (C_posix_memalign m al sz, r) = (if al mod 8 = 0 then reaches (max sz 1) al else 0)"
| "c_allocs _ = 0"

fun c_frees :: "c_call \<times> c_result \<Rightarrow> nat" where
  "c_frees (C_free q, r) = (if q \<noteq> 0 then 1 else 0)"
| "c_frees (C_realloc q sz, Pointer p) = (if q \<noteq> 0 \<and> (sz = 0 \<or> p \<noteq> 0) then 1 else 0)"
| "c_frees _ = 0"

context counted_allocator
begin

lemma malloc_adds:
  assumes "malloc A t sz a = (p, a')" and "t < length (snd (meters (ALLOCATOR a)))" and "counter g f da df"
  shows "m_adds g f (da * reaches sz 8) (meters (ALLOCATOR a)) (meters (ALLOCATOR a'))"
proof (cases "reaches sz 8 = 0")
  case True
  then have "sz = 0 \<or> Layout_from_size_align sz 8 = None" by (simp add: reaches_def split: if_splits)
  then have "ALLOCATOR a' = ALLOCATOR a" using assms(1) by (auto simp: malloc_def Let_def split: if_splits)
  with True show ?thesis by simp
next
  case False
  then obtain l where l: "0 < sz" "Layout_from_size_align sz 8 = Some l" "reaches sz 8 = 1" by (auto simp: reaches_def split: if_splits)
  then have "lay_size l = sz" and r: "ga_alloc A t l (ALLOCATOR a) = (p, ALLOCATOR a')"
    using assms(1) by (auto simp: malloc_def on_heap_def Let_def Layout_from_size_align_def split: if_splits prod.splits)
  then show ?thesis using m_adds_alloc [OF alloc_counts [OF assms(2) _ r] assms(2,3)] l by simp
qed

lemma aligned_adds:
  assumes "aligned_alloc A t al sz a = (p, a')" and "t < length (snd (meters (ALLOCATOR a)))" and "counter g f da df"
  shows "m_adds g f (da * reaches (max sz 1) al) (meters (ALLOCATOR a)) (meters (ALLOCATOR a'))"
proof (cases "Layout_from_size_align (max sz 1) al")
  case None
  then have "a' = a" "reaches (max sz 1) al = 0" using assms(1) by (auto simp: aligned_alloc_def reaches_def split: if_splits)
  then show ?thesis by simp
next
  case (Some l)
  then have l: "is_power_of_two al" "al \<noteq> 0" "lay_size l = max sz 1" "reaches (max sz 1) al = 1"
    by (auto simp: reaches_def Layout_from_size_align_def is_power_of_two_iff less_max_iff_disj split: if_splits)
  have r: "ga_alloc A t l (ALLOCATOR a) = (p, ALLOCATOR a')"
    using assms(1) Some l(1,2) by (auto simp: aligned_alloc_def on_heap_def split: prod.splits)
  show ?thesis using m_adds_alloc [OF alloc_counts [OF assms(2) _ r] assms(2,3)] l by (simp add: less_max_iff_disj)
qed

lemma free_adds:
  assumes "t < length (snd (meters (ALLOCATOR a)))" and "counter g f da df"
  shows "m_adds g f (df * (if p \<noteq> 0 then 1 else 0)) (meters (ALLOCATOR a)) (meters (ALLOCATOR (free A t p a)))"
  using m_adds_free [OF dealloc_counts [OF assms(1)] assms] by (simp add: free_def)

lemma perform_adds:
  assumes t: "t < length (snd (meters (ALLOCATOR a)))" and c: "counter g f da df" and r: "c_perform A t call a = (res, a')"
  shows "m_adds g f (da * c_allocs (call, res) + df * c_frees (call, res)) (meters (ALLOCATOR a)) (meters (ALLOCATOR a'))"
proof (cases call)
  case (C_malloc sz)
  then show ?thesis using r malloc_adds [OF _ t c] by (auto split: prod.splits)
next
  case (C_calloc nmemb sz)
  obtain p a1 where m: "malloc A t (nmemb * sz) a = (p, a1)" by fastforce
  show ?thesis
    using r C_calloc m malloc_adds [OF m t c] by (auto simp: calloc_def checked_mul_def write_counts split: if_splits)
next
  case (C_realloc q sz)
  obtain p a1 where m: "malloc A t sz a = (p, a1)" by fastforce
  note ma = malloc_adds [OF m t c]
  have fr: "m_adds g f (df * (if q \<noteq> 0 then 1 else 0)) (meters (ALLOCATOR x)) (meters (ALLOCATOR (free A t q x)))"
    if "length (snd (meters (ALLOCATOR x))) = length (snd (meters (ALLOCATOR a)))" for x
    by (rule free_adds [OF _ c]) (use t that in simp)
  have len: "length (snd (meters (ALLOCATOR a1))) = length (snd (meters (ALLOCATOR a)))" using ma by (simp add: m_adds_def)
  have both: "m_adds g f (da * reaches sz 8 + df) (meters (ALLOCATOR a)) (meters (ALLOCATOR (free A t q (store A F a1))))" if "q \<noteq> 0" for F
    using m_adds_trans [OF ma, of df "meters (ALLOCATOR (free A t q (store A F a1)))"] fr [of "store A F a1"] len that by (simp add: write_counts)
  consider "q = 0" | "q \<noteq> 0" "sz = 0" | "q \<noteq> 0" "sz \<noteq> 0" "p = 0" | "q \<noteq> 0" "sz \<noteq> 0" "p \<noteq> 0" by blast
  then show ?thesis
    using r C_realloc m ma fr [of a] both by cases (auto simp: realloc_def reaches_def Let_def)
next
  case (C_free q)
  then show ?thesis using r free_adds [OF t c, of q] by auto
next
  case (C_aligned_alloc al sz)
  then show ?thesis using r aligned_adds [OF _ t c] by (auto split: prod.splits)
next
  case (C_posix_memalign m al sz)
  obtain p a1 where al: "aligned_alloc A t al sz a = (p, a1)" by fastforce
  have "reaches (max sz 1) al = 0" if "\<not> is_power_of_two al" using that by (simp add: reaches_def Layout_from_size_align_def)
  moreover have "\<not> is_power_of_two 0" by (simp add: is_power_of_two_iff)
  ultimately show ?thesis
    using r C_posix_memalign al aligned_adds [OF al t c] by (auto simp: posix_memalign_def write_counts split: if_splits)
next
  case (C_store x v)
  then show ?thesis using r by (auto simp: write_counts)
next
  case (C_load x)
  then show ?thesis using r by auto
qed

lemma c_run_adds:
  assumes "c_run A threads a0 es a" and "holds {#} (ALLOCATOR a0)" and c: "counter g f da df"
  shows "m_adds g f (da * sum_list (map c_allocs es) + df * sum_list (map c_frees es)) (meters (ALLOCATOR a0)) (meters (ALLOCATOR a))"
  using assms(1,2)
proof (induction rule: c_run.induct)
  case c_start
  then show ?case by simp
next
  case (c_call es a H t call r a')
  have "t < length (snd (meters (ALLOCATOR a)))"
    using c_call.IH [OF c_call.prems] holds_meters [OF c_call.prems] c_call.hyps(3) by (simp add: m_adds_def)
  from m_adds_trans [OF c_call.IH [OF c_call.prems] perform_adds [OF this c c_call.hyps(5)]] show ?case by (simp add: algebra_simps)
qed

end

subsection \<open>The two builds\<close>

sublocale kernel \<subseteq> magazine_meters: counted_allocator "magazine_build K" "heap_inv_at threads" threads "\<lambda>h. mapped (space h)" meters_of for threads
proof (unfold_locales, goal_cases)
  case (1 L h)
  then show ?case by (simp add: heap_inv_at_def)
next
  case (2 t h lay p h')
  then show ?case using alloc_counted by simp
next
  case (3 t h p)
  then show ?case using dealloc_counted by simp
next
  case (4 f h)
  then show ?case by simp
qed

sublocale kernel \<subseteq> simple_meters: counted_allocator "simple_build K" "simple_inv threads" threads "\<lambda>h. mapped (s_space h)" s_meters_of for threads
proof (unfold_locales, goal_cases)
  case (1 L h)
  then show ?case by (simp add: simple_inv_def s_meters_length)
next
  case (2 t h lay p h')
  then show ?case using simple_alloc_counted by (simp add: s_meters_length)
next
  case (3 t h p)
  then show ?case using simple_dealloc_counted by (simp add: s_meters_length)
next
  case (4 f h)
  then show ?case by simp
qed

lemma start_meters:
  "meters_of (ALLOCATOR (c_start_magazine s threads)) = (GlobalMetrics_new, replicate threads ThreadMetrics_new)"
  "s_meters_of (ALLOCATOR (c_start_simple s threads)) = (GlobalMetrics_new, replicate threads ThreadMetrics_new)"
  by (simp_all add: meters_of_def s_meters_of_def c_start_magazine_def c_start_simple_def heap_new_def sheap_new_def ThreadCache_new_def
    SimpleCache_new_def)

context kernel
begin

lemma c_totals:
  assumes "counter g f da df"
  shows "c_run (magazine_build K) threads (c_start_magazine s threads) es a \<Longrightarrow>
      m_total g f (meters_of (ALLOCATOR a)) = (da * sum_list (map c_allocs es) + df * sum_list (map c_frees es)) mod 2 ^ 64"
    and "c_run (simple_build K) threads (c_start_simple s threads) es b \<Longrightarrow>
      m_total g f (s_meters_of (ALLOCATOR b)) = (da * sum_list (map c_allocs es) + df * sum_list (map c_frees es)) mod 2 ^ 64"
  using m_adds_new [OF magazine_meters.c_run_adds [OF _ c_start_holds(1) assms, unfolded start_meters] assms]
    m_adds_new [OF simple_meters.c_run_adds [OF _ c_start_holds(2) assms, unfolded start_meters] assms] by blast+

end

end
