(* ===== verification/Queue_Contract.thy ===== *)
theory Queue_Contract
  imports Prelude
begin

text \<open>
  The contract of a bounded first-in first-out queue: \<open>rep s xs\<close> relates a state to the list of its
  entries, oldest first. \<open>enq\<close> accepts an entry exactly when fewer than \<open>cap\<close> entries are stored, \<open>deq\<close>
  returns the oldest one. The labelled steps \<open>queue_step\<close> are the specification that an
  implementation with concurrent callers refines.
\<close>

locale bounded_queue =
  fixes rep :: "'s \<Rightarrow> 'a list \<Rightarrow> bool"
    and cap :: nat
    and enq :: "'a \<Rightarrow> 's \<Rightarrow> unit option \<times> 's"
    and deq :: "'s \<Rightarrow> 'a option \<times> 's"
  assumes enq_room: "rep s xs \<Longrightarrow> length xs < cap \<Longrightarrow> \<exists>s'. enq x s = (Some (), s') \<and> rep s' (xs @ [x])"
    and enq_full: "rep s xs \<Longrightarrow> length xs = cap \<Longrightarrow> \<exists>s'. enq x s = (None, s') \<and> rep s' xs"
    and deq_nil: "rep s [] \<Longrightarrow> \<exists>s'. deq s = (None, s') \<and> rep s' []"
    and deq_cons: "rep s (x # xs) \<Longrightarrow> \<exists>s'. deq s = (Some x, s') \<and> rep s' xs"
begin

primrec enq_all :: "'a list \<Rightarrow> 's \<Rightarrow> 's" where
  "enq_all [] s = s"
| "enq_all (x # xs) s = enq_all xs (snd (enq x s))"

primrec deq_many :: "nat \<Rightarrow> 's \<Rightarrow> 'a list \<times> 's" where
  "deq_many 0 s = ([], s)"
| "deq_many (Suc n) s =
     (case deq s of (None, s') \<Rightarrow> ([], s') | (Some x, s') \<Rightarrow> (case deq_many n s' of (ys, t) \<Rightarrow> (x # ys, t)))"

lemma enq_all_rep: "rep s xs \<Longrightarrow> length xs + length ys \<le> cap \<Longrightarrow> rep (enq_all ys s) (xs @ ys)"
proof (induction ys arbitrary: s xs)
  case (Cons y ys)
  then have "length xs < cap" by simp
  from enq_room [OF Cons.prems(1) this, of y] obtain s' where "enq y s = (Some (), s')" "rep s' (xs @ [y])" by blast
  with Cons.IH [of s' "xs @ [y]"] Cons.prems(2) show ?case by simp
qed simp

lemma deq_many_rep: "rep s xs \<Longrightarrow> \<exists>t. deq_many (length xs) s = (xs, t) \<and> rep t []"
proof (induction xs arbitrary: s)
  case (Cons x xs)
  from deq_cons [OF Cons.prems] obtain s' where "deq s = (Some x, s')" "rep s' xs" by blast
  with Cons.IH [of s'] show ?case by auto
qed simp

text \<open>What goes in comes out, in order.\<close>

lemma enq_deq_all: "rep s [] \<Longrightarrow> length ys \<le> cap \<Longrightarrow> \<exists>t. deq_many (length ys) (enq_all ys s) = (ys, t) \<and> rep t []"
  using enq_all_rep [of s "[]" ys] deq_many_rep [of "enq_all ys s" ys] by simp

end

subsection \<open>Labelled specification\<close>

datatype 'a queue_label = Tau | Pushed 'a | Push_full | Popped 'a | Pop_empty

inductive queue_step :: "nat \<Rightarrow> 'a list \<Rightarrow> 'a queue_label \<Rightarrow> 'a list \<Rightarrow> bool" for cap where
  q_tau: "queue_step cap q Tau q"
| q_push: "length q < cap \<Longrightarrow> queue_step cap q (Pushed x) (q @ [x])"
| q_full: "length q = cap \<Longrightarrow> queue_step cap q Push_full q"
| q_pop: "queue_step cap (x # q) (Popped x) q"
| q_empty: "queue_step cap [] Pop_empty []"

inductive queue_run :: "nat \<Rightarrow> 'a list \<Rightarrow> 'a queue_label list \<Rightarrow> 'a list \<Rightarrow> bool" for cap where
  run_nil: "queue_run cap q [] q"
| run_snoc: "queue_run cap q ls q' \<Longrightarrow> queue_step cap q' l q'' \<Longrightarrow> queue_run cap q (ls @ [l]) q''"

fun pushed_of :: "'a queue_label list \<Rightarrow> 'a list" where
  "pushed_of [] = []"
| "pushed_of (Pushed x # ls) = x # pushed_of ls"
| "pushed_of (_ # ls) = pushed_of ls"

fun popped_of :: "'a queue_label list \<Rightarrow> 'a list" where
  "popped_of [] = []"
| "popped_of (Popped x # ls) = x # popped_of ls"
| "popped_of (_ # ls) = popped_of ls"

lemma pushed_of_append [simp]: "pushed_of (ls @ ms) = pushed_of ls @ pushed_of ms"
  by (induction ls rule: pushed_of.induct) auto

lemma popped_of_append [simp]: "popped_of (ls @ ms) = popped_of ls @ popped_of ms"
  by (induction ls rule: popped_of.induct) auto

lemma queue_run_fifo: "queue_run cap q ls q' \<Longrightarrow> q @ pushed_of ls = popped_of ls @ q'"
proof (induction rule: queue_run.induct)
  case (run_snoc q ls q' l q'')
  from run_snoc.hyps(2) run_snoc.IH show ?case by cases simp_all
qed simp

lemma queue_run_bound: "queue_run cap q ls q' \<Longrightarrow> length q \<le> cap \<Longrightarrow> length q' \<le> cap"
proof (induction rule: queue_run.induct)
  case (run_snoc q ls q' l q'')
  from run_snoc.hyps(2) run_snoc.IH run_snoc.prems show ?case by cases simp_all
qed simp

end
