(* ===== verification/RingBuffer.thy ===== *)
theory RingBuffer
  imports Memory Queue_Contract
begin

text \<open>
  Offloading to the support core, \<open>aethalloc-amo/src\<close>: the commands and their 64-byte ring entries
  (\<open>command.rs\<close>), the single-producer single-consumer ring buffer with shadow indices
  (\<open>ring_buffer.rs\<close>) and the support core that drains it (\<open>support_core.rs\<close>). The operations
  \<open>try_push\<close> and \<open>try_pop\<close> are given twice: as one uninterrupted call, and split into their atomic accesses as
  steps of a producer and a consumer that interleave freely (sequentially consistent memory).
\<close>

subsection \<open>Commands\<close>

datatype RingCommand = FreeBlock | CompactionRequest | TagUpdate | StatsReport | NoOp

primrec RingCommand_code :: "RingCommand \<Rightarrow> byte" where
  "RingCommand_code FreeBlock = 0"
| "RingCommand_code CompactionRequest = 2"
| "RingCommand_code TagUpdate = 4"
| "RingCommand_code StatsReport = 3"
| "RingCommand_code NoOp = 255"

record FreeBlockPayload =
  fb_ptr :: addr
  fb_size :: usize
  fb_size_class :: byte

record CompactionRequestPayload =
  cr_start_addr :: addr
  cr_length :: usize

record TagUpdatePayload =
  tu_ptr :: addr
  tu_old_tag :: nat
  tu_new_tag :: nat

record StatsReportPayload =
  sr_thread_id :: nat
  sr_allocs :: nat
  sr_frees :: nat

text \<open>The union is its 56 bytes; a field is read and written at its \<open>repr(C)\<close> offset.\<close>

type_synonym RingPayload = mem

definition RingPayload_default :: RingPayload where
  "RingPayload_default = (\<lambda>_. 0)"

definition get_free_block :: "RingPayload \<Rightarrow> FreeBlockPayload" where
  "get_free_block m = \<lparr>fb_ptr = read_usize m 0, fb_size = read_usize m 8, fb_size_class = m 16\<rparr>"

definition set_free_block :: "FreeBlockPayload \<Rightarrow> RingPayload \<Rightarrow> RingPayload" where
  "set_free_block p m = (write_usize (fb_size p) 8 (write_usize (fb_ptr p) 0 m))(16 := fb_size_class p)"

definition get_compaction :: "RingPayload \<Rightarrow> CompactionRequestPayload" where
  "get_compaction m = \<lparr>cr_start_addr = read_usize m 0, cr_length = read_usize m 8\<rparr>"

definition set_compaction :: "CompactionRequestPayload \<Rightarrow> RingPayload \<Rightarrow> RingPayload" where
  "set_compaction p m = write_usize (cr_length p) 8 (write_usize (cr_start_addr p) 0 m)"

definition get_tag_update :: "RingPayload \<Rightarrow> TagUpdatePayload" where
  "get_tag_update m = \<lparr>tu_ptr = read_usize m 0, tu_old_tag = read_le 2 m 8, tu_new_tag = read_le 2 m 10\<rparr>"

definition set_tag_update :: "TagUpdatePayload \<Rightarrow> RingPayload \<Rightarrow> RingPayload" where
  "set_tag_update p m = write_le 2 (tu_new_tag p) 10 (write_le 2 (tu_old_tag p) 8 (write_usize (tu_ptr p) 0 m))"

definition get_stats :: "RingPayload \<Rightarrow> StatsReportPayload" where
  "get_stats m = \<lparr>sr_thread_id = read_usize m 0, sr_allocs = read_usize m 8, sr_frees = read_usize m 16\<rparr>"

definition set_stats :: "StatsReportPayload \<Rightarrow> RingPayload \<Rightarrow> RingPayload" where
  "set_stats p m = write_usize (sr_frees p) 16 (write_usize (sr_allocs p) 8 (write_usize (sr_thread_id p) 0 m))"

record RingEntry =
  re_command :: RingCommand
  re_reserved :: "byte list"
  re_payload :: RingPayload

definition RingEntry_new :: "RingCommand \<Rightarrow> RingPayload \<Rightarrow> RingEntry" where
  "RingEntry_new c p = \<lparr>re_command = c, re_reserved = replicate 7 0, re_payload = p\<rparr>"

definition RingEntry_default :: RingEntry where
  "RingEntry_default = \<lparr>re_command = NoOp, re_reserved = replicate 7 0, re_payload = RingPayload_default\<rparr>"

text \<open>\<open>core::mem::zeroed()\<close> as an entry: the command byte 0 is \<open>FreeBlock\<close>.\<close>

definition RingEntry_zeroed :: RingEntry where
  "RingEntry_zeroed = \<lparr>re_command = FreeBlock, re_reserved = replicate 7 0, re_payload = (\<lambda>_. 0)\<rparr>"

subsection \<open>The ring buffer\<close>

record RingBuffer =
  rb_head :: usize
  rb_tail :: usize
  rb_shadow_tail :: usize
  rb_shadow_head :: usize
  rb_buffer :: "RingEntry list"

text \<open>\<open>None\<close> is the panic of \<open>assert!(CAPACITY.is_power_of_two())\<close>.\<close>

definition RingBuffer_new :: "nat \<Rightarrow> RingBuffer option" where
  "RingBuffer_new C =
     (if is_power_of_two C
      then Some \<lparr>rb_head = 0, rb_tail = 0, rb_shadow_tail = 0, rb_shadow_head = 0, rb_buffer = replicate C RingEntry_zeroed\<rparr>
      else None)"

definition RingBuffer_len :: "nat \<Rightarrow> RingBuffer \<Rightarrow> usize" where
  "RingBuffer_len C rb = wsub (rb_head rb) (rb_tail rb) AND (C - 1)"

definition RingBuffer_is_empty :: "nat \<Rightarrow> RingBuffer \<Rightarrow> bool" where
  "RingBuffer_is_empty C rb \<longleftrightarrow> RingBuffer_len C rb = 0"

definition RingBuffer_is_full :: "nat \<Rightarrow> RingBuffer \<Rightarrow> bool" where
  "RingBuffer_is_full C rb \<longleftrightarrow> RingBuffer_len C rb = C - 1"

definition RingBuffer_capacity :: "nat \<Rightarrow> RingBuffer \<Rightarrow> usize" where
  "RingBuffer_capacity C rb = C"

definition next_index :: "nat \<Rightarrow> usize \<Rightarrow> usize" where
  "next_index C i = wadd i 1 AND (C - 1)"

text \<open>
  The slots are indexed by \<open>head\<close> and \<open>tail\<close>, which \<open>next_index\<close> masks; the bounds check of \<open>self.buffer[head]\<close> never
  fails on a reachable ring (\<open>ring_rep\<close> below), so its panic has no branch here.
\<close>

definition try_push :: "nat \<Rightarrow> RingEntry \<Rightarrow> RingBuffer \<Rightarrow> unit option \<times> RingBuffer" where
  "try_push C entry rb =
     (let head = rb_head rb;
          next_head = next_index C head;
          write = (\<lambda>rb. (Some (), rb\<lparr>rb_buffer := (rb_buffer rb)[head := entry], rb_head := next_head\<rparr>))
      in if next_head = rb_shadow_tail rb
         then let rb1 = rb\<lparr>rb_shadow_tail := rb_tail rb\<rparr>
              in if next_head = rb_shadow_tail rb1 then (None, rb1) else write rb1
         else write rb)"

definition try_pop :: "nat \<Rightarrow> RingBuffer \<Rightarrow> RingEntry option \<times> RingBuffer" where
  "try_pop C rb =
     (let tail = rb_tail rb;
          take = (\<lambda>rb. (Some (rb_buffer rb ! tail), rb\<lparr>rb_tail := next_index C tail\<rparr>))
      in if tail = rb_shadow_head rb
         then let rb1 = rb\<lparr>rb_shadow_head := rb_head rb\<rparr>
              in if tail = rb_shadow_head rb1 then (None, rb1) else take rb1
         else take rb)"

subsection \<open>Representation\<close>

text \<open>
  \<open>t\<close>, \<open>st\<close> and \<open>sh\<close> count how often the tail, the producer's copy of it and the consumer's copy of the
  head have advanced; the indices of the code are these counts modulo the capacity.
\<close>

definition ring_at :: "nat \<Rightarrow> nat \<Rightarrow> nat \<Rightarrow> nat \<Rightarrow> RingBuffer \<Rightarrow> RingEntry list \<Rightarrow> bool" where
  "ring_at C t st sh rb xs \<longleftrightarrow>
     st \<le> t \<and> t \<le> sh \<and> sh \<le> t + length xs \<and> t + length xs < st + C \<and>
     rb_head rb = (t + length xs) mod C \<and> rb_tail rb = t mod C \<and>
     rb_shadow_tail rb = st mod C \<and> rb_shadow_head rb = sh mod C \<and>
     length (rb_buffer rb) = C \<and> (\<forall>i < length xs. rb_buffer rb ! ((t + i) mod C) = xs ! i)"

definition ring_rep :: "nat \<Rightarrow> RingBuffer \<Rightarrow> RingEntry list \<Rightarrow> bool" where
  "ring_rep C rb xs \<longleftrightarrow> (\<exists>k < 64. C = 2 ^ k) \<and> (\<exists>t st sh. ring_at C t st sh rb xs)"

lemma next_index_mod:
  assumes "C = 2 ^ k" and "k < 64"
  shows "next_index C (n mod C) = Suc n mod C"
proof -
  have "C < 2 ^ 64" unfolding assms(1) by (rule power_strict_increasing) (use assms(2) in auto)
  moreover have "n mod C < C" using assms(1) by simp
  ultimately have "wadd (n mod C) 1 = n mod C + 1" by (simp add: wadd_in_range)
  then have "next_index C (n mod C) = (n mod C + 1) mod C" unfolding next_index_def by (simp only: assms(1) and_low_mask)
  then show ?thesis by (simp add: mod_Suc_eq)
qed

lemma mod_window_eq:
  fixes a b C :: nat
  assumes "a mod C = b mod C" and "a \<le> b" and "b < a + C"
  shows "a = b"
proof -
  have "C dvd b - a" using assms(1,2) by (metis mod_eq_dvd_iff_nat)
  with assms(2,3) show ?thesis by (cases "b - a = 0") (auto dest: dvd_imp_le)
qed

lemma next_is_shadow:
  assumes "ring_at C t st sh rb xs" and "C = 2 ^ k" and "k < 64"
  shows "next_index C (rb_head rb) = rb_shadow_tail rb \<longleftrightarrow> Suc (t + length xs) = st + C"
proof -
  have n: "next_index C (rb_head rb) = Suc (t + length xs) mod C"
    using assms next_index_mod by (simp add: ring_at_def)
  have s: "rb_shadow_tail rb = (st + C) mod C" using assms(1) by (simp add: ring_at_def)
  show ?thesis
    unfolding n s using mod_window_eq [of "Suc (t + length xs)" C "st + C"] assms(1) by (auto simp: ring_at_def)
qed

lemma tail_is_shadow:
  assumes "ring_at C t st sh rb xs"
  shows "rb_tail rb = rb_shadow_head rb \<longleftrightarrow> t = sh"
  using mod_window_eq [of t C sh] assms by (auto simp: ring_at_def)

lemma ring_at_write:
  assumes "ring_at C t st sh rb xs" and "C = 2 ^ k" and "k < 64" and "Suc (t + length xs) < st + C"
  shows "ring_at C t st sh (rb\<lparr>rb_buffer := (rb_buffer rb)[rb_head rb := e]\<rparr>) xs"
    and "rb_buffer (rb\<lparr>rb_buffer := (rb_buffer rb)[rb_head rb := e]\<rparr>) ! rb_head rb = e"
proof -
  let ?h = "t + length xs"
  have "?h mod C < C" using assms(2) by simp
  moreover have "?h mod C \<noteq> (t + i) mod C" if "i < length xs" for i
    using mod_window_eq [of "t + i" C ?h] assms(1) that by (auto simp: ring_at_def)
  ultimately show "ring_at C t st sh (rb\<lparr>rb_buffer := (rb_buffer rb)[rb_head rb := e]\<rparr>) xs"
    using assms(1) by (auto simp: ring_at_def)
  show "rb_buffer (rb\<lparr>rb_buffer := (rb_buffer rb)[rb_head rb := e]\<rparr>) ! rb_head rb = e"
    using assms(1) \<open>?h mod C < C\<close> by (simp add: ring_at_def)
qed

lemma ring_at_publish:
  assumes "ring_at C t st sh rb xs" and "C = 2 ^ k" and "k < 64" and "Suc (t + length xs) < st + C"
    and "rb_buffer rb ! rb_head rb = e"
  shows "ring_at C t st sh (rb\<lparr>rb_head := next_index C (rb_head rb)\<rparr>) (xs @ [e])"
  using assms next_index_mod [OF assms(2,3), of "t + length xs"]
  by (auto simp: ring_at_def nth_append less_Suc_eq)

lemma ring_at_advance:
  assumes "ring_at C t st sh rb (x # xs)" and "C = 2 ^ k" and "k < 64" and "t < sh"
  shows "ring_at C (Suc t) st sh (rb\<lparr>rb_tail := next_index C (rb_tail rb)\<rparr>) xs" and "rb_buffer rb ! rb_tail rb = x"
proof -
  have "rb_buffer rb ! ((t + Suc i) mod C) = (x # xs) ! Suc i" if "i < length xs" for i
    using assms(1) that unfolding ring_at_def by (metis Suc_less_eq length_Cons)
  then show "ring_at C (Suc t) st sh (rb\<lparr>rb_tail := next_index C (rb_tail rb)\<rparr>) xs"
    using assms next_index_mod [OF assms(2,3), of t] by (auto simp: ring_at_def)
  show "rb_buffer rb ! rb_tail rb = x" using assms(1) by (auto simp: ring_at_def)
qed

lemma ring_at_shadow_tail:
  "ring_at C t st sh rb xs \<Longrightarrow> t + length xs < t + C \<Longrightarrow> ring_at C t t sh (rb\<lparr>rb_shadow_tail := rb_tail rb\<rparr>) xs"
  by (simp add: ring_at_def)

lemma ring_at_shadow_head:
  "ring_at C t st sh rb xs \<Longrightarrow> ring_at C t st (t + length xs) (rb\<lparr>rb_shadow_head := rb_head rb\<rparr>) xs"
  by (simp add: ring_at_def)

lemma ring_at_push:
  assumes r: "ring_at C t st sh rb xs" and C: "C = 2 ^ k" "k < 64" and room: "Suc (t + length xs) < st + C"
  shows "ring_at C t st sh (rb\<lparr>rb_buffer := (rb_buffer rb)[rb_head rb := e], rb_head := next_index C (rb_head rb)\<rparr>) (xs @ [e])"
  using ring_at_publish [OF ring_at_write(1) [OF r C room, of e] C room, of e] ring_at_write(2) [OF r C room, of e] by simp

interpretation ring: bounded_queue "ring_rep C" "C - 1" "try_push C" "try_pop C" for C
proof (unfold_locales, goal_cases)
  case (1 rb xs e)
  then obtain k t st sh where C: "C = 2 ^ k" "k < 64" and r: "ring_at C t st sh rb xs" by (auto simp: ring_rep_def)
  let ?n = "next_index C (rb_head rb)"
  show ?case
  proof (cases "?n = rb_shadow_tail rb")
    case False
    then have "Suc (t + length xs) < st + C" using next_is_shadow [OF r C] r by (auto simp: ring_at_def)
    from ring_at_push [OF r C this, of e] False C show ?thesis by (auto simp: try_push_def Let_def ring_rep_def)
  next
    case True
    let ?rb = "rb\<lparr>rb_shadow_tail := rb_tail rb\<rparr>"
    have r1: "ring_at C t t sh ?rb xs" by (rule ring_at_shadow_tail [OF r]) (use 1 in simp)
    have room: "Suc (t + length xs) < t + C" using 1(2) by simp
    have "?n \<noteq> rb_tail rb" using next_is_shadow [OF r1 C] room by simp
    with True ring_at_push [OF r1 C room, of e] C show ?thesis by (auto simp: try_push_def Let_def ring_rep_def)
  qed
next
  case (2 rb xs e)
  then obtain k t st sh where C: "C = 2 ^ k" "k < 64" and r: "ring_at C t st sh rb xs" by (auto simp: ring_rep_def)
  have len: "Suc (t + length xs) = t + C" using 2(2) C(1) by simp
  then have "st = t" using r by (simp add: ring_at_def)
  let ?rb = "rb\<lparr>rb_shadow_tail := rb_tail rb\<rparr>"
  have r1: "ring_at C t t sh ?rb xs" by (rule ring_at_shadow_tail [OF r]) (use len in simp)
  have "next_index C (rb_head rb) = rb_shadow_tail rb" "next_index C (rb_head rb) = rb_tail rb"
    using next_is_shadow [OF r C] next_is_shadow [OF r1 C] len \<open>st = t\<close> by simp_all
  with r1 C show ?case by (auto simp: try_push_def Let_def ring_rep_def)
next
  case (3 rb)
  then obtain k t st sh where C: "C = 2 ^ k" "k < 64" and r: "ring_at C t st sh rb []" by (auto simp: ring_rep_def)
  then have "rb_tail rb = rb_shadow_head rb" "rb_tail rb = rb_head rb" by (auto simp: ring_at_def)
  with ring_at_shadow_head [OF r] C show ?case by (auto simp: try_pop_def Let_def ring_rep_def)
next
  case (4 rb x xs)
  then obtain k t st sh where C: "C = 2 ^ k" "k < 64" and r: "ring_at C t st sh rb (x # xs)" by (auto simp: ring_rep_def)
  show ?case
  proof (cases "rb_tail rb = rb_shadow_head rb")
    case False
    then have "t < sh" using tail_is_shadow [OF r] r by (auto simp: ring_at_def)
    from ring_at_advance [OF r C this] False C show ?thesis by (auto simp: try_pop_def Let_def ring_rep_def)
  next
    case True
    let ?rb = "rb\<lparr>rb_shadow_head := rb_head rb\<rparr>"
    have r1: "ring_at C t st (t + length (x # xs)) ?rb (x # xs)" by (rule ring_at_shadow_head [OF r])
    have "rb_tail rb \<noteq> rb_head rb" using tail_is_shadow [OF r1] by simp
    with True ring_at_advance [OF r1 C] C show ?thesis by (auto simp: try_pop_def Let_def ring_rep_def)
  qed
qed

lemma ring_rep_new:
  assumes "RingBuffer_new C = Some rb" and "C < 2 ^ 64"
  shows "ring_rep C rb []"
proof -
  obtain k where k: "C = 2 ^ k" using assms(1) by (auto simp: RingBuffer_new_def is_power_of_two_iff split: if_splits)
  then have "k < 64" using assms(2) by (metis nat_power_less_imp_less zero_less_numeral)
  moreover have "ring_at C 0 0 0 rb []" using assms(1) k by (auto simp: RingBuffer_new_def ring_at_def split: if_splits)
  ultimately show ?thesis using k by (auto simp: ring_rep_def)
qed

lemma ring_len:
  assumes "ring_rep C rb xs"
  shows "RingBuffer_len C rb = length xs"
proof -
  obtain k t st sh where C: "C = 2 ^ k" "k < 64" and r: "ring_at C t st sh rb xs" using assms by (auto simp: ring_rep_def)
  let ?h = "t + length xs"
  have lt: "C < 2 ^ 64" unfolding C(1) by (rule power_strict_increasing) (use C(2) in auto)
  have d: "C dvd 2 ^ 64" unfolding C(1) by (rule le_imp_power_dvd) (use C(2) in simp)
  have tb: "t mod C < 2 ^ 64" using lt mod_less_divisor [of C t] C(1) by (intro less_trans [OF _ lt]) simp
  have "RingBuffer_len C rb = (?h mod C + (2 ^ 64 - t mod C)) mod 2 ^ 64 mod C"
    using r tb unfolding RingBuffer_len_def wsub_def C(1) by (simp add: and_low_mask [of _ k, unfolded One_nat_def] ring_at_def)
  also have "\<dots> = (?h mod C + (2 ^ 64 - t mod C)) mod C" by (rule mod_mod_cancel [OF d])
  also have "\<dots> = length xs mod C"
  proof -
    obtain q where q: "2 ^ 64 = C * q" using d by (auto simp: dvd_def)
    have e: "t = C * (t div C) + t mod C" by simp
    have "(?h + (2 ^ 64 - t mod C)) mod C = length xs mod C"
    proof -
      have "?h + (2 ^ 64 - t mod C) = length xs + (C * (t div C) + C * q)" using e q tb by linarith
      also have "\<dots> = length xs + C * (t div C + q)" by (simp add: distrib_left)
      finally have "?h + (2 ^ 64 - t mod C) = length xs + C * (t div C + q)" .
      then show ?thesis by (simp only: mod_mult_self2)
    qed
    then show ?thesis by (simp add: mod_simps)
  qed
  also have "\<dots> = length xs" using r by (simp add: ring_at_def)
  finally show ?thesis .
qed

subsection \<open>Blocking operations and the support core\<close>

partial_function (option) push :: "nat \<Rightarrow> RingEntry \<Rightarrow> RingBuffer \<Rightarrow> RingBuffer option" where
  "push C entry rb =
     (case try_push C entry rb of (Some _, rb') \<Rightarrow> Some rb' | (None, rb') \<Rightarrow> push C entry rb')"

partial_function (option) pop :: "nat \<Rightarrow> RingBuffer \<Rightarrow> (RingEntry \<times> RingBuffer) option" where
  "pop C rb = (case try_pop C rb of (Some e, rb') \<Rightarrow> Some (e, rb') | (None, rb') \<Rightarrow> pop C rb')"

record SupportCore =
  running :: bool

definition SupportCore_new :: SupportCore where
  "SupportCore_new = \<lparr>running = True\<rparr>"

definition SupportCore_stop :: "SupportCore \<Rightarrow> SupportCore" where
  "SupportCore_stop core = core\<lparr>running := False\<rparr>"

text \<open>
  What the support core can be seen to do with a command: every arm but that of \<open>NoOp\<close> copies the payload out of the union under the view of
  its command, and drops it. The copy is the second result of \<open>handle_command\<close>.
\<close>

datatype payload_view =
    View_free_block FreeBlockPayload
  | View_compaction CompactionRequestPayload
  | View_tag_update TagUpdatePayload
  | View_stats StatsReportPayload

definition handle_command :: "RingEntry \<Rightarrow> SupportCore \<Rightarrow> SupportCore \<times> payload_view option" where
  "handle_command entry core =
     (case re_command entry of
        FreeBlock \<Rightarrow> let payload = get_free_block (re_payload entry) in (core, Some (View_free_block payload))
      | CompactionRequest \<Rightarrow> let payload = get_compaction (re_payload entry) in (core, Some (View_compaction payload))
      | TagUpdate \<Rightarrow> let payload = get_tag_update (re_payload entry) in (core, Some (View_tag_update payload))
      | StatsReport \<Rightarrow> let payload = get_stats (re_payload entry) in (core, Some (View_stats payload))
      | NoOp \<Rightarrow> (core, None))"

text \<open>
  The loop of \<open>run\<close> with at most \<open>fuel\<close> iterations; \<open>env\<close> is what the producer does to the ring between two
  iterations. The results are whether the loop has ended, the state, and the payloads that \<open>handle_command\<close> has read, in order.
\<close>

primrec SupportCore_run :: "nat \<Rightarrow> nat \<Rightarrow> (nat \<Rightarrow> RingBuffer \<Rightarrow> RingBuffer) \<Rightarrow> SupportCore \<Rightarrow> RingBuffer \<Rightarrow>
    bool \<times> SupportCore \<times> RingBuffer \<times> payload_view list" where
  "SupportCore_run 0 C env core rb = (\<not> running core, core, rb, [])"
| "SupportCore_run (Suc fuel) C env core rb =
     (if running core
      then case try_pop C (env fuel rb) of
             (Some entry, rb') \<Rightarrow>
               (case handle_command entry core of
                  (core', r) \<Rightarrow>
                    (case SupportCore_run fuel C env core' rb' of
                       (ended, core'', rb'', reads) \<Rightarrow>
                         (ended, core'', rb'', case r of Some v \<Rightarrow> v # reads | None \<Rightarrow> reads)))
           | (None, rb') \<Rightarrow> SupportCore_run fuel C env core rb'
      else (True, core, rb, []))"

lemma handle_command_core [simp]: "fst (handle_command e core) = core"
  by (simp add: handle_command_def split: RingCommand.splits)

lemma push_room: "ring_rep C rb xs \<Longrightarrow> length xs < C - 1 \<Longrightarrow> \<exists>rb'. push C e rb = Some rb' \<and> ring_rep C rb' (xs @ [e])"
  using ring.enq_room [of C rb xs e] by (subst push.simps) auto

lemma pop_nonempty: "ring_rep C rb (x # xs) \<Longrightarrow> \<exists>rb'. pop C rb = Some (x, rb') \<and> ring_rep C rb' xs"
  using ring.deq_cons [of C rb x xs] by (subst pop.simps) auto

text \<open>The entry a sender makes of a request, on top of the bytes \<open>m\<close> that the union had before; \<open>None\<close> stands for \<open>NoOp\<close>.\<close>

fun entry_of :: "RingPayload \<Rightarrow> payload_view option \<Rightarrow> RingEntry" where
  "entry_of m (Some (View_free_block p)) = RingEntry_new FreeBlock (set_free_block p m)"
| "entry_of m (Some (View_compaction p)) = RingEntry_new CompactionRequest (set_compaction p m)"
| "entry_of m (Some (View_tag_update p)) = RingEntry_new TagUpdate (set_tag_update p m)"
| "entry_of m (Some (View_stats p)) = RingEntry_new StatsReport (set_stats p m)"
| "entry_of m None = RingEntry_new NoOp m"

text \<open>The fields are within their widths.\<close>

fun in_width :: "payload_view option \<Rightarrow> bool" where
  "in_width (Some (View_free_block p)) \<longleftrightarrow> fb_ptr p < 2 ^ 64 \<and> fb_size p < 2 ^ 64"
| "in_width (Some (View_compaction p)) \<longleftrightarrow> cr_start_addr p < 2 ^ 64 \<and> cr_length p < 2 ^ 64"
| "in_width (Some (View_tag_update p)) \<longleftrightarrow> tu_ptr p < 2 ^ 64 \<and> tu_old_tag p < 2 ^ 16 \<and> tu_new_tag p < 2 ^ 16"
| "in_width (Some (View_stats p)) \<longleftrightarrow> sr_thread_id p < 2 ^ 64 \<and> sr_allocs p < 2 ^ 64 \<and> sr_frees p < 2 ^ 64"
| "in_width None \<longleftrightarrow> True"

lemma handle_entry_of: "in_width r \<Longrightarrow> handle_command (entry_of m r) core = (core, r)"
proof -
  have "read_usize (f(16 := v)) 0 = read_usize f 0" "read_usize (f(16 := v)) 8 = read_usize f 8" for f :: mem and v
    by (rule read_le_cong, simp)+
  then show "in_width r \<Longrightarrow> handle_command (entry_of m r) core = (core, r)"
    by (cases r rule: in_width.cases) (simp_all add: handle_command_def RingEntry_new_def get_free_block_def set_free_block_def
      get_compaction_def set_compaction_def get_tag_update_def set_tag_update_def get_stats_def set_stats_def)
qed

primrec send_all :: "nat \<Rightarrow> RingEntry list \<Rightarrow> RingBuffer \<Rightarrow> RingBuffer option" where
  "send_all C [] rb = Some rb"
| "send_all C (e # es) rb = (case push C e rb of None \<Rightarrow> None | Some rb' \<Rightarrow> send_all C es rb')"

lemma send_all_rep:
  "ring_rep C rb xs \<Longrightarrow> length xs + length es < C \<Longrightarrow> \<exists>rb'. send_all C es rb = Some rb' \<and> ring_rep C rb' (xs @ es)"
proof (induction es arbitrary: rb xs)
  case (Cons e es)
  have "length xs < C - 1" using Cons.prems(2) by simp
  from push_room [OF Cons.prems(1) this, of e] obtain rb1 where "push C e rb = Some rb1" "ring_rep C rb1 (xs @ [e])" by blast
  with Cons.IH [of rb1 "xs @ [e]"] Cons.prems(2) show ?case by simp
qed simp

lemma SupportCore_drains:
  "ring_rep C rb (map (entry_of m) rs) \<Longrightarrow> \<forall>r \<in> set rs. in_width r \<Longrightarrow>
    \<exists>rb'. SupportCore_run (length rs) C (\<lambda>_. id) SupportCore_new rb = (False, SupportCore_new, rb', List.map_filter id rs) \<and> ring_rep C rb' []"
proof (induction rs arbitrary: rb)
  case Nil
  then show ?case by (simp add: SupportCore_new_def List.map_filter_simps)
next
  case (Cons r rs)
  from ring.deq_cons [of C rb "entry_of m r" "map (entry_of m) rs"] Cons.prems obtain rb1 where
    "try_pop C rb = (Some (entry_of m r), rb1)" "ring_rep C rb1 (map (entry_of m) rs)" by auto
  moreover have "\<forall>r \<in> set rs. in_width r" using Cons.prems(2) by simp
  with Cons.IH calculation(2) obtain rb' where
    "SupportCore_run (length rs) C (\<lambda>_. id) SupportCore_new rb1 = (False, SupportCore_new, rb', List.map_filter id rs)" "ring_rep C rb' []"
    by blast
  moreover have "running SupportCore_new" by (simp add: SupportCore_new_def)
  ultimately show ?case
    using handle_entry_of [of r m SupportCore_new] Cons.prems(2) by (cases r) (simp_all add: List.map_filter_simps id_def)
qed

lemma SupportCore_never_returns: "running core \<Longrightarrow> \<not> fst (SupportCore_run fuel C env core rb)"
proof (induction fuel arbitrary: rb)
  case (Suc fuel)
  obtain r rb' where p: "try_pop C (env fuel rb) = (r, rb')" by (cases "try_pop C (env fuel rb)")
  show ?case
  proof (cases r)
    case (Some e)
    obtain v where "handle_command e core = (core, v)" using handle_command_core [of e core] by (cases "handle_command e core") simp
    with Suc p Some show ?thesis by (cases "SupportCore_run fuel C env core rb'") (auto dest: Suc.IH [of rb'])
  qed (use Suc p in simp)
qed simp

subsection \<open>Interleaved producer and consumer\<close>

text \<open>
  Control points between the shared accesses: after the check of the shadow copy the producer goes on to
  reload the tail, or to write its slot; then it publishes the new head. The consumer likewise.
\<close>

datatype producer = PIdle | PSlow RingEntry | PWrite RingEntry | PPublish RingEntry
datatype consumer = CIdle | CSlow | CRead | CAdvance RingEntry

record ring_sys =
  rs_ring :: RingBuffer
  rs_prod :: producer
  rs_cons :: consumer

inductive ring_step :: "nat \<Rightarrow> ring_sys \<Rightarrow> RingEntry queue_label \<Rightarrow> ring_sys \<Rightarrow> bool" for C where
  p_check_slow: "rs_prod s = PIdle \<Longrightarrow> next_index C (rb_head (rs_ring s)) = rb_shadow_tail (rs_ring s) \<Longrightarrow>
    ring_step C s Tau (s\<lparr>rs_prod := PSlow e\<rparr>)"
| p_check_fast: "rs_prod s = PIdle \<Longrightarrow> next_index C (rb_head (rs_ring s)) \<noteq> rb_shadow_tail (rs_ring s) \<Longrightarrow>
    ring_step C s Tau (s\<lparr>rs_prod := PWrite e\<rparr>)"
| p_reload_full: "rs_prod s = PSlow e \<Longrightarrow> next_index C (rb_head (rs_ring s)) = rb_tail (rs_ring s) \<Longrightarrow>
    ring_step C s Push_full
      (s\<lparr>rs_prod := PIdle, rs_ring := (rs_ring s)\<lparr>rb_shadow_tail := rb_tail (rs_ring s)\<rparr>\<rparr>)"
| p_reload_room: "rs_prod s = PSlow e \<Longrightarrow> next_index C (rb_head (rs_ring s)) \<noteq> rb_tail (rs_ring s) \<Longrightarrow>
    ring_step C s Tau
      (s\<lparr>rs_prod := PWrite e, rs_ring := (rs_ring s)\<lparr>rb_shadow_tail := rb_tail (rs_ring s)\<rparr>\<rparr>)"
| p_write: "rs_prod s = PWrite e \<Longrightarrow>
    ring_step C s Tau (s\<lparr>rs_prod := PPublish e,
      rs_ring := (rs_ring s)\<lparr>rb_buffer := (rb_buffer (rs_ring s))[rb_head (rs_ring s) := e]\<rparr>\<rparr>)"
| p_publish: "rs_prod s = PPublish e \<Longrightarrow>
    ring_step C s (Pushed e) (s\<lparr>rs_prod := PIdle,
      rs_ring := (rs_ring s)\<lparr>rb_head := next_index C (rb_head (rs_ring s))\<rparr>\<rparr>)"
| c_check_slow: "rs_cons s = CIdle \<Longrightarrow> rb_tail (rs_ring s) = rb_shadow_head (rs_ring s) \<Longrightarrow>
    ring_step C s Tau (s\<lparr>rs_cons := CSlow\<rparr>)"
| c_check_fast: "rs_cons s = CIdle \<Longrightarrow> rb_tail (rs_ring s) \<noteq> rb_shadow_head (rs_ring s) \<Longrightarrow>
    ring_step C s Tau (s\<lparr>rs_cons := CRead\<rparr>)"
| c_reload_empty: "rs_cons s = CSlow \<Longrightarrow> rb_tail (rs_ring s) = rb_head (rs_ring s) \<Longrightarrow>
    ring_step C s Pop_empty
      (s\<lparr>rs_cons := CIdle, rs_ring := (rs_ring s)\<lparr>rb_shadow_head := rb_head (rs_ring s)\<rparr>\<rparr>)"
| c_reload_some: "rs_cons s = CSlow \<Longrightarrow> rb_tail (rs_ring s) \<noteq> rb_head (rs_ring s) \<Longrightarrow>
    ring_step C s Tau
      (s\<lparr>rs_cons := CRead, rs_ring := (rs_ring s)\<lparr>rb_shadow_head := rb_head (rs_ring s)\<rparr>\<rparr>)"
| c_read: "rs_cons s = CRead \<Longrightarrow>
    ring_step C s Tau (s\<lparr>rs_cons := CAdvance (rb_buffer (rs_ring s) ! rb_tail (rs_ring s))\<rparr>)"
| c_advance: "rs_cons s = CAdvance e \<Longrightarrow>
    ring_step C s (Popped e) (s\<lparr>rs_cons := CIdle,
      rs_ring := (rs_ring s)\<lparr>rb_tail := next_index C (rb_tail (rs_ring s))\<rparr>\<rparr>)"

inductive ring_run :: "nat \<Rightarrow> ring_sys \<Rightarrow> RingEntry queue_label list \<Rightarrow> ring_sys \<Rightarrow> bool" for C where
  rr_nil: "ring_run C s [] s"
| rr_snoc: "ring_run C s ls s' \<Longrightarrow> ring_step C s' l s'' \<Longrightarrow> ring_run C s (ls @ [l]) s''"

text \<open>What the control points know, besides the representation.\<close>

definition ring_inv :: "nat \<Rightarrow> RingEntry list \<Rightarrow> ring_sys \<Rightarrow> bool" where
  "ring_inv C xs s \<longleftrightarrow> (\<exists>k < 64. C = 2 ^ k) \<and> (\<exists>t st sh.
     ring_at C t st sh (rs_ring s) xs \<and>
     (case rs_prod s of
        PWrite e \<Rightarrow> Suc (t + length xs) < st + C
      | PPublish e \<Rightarrow> Suc (t + length xs) < st + C \<and> rb_buffer (rs_ring s) ! rb_head (rs_ring s) = e
      | _ \<Rightarrow> True) \<and>
     (case rs_cons s of
        CRead \<Rightarrow> t < sh
      | CAdvance e \<Rightarrow> t < sh \<and> xs \<noteq> [] \<and> hd xs = e
      | _ \<Rightarrow> True))"

lemma ring_step_refines:
  assumes inv: "ring_inv C xs s" and step: "ring_step C s l s'"
  shows "\<exists>ys. queue_step (C - 1) xs l ys \<and> ring_inv C ys s'"
proof -
  from inv obtain k t st sh where C: "C = 2 ^ k" "k < 64" and r: "ring_at C t st sh (rs_ring s) xs"
    and p: "case rs_prod s of PWrite e \<Rightarrow> Suc (t + length xs) < st + C
      | PPublish e \<Rightarrow> Suc (t + length xs) < st + C \<and> rb_buffer (rs_ring s) ! rb_head (rs_ring s) = e | _ \<Rightarrow> True"
    and c: "case rs_cons s of CRead \<Rightarrow> t < sh | CAdvance e \<Rightarrow> t < sh \<and> xs \<noteq> [] \<and> hd xs = e | _ \<Rightarrow> True"
    unfolding ring_inv_def by blast
  have Cx: "\<exists>k < 64. C = 2 ^ k" using C by blast
  have lt: "t + length xs < t + C" using r by (simp add: ring_at_def)
  have mk: "ring_inv C ys s'" if "ring_at C t' st' sh' (rs_ring s') ys"
      "case rs_prod s' of PWrite e \<Rightarrow> Suc (t' + length ys) < st' + C
        | PPublish e \<Rightarrow> Suc (t' + length ys) < st' + C \<and> rb_buffer (rs_ring s') ! rb_head (rs_ring s') = e | _ \<Rightarrow> True"
      "case rs_cons s' of CRead \<Rightarrow> t' < sh' | CAdvance e \<Rightarrow> t' < sh' \<and> ys \<noteq> [] \<and> hd ys = e | _ \<Rightarrow> True" for t' st' sh' ys
    unfolding ring_inv_def using Cx that by blast
  note ns = next_is_shadow [OF r C] and ts = tail_is_shadow [OF r]
  have r_st: "ring_at C t t sh ((rs_ring s)\<lparr>rb_shadow_tail := rb_tail (rs_ring s)\<rparr>) xs" by (rule ring_at_shadow_tail [OF r lt])
  have nt: "next_index C (rb_head (rs_ring s)) = rb_tail (rs_ring s) \<longleftrightarrow> Suc (t + length xs) = t + C"
    using next_is_shadow [OF r_st C] by simp
  have r_sh: "ring_at C t st (t + length xs) ((rs_ring s)\<lparr>rb_shadow_head := rb_head (rs_ring s)\<rparr>) xs" by (rule ring_at_shadow_head [OF r])
  have th: "rb_tail (rs_ring s) = rb_head (rs_ring s) \<longleftrightarrow> xs = []" using tail_is_shadow [OF r_sh] by simp
  from step show ?thesis
  proof cases
    case (p_check_slow e)
    then have "ring_inv C xs s'" using r c by (intro mk [of t st sh xs]) simp_all
    with p_check_slow show ?thesis by (blast intro: q_tau)
  next
    case (p_check_fast e)
    then have "Suc (t + length xs) < st + C" using ns r by (auto simp: ring_at_def)
    then have "ring_inv C xs s'" using p_check_fast r c by (intro mk [of t st sh xs]) simp_all
    with p_check_fast show ?thesis by (blast intro: q_tau)
  next
    case (p_reload_full e)
    then have "ring_inv C xs s'" using r_st c by (intro mk [of t t sh xs]) simp_all
    moreover have "length xs = C - 1" using p_reload_full nt by simp
    ultimately show ?thesis using p_reload_full by (blast intro: q_full)
  next
    case (p_reload_room e)
    then have "Suc (t + length xs) < t + C" using nt lt by auto
    then have "ring_inv C xs s'" using p_reload_room r_st c by (intro mk [of t t sh xs]) simp_all
    with p_reload_room show ?thesis by (blast intro: q_tau)
  next
    case (p_write e)
    then have room: "Suc (t + length xs) < st + C" using p by simp
    then have "ring_inv C xs s'" using p_write c ring_at_write [OF r C room, of e] by (intro mk [of t st sh xs]) simp_all
    with p_write show ?thesis by (blast intro: q_tau)
  next
    case (p_publish e)
    then have room: "Suc (t + length xs) < st + C" "rb_buffer (rs_ring s) ! rb_head (rs_ring s) = e" using p by simp_all
    have "ring_inv C (xs @ [e]) s'"
      using p_publish c ring_at_publish [OF r C room] by (intro mk [of t st sh "xs @ [e]"]) (simp_all split: consumer.splits)
    moreover have "length xs < C - 1" using room(1) r unfolding ring_at_def by linarith
    ultimately show ?thesis using p_publish by (blast intro: q_push)
  next
    case c_check_slow
    then have "ring_inv C xs s'" using r p by (intro mk [of t st sh xs]) (simp_all split: producer.splits)
    with c_check_slow show ?thesis by (blast intro: q_tau)
  next
    case c_check_fast
    then have "t < sh" using ts r by (auto simp: ring_at_def)
    then have "ring_inv C xs s'" using c_check_fast r p by (intro mk [of t st sh xs]) (simp_all split: producer.splits)
    with c_check_fast show ?thesis by (blast intro: q_tau)
  next
    case c_reload_empty
    then have "ring_inv C xs s'" using r_sh p by (intro mk [of t st "t + length xs" xs]) (simp_all split: producer.splits)
    moreover have "xs = []" using c_reload_empty th by simp
    ultimately show ?thesis using c_reload_empty by (blast intro: q_empty)
  next
    case c_reload_some
    then have "xs \<noteq> []" using th by simp
    then have "ring_inv C xs s'"
      using c_reload_some r_sh p by (intro mk [of t st "t + length xs" xs]) (simp_all split: producer.splits)
    with c_reload_some show ?thesis by (blast intro: q_tau)
  next
    case c_read
    then have "t < sh" using c by simp
    then obtain x ys where xs: "xs = x # ys" using r by (cases xs) (auto simp: ring_at_def)
    have "rb_buffer (rs_ring s) ! rb_tail (rs_ring s) = x" using ring_at_advance(2) [OF r [unfolded xs] C \<open>t < sh\<close>] .
    then have "ring_inv C xs s'" using c_read r p \<open>t < sh\<close> xs by (intro mk [of t st sh xs]) (simp_all split: producer.splits)
    with c_read show ?thesis by (blast intro: q_tau)
  next
    case (c_advance e)
    then obtain ys where xs: "xs = e # ys" "t < sh" using c by (cases xs) auto
    have "ring_inv C ys s'"
      using c_advance p xs(1) ring_at_advance(1) [OF r [unfolded xs(1)] C xs(2)]
      by (intro mk [of "Suc t" st sh ys]) (simp_all split: producer.splits)
    then show ?thesis using c_advance xs(1) by (blast intro: q_pop)
  qed
qed

text \<open>Uninterrupted, the steps of one side are the calls.\<close>

lemma ring_run_one: "ring_step C s l s' \<Longrightarrow> ring_run C s' ls s'' \<Longrightarrow> ring_run C s (l # ls) s''"
proof (induction ls arbitrary: s'' rule: rev_induct)
  case Nil
  then have "s'' = s'" by (auto elim: ring_run.cases)
  with Nil show ?case using rr_snoc [OF rr_nil Nil(1)] by simp
next
  case (snoc m ms)
  from snoc.prems(2) obtain u where "ring_run C s' ms u" "ring_step C u m s''" by (auto elim: ring_run.cases)
  with snoc.IH [OF snoc.prems(1)] rr_snoc [of C s "l # ms" u m s''] show ?case by simp
qed

lemma try_push_steps:
  assumes "rs_prod s = PIdle" and "try_push C e (rs_ring s) = (r, rb')"
  shows "\<exists>ls. ring_run C s (ls @ [case r of None \<Rightarrow> Push_full | Some _ \<Rightarrow> Pushed e]) (s\<lparr>rs_prod := PIdle, rs_ring := rb'\<rparr>)"
proof -
  let ?n = "next_index C (rb_head (rs_ring s))"
  have wr: "ring_run C (u\<lparr>rs_prod := PWrite e\<rparr>) [Tau, Pushed e]
      (u\<lparr>rs_prod := PIdle, rs_ring := (rs_ring u)\<lparr>rb_buffer := (rb_buffer (rs_ring u))[rb_head (rs_ring u) := e],
        rb_head := next_index C (rb_head (rs_ring u))\<rparr>\<rparr>)" for u
  proof -
    let ?u1 = "u\<lparr>rs_prod := PWrite e\<rparr>"
    let ?u2 = "?u1\<lparr>rs_prod := PPublish e, rs_ring := (rs_ring ?u1)\<lparr>rb_buffer := (rb_buffer (rs_ring ?u1))[rb_head (rs_ring ?u1) := e]\<rparr>\<rparr>"
    let ?u3 = "?u2\<lparr>rs_prod := PIdle, rs_ring := (rs_ring ?u2)\<lparr>rb_head := next_index C (rb_head (rs_ring ?u2))\<rparr>\<rparr>"
    have a: "ring_step C ?u1 Tau ?u2" by (rule p_write) simp
    have b: "ring_step C ?u2 (Pushed e) ?u3" by (rule p_publish) simp
    from ring_run_one [OF a ring_run_one [OF b rr_nil]] show ?thesis by simp
  qed
  show ?thesis
  proof (cases "?n = rb_shadow_tail (rs_ring s)")
    case False
    have "ring_run C s (Tau # [Tau, Pushed e]) (s\<lparr>rs_prod := PIdle, rs_ring := rb'\<rparr>)" "r = Some ()"
      using ring_run_one [OF p_check_fast [OF assms(1) False] wr [of s]] assms False by (auto simp: try_push_def Let_def)
    then show ?thesis by (intro exI [of _ "[Tau, Tau]"]) simp
  next
    case slow: True
    let ?s1 = "s\<lparr>rs_prod := PSlow e\<rparr>" and ?rb = "(rs_ring s)\<lparr>rb_shadow_tail := rb_tail (rs_ring s)\<rparr>"
    have 1: "ring_step C s Tau ?s1" by (rule p_check_slow [OF assms(1) slow])
    show ?thesis
    proof (cases "?n = rb_tail (rs_ring s)")
      case True
      have "ring_step C ?s1 Push_full (?s1\<lparr>rs_prod := PIdle, rs_ring := (rs_ring ?s1)\<lparr>rb_shadow_tail := rb_tail (rs_ring ?s1)\<rparr>\<rparr>)"
        by (rule p_reload_full) (use True in simp_all)
      from ring_run_one [OF 1 ring_run_one [OF this rr_nil]] have "ring_run C s [Tau, Push_full] (s\<lparr>rs_prod := PIdle, rs_ring := rb'\<rparr>)" "r = None"
        using True slow assms by (auto simp: try_push_def Let_def)
      then show ?thesis by (intro exI [of _ "[Tau]"]) simp
    next
      case False
      have "ring_step C ?s1 Tau (?s1\<lparr>rs_prod := PWrite e, rs_ring := (rs_ring ?s1)\<lparr>rb_shadow_tail := rb_tail (rs_ring ?s1)\<rparr>\<rparr>)"
        by (rule p_reload_room) (use False in simp_all)
      then have 2: "ring_step C ?s1 Tau ((s\<lparr>rs_ring := ?rb\<rparr>)\<lparr>rs_prod := PWrite e\<rparr>)" by (cases s) simp
      from ring_run_one [OF 1 ring_run_one [OF 2 wr]] have "ring_run C s [Tau, Tau, Tau, Pushed e] (s\<lparr>rs_prod := PIdle, rs_ring := rb'\<rparr>)" "r = Some ()"
        using False slow assms by (auto simp: try_push_def Let_def)
      then show ?thesis by (intro exI [of _ "[Tau, Tau, Tau]"]) simp
    qed
  qed
qed

subsection \<open>Properties\<close>

definition ring_start :: "RingBuffer \<Rightarrow> ring_sys" where
  "ring_start rb = \<lparr>rs_ring = rb, rs_prod = PIdle, rs_cons = CIdle\<rparr>"

lemma ring_run_refines:
  assumes "ring_run C s ls s'" and "ring_inv C xs s"
  shows "\<exists>ys. queue_run (C - 1) xs ls ys \<and> ring_inv C ys s'"
  using assms
proof (induction rule: ring_run.induct)
  case (rr_nil s)
  then show ?case by (blast intro: queue_run.run_nil)
next
  case (rr_snoc s ls s' l s'')
  then obtain ys where ys: "queue_run (C - 1) xs ls ys" "ring_inv C ys s'" by blast
  from ring_step_refines [OF ys(2) rr_snoc.hyps(2)] obtain zs where "queue_step (C - 1) ys l zs" "ring_inv C zs s''" by blast
  with ys(1) show ?case by (blast intro: queue_run.run_snoc)
qed

lemma ring_inv_start: "ring_rep C rb [] \<Longrightarrow> ring_inv C [] (ring_start rb)"
  by (auto simp: ring_inv_def ring_rep_def ring_start_def)

lemma ring_inv_rep: "ring_inv C xs s \<Longrightarrow> ring_rep C (rs_ring s) xs"
  by (auto simp: ring_inv_def ring_rep_def)

text \<open>
  C22. The ring buffer refines a bounded queue under every interleaving of one producer and one consumer. Whatever the
  order of their atomic accesses, the completed calls are a run of the queue of capacity \<open>CAPACITY - 1\<close>: the entries popped are
  a prefix of the entries pushed, in order, none lost or duplicated; a push reports full only when the queue is full, a pop
  reports empty only when it is empty; \<open>len\<close> is the number of entries in flight.
\<close>

theorem ring_refines_queue:
  assumes "RingBuffer_new C = Some rb" and "C < 2 ^ 64" and "ring_run C (ring_start rb) ls s"
  shows "\<exists>q. queue_run (C - 1) [] ls q \<and> pushed_of ls = popped_of ls @ q \<and> length q \<le> C - 1 \<and>
    RingBuffer_len C (rs_ring s) = length q"
proof -
  from ring_run_refines [OF assms(3) ring_inv_start [OF ring_rep_new [OF assms(1,2)]]] obtain q where
    q: "queue_run (C - 1) [] ls q" "ring_inv C q s" by blast
  then show ?thesis using queue_run_fifo [OF q(1)] queue_run_bound [OF q(1)] ring_len [OF ring_inv_rep [OF q(2)]] by auto
qed

definition demo_ring :: RingBuffer where
  "demo_ring = the (RingBuffer_new 4)"

lemma power_two_4: "is_power_of_two 4"
  unfolding is_power_of_two_iff by (rule exI [of _ 2]) simp

lemma demo_ring_new: "RingBuffer_new 4 = Some demo_ring"
  using power_two_4 by (simp add: demo_ring_def RingBuffer_new_def)

lemma demo_ring_run:
  "\<exists>s. ring_run 4 (ring_start demo_ring) [Tau, Tau, Pushed RingEntry_default] s \<and> rs_prod s = PIdle \<and> rs_cons s = CIdle \<and>
    rb_head (rs_ring s) = 1 \<and> rb_tail (rs_ring s) = 0 \<and> rb_shadow_tail (rs_ring s) = 0 \<and> rb_shadow_head (rs_ring s) = 0"
proof -
  have ni: "next_index 4 0 = 1" using next_index_mod [of 4 2 0] by simp
  let ?s0 = "ring_start demo_ring"
  let ?s1 = "?s0\<lparr>rs_prod := PWrite RingEntry_default\<rparr>"
  let ?s2 = "?s1\<lparr>rs_prod := PPublish RingEntry_default,
    rs_ring := (rs_ring ?s1)\<lparr>rb_buffer := (rb_buffer (rs_ring ?s1))[rb_head (rs_ring ?s1) := RingEntry_default]\<rparr>\<rparr>"
  let ?s3 = "?s2\<lparr>rs_prod := PIdle, rs_ring := (rs_ring ?s2)\<lparr>rb_head := next_index 4 (rb_head (rs_ring ?s2))\<rparr>\<rparr>"
  have z: "rb_head demo_ring = 0" "rb_shadow_tail demo_ring = 0" "rb_tail demo_ring = 0" "rb_shadow_head demo_ring = 0"
    using power_two_4 by (simp_all add: demo_ring_def RingBuffer_new_def)
  have "ring_step 4 ?s0 Tau ?s1" by (rule p_check_fast) (simp_all add: ring_start_def z ni)
  moreover have "ring_step 4 ?s1 Tau ?s2" by (rule p_write) simp
  moreover have "ring_step 4 ?s2 (Pushed RingEntry_default) ?s3" by (rule p_publish) simp
  ultimately have "ring_run 4 ?s0 ((([] @ [Tau]) @ [Tau]) @ [Pushed RingEntry_default]) ?s3" by (blast intro: rr_nil rr_snoc)
  then show ?thesis by (intro exI [of _ ?s3]) (simp add: ring_start_def z ni)
qed

theorem ring_refines_queue_witness:
  "\<exists>s q. ring_run 4 (ring_start demo_ring) [Tau, Tau, Pushed RingEntry_default] s \<and> q = [RingEntry_default] \<and>
    RingBuffer_len 4 (rs_ring s) = length q"
proof -
  from demo_ring_run obtain s where s: "ring_run 4 (ring_start demo_ring) [Tau, Tau, Pushed RingEntry_default] s" by blast
  from ring_refines_queue [OF demo_ring_new _ s] s show ?thesis by auto
qed

text \<open>
  C23. No slot is read and written at the same time: in every reachable state in which the producer is about to write or
  publish a slot and the consumer is about to read or release one, the two slots differ, and both are
  indices of the array.
\<close>

theorem ring_no_race:
  assumes "RingBuffer_new C = Some rb" and "C < 2 ^ 64" and "ring_run C (ring_start rb) ls s"
    and "rs_prod s = PWrite e \<or> rs_prod s = PPublish e" and "rs_cons s = CRead \<or> rs_cons s = CAdvance d"
  shows "rb_head (rs_ring s) \<noteq> rb_tail (rs_ring s) \<and> rb_head (rs_ring s) < length (rb_buffer (rs_ring s)) \<and>
    rb_tail (rs_ring s) < length (rb_buffer (rs_ring s))"
proof -
  from ring_run_refines [OF assms(3) ring_inv_start [OF ring_rep_new [OF assms(1,2)]]] obtain q where "ring_inv C q s" by blast
  then obtain k t st sh where C: "C = 2 ^ k" and r: "ring_at C t st sh (rs_ring s) q" and c: "t < sh"
    using assms(5) unfolding ring_inv_def by (auto split: consumer.splits)
  have w: "sh \<le> t + length q" "t + length q < st + C" "st \<le> t" using r by (simp_all add: ring_at_def)
  have "t mod C \<noteq> (t + length q) mod C"
  proof
    assume "t mod C = (t + length q) mod C"
    then have "t = t + length q" by (rule mod_window_eq) (use w in simp_all)
    with w c show False by simp
  qed
  moreover have "0 < C" using C by simp
  moreover have "rb_head (rs_ring s) = (t + length q) mod C" "rb_tail (rs_ring s) = t mod C" "length (rb_buffer (rs_ring s)) = C"
    using r by (simp_all add: ring_at_def)
  ultimately show ?thesis by simp
qed

theorem ring_no_race_witness:
  "\<exists>s ls. ring_run 4 (ring_start demo_ring) ls s \<and> rs_prod s = PWrite RingEntry_default \<and> rs_cons s = CRead \<and>
    rb_head (rs_ring s) \<noteq> rb_tail (rs_ring s)"
proof -
  from demo_ring_run obtain s ls where s: "ring_run 4 (ring_start demo_ring) ls s" "rs_prod s = PIdle" "rs_cons s = CIdle"
    "rb_head (rs_ring s) = 1" "rb_tail (rs_ring s) = 0" "rb_shadow_tail (rs_ring s) = 0" "rb_shadow_head (rs_ring s) = 0" by blast
  have ni: "next_index 4 1 = 2" using next_index_mod [of 4 2 1] by simp
  let ?s1 = "s\<lparr>rs_prod := PWrite RingEntry_default\<rparr>"
  let ?s2 = "?s1\<lparr>rs_cons := CSlow\<rparr>"
  let ?s3 = "?s2\<lparr>rs_cons := CRead, rs_ring := (rs_ring ?s2)\<lparr>rb_shadow_head := rb_head (rs_ring ?s2)\<rparr>\<rparr>"
  have "ring_step 4 s Tau ?s1" by (rule p_check_fast) (use s ni in simp_all)
  moreover have "ring_step 4 ?s1 Tau ?s2" by (rule c_check_slow) (use s in simp_all)
  moreover have "ring_step 4 ?s2 Tau ?s3" by (rule c_reload_some) (use s in simp_all)
  ultimately have run: "ring_run 4 (ring_start demo_ring) (((ls @ [Tau]) @ [Tau]) @ [Tau]) ?s3" using s(1) by (blast intro: rr_snoc)
  from ring_no_race [OF demo_ring_new _ run, of RingEntry_default] have "rb_head (rs_ring ?s3) \<noteq> rb_tail (rs_ring ?s3)" by simp
  with run show ?thesis by (intro exI [of _ ?s3] exI [of _ "((ls @ [Tau]) @ [Tau]) @ [Tau]"]) simp
qed

text \<open>
  The uninterrupted calls on a ring that holds the entries \<open>xs\<close>: \<open>len\<close>, \<open>is_empty\<close> and \<open>is_full\<close> report the
  number of entries, \<open>try_push\<close> appends the entry exactly when the ring is not full, \<open>try_pop\<close> returns the oldest entry exactly
  when the ring is not empty, and the blocking \<open>push\<close> and \<open>pop\<close> return in just those cases.
\<close>

theorem ring_try_ops:
  assumes "ring_rep C rb xs"
  shows "RingBuffer_len C rb = length xs \<and> (RingBuffer_is_empty C rb \<longleftrightarrow> xs = []) \<and>
    (if RingBuffer_is_full C rb then \<exists>rb'. try_push C e rb = (None, rb') \<and> ring_rep C rb' xs
     else \<exists>rb'. try_push C e rb = (Some (), rb') \<and> push C e rb = Some rb' \<and> ring_rep C rb' (xs @ [e])) \<and>
    (case xs of [] \<Rightarrow> \<exists>rb'. try_pop C rb = (None, rb') \<and> ring_rep C rb' []
     | x # ys \<Rightarrow> \<exists>rb'. try_pop C rb = (Some x, rb') \<and> pop C rb = Some (x, rb') \<and> ring_rep C rb' ys)"
proof -
  have l: "RingBuffer_len C rb = length xs" by (rule ring_len [OF assms])
  have "length xs < C" using assms by (auto simp: ring_rep_def ring_at_def)
  then have f: "\<not> RingBuffer_is_full C rb \<Longrightarrow> length xs < C - 1" "RingBuffer_is_full C rb \<Longrightarrow> length xs = C - 1"
    using l by (auto simp: RingBuffer_is_full_def)
  have "if RingBuffer_is_full C rb then \<exists>rb'. try_push C e rb = (None, rb') \<and> ring_rep C rb' xs
     else \<exists>rb'. try_push C e rb = (Some (), rb') \<and> push C e rb = Some rb' \<and> ring_rep C rb' (xs @ [e])"
    using ring.enq_full [OF assms, of e] ring.enq_room [OF assms, of e] f by (auto simp: push.simps [of C e rb])
  moreover have "case xs of [] \<Rightarrow> \<exists>rb'. try_pop C rb = (None, rb') \<and> ring_rep C rb' []
     | x # ys \<Rightarrow> \<exists>rb'. try_pop C rb = (Some x, rb') \<and> pop C rb = Some (x, rb') \<and> ring_rep C rb' ys"
  proof (cases xs)
    case Nil
    then show ?thesis using ring.deq_nil [of C rb] assms by simp
  next
    case (Cons x ys)
    from ring.deq_cons [OF assms [unfolded Cons]] obtain rb' where "try_pop C rb = (Some x, rb')" "ring_rep C rb' ys" by blast
    then show ?thesis by (simp add: Cons pop.simps [of C rb])
  qed
  ultimately show ?thesis using l by (simp add: RingBuffer_is_empty_def)
qed

theorem ring_try_ops_witness: "\<exists>rb'. try_push 4 RingEntry_default demo_ring = (Some (), rb') \<and> ring_rep 4 rb' [RingEntry_default]"
proof -
  have "ring_rep 4 demo_ring []" by (rule ring_rep_new [OF demo_ring_new]) simp
  from ring_try_ops [OF this, of RingEntry_default] show ?thesis by (auto simp: RingBuffer_is_full_def split: if_splits)
qed

text \<open>
  C24. What the support core does with requests. A producer fills a new ring with at most \<open>C - 1\<close> requests of any kinds, stored in the
  payload union whatever bytes were there before. The pushes return; then \<open>run\<close> takes every request once, in order, and \<open>handle_command\<close> reads exactly
  the payload that was sent under each command, nothing for \<open>NoOp\<close>; afterwards the ring is empty and the core unchanged. The loop never ends
  by itself: no command clears \<open>running\<close>, so \<open>run\<close> does not return whatever is pushed while it runs.
\<close>

theorem support_core_run:
  assumes "RingBuffer_new C = Some rb" and "C < 2 ^ 64" and "length rs < C" and "\<forall>r \<in> set rs. in_width r"
  shows "(\<exists>rb1 rb2. send_all C (map (entry_of m) rs) rb = Some rb1 \<and>
      SupportCore_run (length rs) C (\<lambda>_. id) SupportCore_new rb1 = (False, SupportCore_new, rb2, List.map_filter id rs) \<and>
      RingBuffer_is_empty C rb2) \<and>
    (\<forall>fuel env rb'. \<not> fst (SupportCore_run fuel C env SupportCore_new rb'))"
proof -
  from send_all_rep [OF ring_rep_new [OF assms(1,2)], of "map (entry_of m) rs"] assms(3) obtain rb1 where
    rb1: "send_all C (map (entry_of m) rs) rb = Some rb1" "ring_rep C rb1 (map (entry_of m) rs)" by auto
  from SupportCore_drains [OF rb1(2) assms(4)] obtain rb2 where
    "SupportCore_run (length rs) C (\<lambda>_. id) SupportCore_new rb1 = (False, SupportCore_new, rb2, List.map_filter id rs)"
    and "ring_rep C rb2 []" by blast
  moreover from ring_len [OF this(2)] have "RingBuffer_is_empty C rb2" by (simp add: RingBuffer_is_empty_def)
  ultimately show ?thesis
    using rb1(1) SupportCore_never_returns [of SupportCore_new] by (auto simp: SupportCore_new_def)
qed

theorem support_core_run_witness:
  "\<exists>rb1 rb2. send_all 4 [RingEntry_new TagUpdate (set_tag_update \<lparr>tu_ptr = 4096, tu_old_tag = 1, tu_new_tag = 2\<rparr> (\<lambda>_. 255)),
      RingEntry_new NoOp (\<lambda>_. 255),
      RingEntry_new StatsReport (set_stats \<lparr>sr_thread_id = 7, sr_allocs = 100, sr_frees = 99\<rparr> (\<lambda>_. 255))] demo_ring = Some rb1 \<and>
    SupportCore_run 3 4 (\<lambda>_. id) SupportCore_new rb1 = (False, SupportCore_new, rb2,
      [View_tag_update \<lparr>tu_ptr = 4096, tu_old_tag = 1, tu_new_tag = 2\<rparr>, View_stats \<lparr>sr_thread_id = 7, sr_allocs = 100, sr_frees = 99\<rparr>])"
proof -
  let ?rs = "[Some (View_tag_update \<lparr>tu_ptr = 4096, tu_old_tag = 1, tu_new_tag = 2\<rparr>), None,
    Some (View_stats \<lparr>sr_thread_id = 7, sr_allocs = 100, sr_frees = 99\<rparr>)]"
  have "\<exists>rb1 rb2. send_all 4 (map (entry_of (\<lambda>_. 255)) ?rs) demo_ring = Some rb1 \<and>
      SupportCore_run (length ?rs) 4 (\<lambda>_. id) SupportCore_new rb1 = (False, SupportCore_new, rb2, List.map_filter id ?rs) \<and>
      RingBuffer_is_empty 4 rb2"
    by (rule support_core_run [OF demo_ring_new, THEN conjunct1]) simp_all
  moreover have "length ?rs = 3" by simp
  moreover have "List.map_filter id ?rs = [View_tag_update \<lparr>tu_ptr = 4096, tu_old_tag = 1, tu_new_tag = 2\<rparr>,
      View_stats \<lparr>sr_thread_id = 7, sr_allocs = 100, sr_frees = 99\<rparr>]" by (simp add: List.map_filter_simps)
  moreover have "map (entry_of (\<lambda>_. 255)) ?rs = [RingEntry_new TagUpdate (set_tag_update \<lparr>tu_ptr = 4096, tu_old_tag = 1, tu_new_tag = 2\<rparr> (\<lambda>_. 255)),
      RingEntry_new NoOp (\<lambda>_. 255),
      RingEntry_new StatsReport (set_stats \<lparr>sr_thread_id = 7, sr_allocs = 100, sr_frees = 99\<rparr> (\<lambda>_. 255))]" by simp
  ultimately show ?thesis unfolding One_nat_def by metis
qed

end
