(* ===== verification/Buddy.thy ===== *)
theory Buddy
  imports Page Links
begin

text \<open>
  The buddy allocator for medium requests, \<open>aethalloc-core/src/buddy.rs\<close>: blocks of 2^14 to 2^18
  bytes with a sixteen-byte header in front, one free list per order threaded through the headers,
  splitting on allocation and merging with the buddy at address \<open>addr ^ (1 << order)\<close> on release.
  \<open>Option<NonNull<BlockHeader>>\<close> is an address with \<open>0\<close> for \<open>None\<close>, as the compiler lays it out.
  \<open>None\<close> as the result of an operation means that it does not return: an endless loop over a cyclic
  list or an index panic.
\<close>

definition MIN_ORDER :: usize where
  "MIN_ORDER = 14"

definition MAX_ORDER :: usize where
  "MAX_ORDER = 18"

definition NUM_ORDERS :: usize where
  "NUM_ORDERS = MAX_ORDER - MIN_ORDER + 1"

text \<open>The fields of a \<open>BlockHeader\<close> (\<open>repr(C)\<close>): \<open>order\<close> at offset 0, \<open>is_free\<close> at 1, \<open>next\<close> at 8.\<close>

record BlockHeader =
  bh_order :: nat
  bh_is_free :: bool
  bh_next :: addr

definition HEADER_SIZE :: usize where
  "HEADER_SIZE = 16"

definition get_header :: "mem \<Rightarrow> addr \<Rightarrow> BlockHeader" where
  "get_header m b = \<lparr>bh_order = unat (m b), bh_is_free = (m (b + 1) \<noteq> 0), bh_next = read_usize m (b + 8)\<rparr>"

definition set_order :: "nat \<Rightarrow> addr \<Rightarrow> mem \<Rightarrow> mem" where
  "set_order ord b m = m(b := word_of_nat ord)"

definition set_is_free :: "bool \<Rightarrow> addr \<Rightarrow> mem \<Rightarrow> mem" where
  "set_is_free f b m = m(b + 1 := of_bool f)"

definition set_next :: "addr \<Rightarrow> addr \<Rightarrow> mem \<Rightarrow> mem" where
  "set_next nx b m = write_usize nx (b + 8) m"

definition put_header :: "BlockHeader \<Rightarrow> addr \<Rightarrow> mem \<Rightarrow> mem" where
  "put_header h b m = set_next (bh_next h) b (set_is_free (bh_is_free h) b (set_order (bh_order h) b m))"

record BuddyAllocator =
  free_lists :: "addr list"
  buddy_base :: "addr option"
  region_size :: usize

type_synonym buddy = "BuddyAllocator \<times> os"

definition BuddyAllocator_new :: BuddyAllocator where
  "BuddyAllocator_new = \<lparr>free_lists = replicate NUM_ORDERS 0, buddy_base = None, region_size = 0\<rparr>"

text \<open>A store through a header pointer.\<close>

definition on_mem :: "(mem \<Rightarrow> mem) \<Rightarrow> buddy \<Rightarrow> buddy" where
  "on_mem f st = (fst st, (snd st)\<lparr>mem := f (mem (snd st))\<rparr>)"

definition set_list :: "nat \<Rightarrow> addr \<Rightarrow> buddy \<Rightarrow> buddy" where
  "set_list i b st = ((fst st)\<lparr>free_lists := (free_lists (fst st))[i := b]\<rparr>, snd st)"

definition Buddy_init :: "addr \<Rightarrow> usize \<Rightarrow> buddy \<Rightarrow> buddy" where
  "Buddy_init ptr sz st =
     (let st1 = ((fst st)\<lparr>buddy_base := Some ptr, region_size := sz\<rparr>, snd st);
          max_order = trailing_zeros sz;
          clamped_order = max MIN_ORDER (min MAX_ORDER max_order);
          order_idx = clamped_order - MIN_ORDER
      in set_list order_idx ptr
           (on_mem (put_header \<lparr>bh_order = clamped_order, bh_is_free = True, bh_next = 0\<rparr> ptr) st1))"

fun Buddy_split :: "addr \<Rightarrow> nat \<Rightarrow> nat \<Rightarrow> buddy \<Rightarrow> buddy" where
  "Buddy_split block current_order to st =
     (if current_order > to
      then let current_idx = current_order - MIN_ORDER;
               buddy_size = wshl 1 (current_order - 1);
               buddy_ptr = block + buddy_size;
               buddy_idx = current_idx - 1;
               st1 = on_mem (put_header \<lparr>bh_order = current_order - 1, bh_is_free = True, bh_next = 0\<rparr> buddy_ptr) st;
               st2 = on_mem (set_order (current_order - 1) block) st1;
               st3 = on_mem (set_next (free_lists (fst st2) ! buddy_idx) buddy_ptr) st2;
               st4 = set_list buddy_idx buddy_ptr st3
           in Buddy_split block (current_order - 1) to st4
      else st)"

text \<open>\<open>alloc_new_region\<close> up to the second call of \<open>alloc\<close>; \<open>False\<close> is the early return of \<open>?\<close>.\<close>

definition Buddy_new_region :: "syscalls \<Rightarrow> buddy \<Rightarrow> bool \<times> buddy" where
  "Buddy_new_region K st =
     (let sz = wshl 1 MAX_ORDER; pages = sz div PAGE_SIZE
      in case PageAllocator_alloc K pages (snd st) of
           (None, s') \<Rightarrow> (False, fst st, s')
         | (Some ptr, s') \<Rightarrow> (True, Buddy_init ptr sz (fst st, s')))"

text \<open>The block taken from list \<open>found\<close>, split down to the order asked for and marked allocated.\<close>

definition Buddy_take :: "nat \<Rightarrow> nat \<Rightarrow> buddy \<Rightarrow> addr \<times> buddy" where
  "Buddy_take found_order_idx order st =
     (let block = free_lists (fst st) ! found_order_idx;
          st1 = set_list found_order_idx (bh_next (get_header (mem (snd st)) block)) st;
          st2 = (if found_order_idx > order - MIN_ORDER
                 then Buddy_split block (found_order_idx + MIN_ORDER) order st1 else st1);
          st3 = on_mem (set_next 0 block \<circ> set_is_free False block) st2
      in (block + HEADER_SIZE, st3))"

partial_function (option) Buddy_alloc :: "syscalls \<Rightarrow> usize \<Rightarrow> buddy \<Rightarrow> (addr option \<times> buddy) option" where
  "Buddy_alloc K sz st =
     (let order = trailing_zeros sz
      in if \<not> (MIN_ORDER \<le> order \<and> order \<le> MAX_ORDER) then Some (None, st)
         else case find (\<lambda>i. free_lists (fst st) ! i \<noteq> 0) [order - MIN_ORDER..<NUM_ORDERS] of
                Some found_order_idx \<Rightarrow> let (p, st') = Buddy_take found_order_idx order st in Some (Some p, st')
              | None \<Rightarrow>
                  (case Buddy_new_region K st of
                     (ok, st') \<Rightarrow> if ok then Buddy_alloc K (wshl 1 order) st' else Some (None, st')))"

partial_function (option) remove_from_free_list :: "addr \<Rightarrow> nat \<Rightarrow> addr \<Rightarrow> addr \<Rightarrow> buddy \<Rightarrow> buddy option" where
  "remove_from_free_list block order_idx current prev st =
     (if current = 0 then Some st
      else let next = bh_next (get_header (mem (snd st)) current)
           in if current = block
              then Some (if prev \<noteq> 0 then on_mem (set_next next prev) st else set_list order_idx next st)
              else remove_from_free_list block order_idx next current st)"

text \<open>The end of \<open>coalesce\<close>: an order outside the range of the lists panics at the index.\<close>

definition Buddy_push :: "addr \<Rightarrow> nat \<Rightarrow> buddy \<Rightarrow> buddy option" where
  "Buddy_push block order st =
     (if order < MIN_ORDER \<or> order - MIN_ORDER \<ge> NUM_ORDERS then None
      else let order_idx = order - MIN_ORDER
           in Some (set_list order_idx block (on_mem (set_next (free_lists (fst st) ! order_idx) block) st)))"

definition in_region :: "BuddyAllocator \<Rightarrow> addr \<Rightarrow> bool" where
  "in_region self a =
     (case buddy_base self of
        None \<Rightarrow> False
      | Some base \<Rightarrow> \<not> (a < base \<or> a \<ge> wadd base (region_size self)))"

function Buddy_coalesce :: "addr \<Rightarrow> nat \<Rightarrow> buddy \<Rightarrow> buddy option" where
  "Buddy_coalesce current_block current_order st =
     (if current_order < MAX_ORDER
      then let buddy = current_block XOR wshl 1 current_order;
               buddy_header = get_header (mem (snd st)) buddy
           in if \<not> in_region (fst st) buddy \<or> \<not> bh_is_free buddy_header \<or> bh_order buddy_header \<noteq> current_order
              then Buddy_push current_block current_order st
              else if current_order < MIN_ORDER then None
              else (case remove_from_free_list buddy (current_order - MIN_ORDER)
                           (free_lists (fst st) ! (current_order - MIN_ORDER)) 0 st of
                      None \<Rightarrow> None
                    | Some st1 \<Rightarrow>
                        let new_block = (if current_block < buddy then current_block else buddy)
                        in Buddy_coalesce new_block (current_order + 1) (on_mem (set_order (current_order + 1) new_block) st1))
      else Buddy_push current_block current_order st)"
  by pat_completeness auto
termination by (relation "measure (\<lambda>(_, ord, _). MAX_ORDER - ord)") auto

definition Buddy_dealloc :: "addr \<Rightarrow> usize \<Rightarrow> buddy \<Rightarrow> buddy option" where
  "Buddy_dealloc ptr sz st =
     (let order = trailing_zeros sz;
          block = wsub ptr HEADER_SIZE
      in Buddy_coalesce block order (on_mem (set_order order block \<circ> set_is_free True block) st))"

definition Buddy_drop :: "syscalls \<Rightarrow> buddy \<Rightarrow> os" where
  "Buddy_drop K st =
     (case buddy_base (fst st) of
        None \<Rightarrow> snd st
      | Some base \<Rightarrow>
          let pages = region_size (fst st) div PAGE_SIZE
          in if pages > 0 then PageAllocator_dealloc K base pages (snd st) else snd st)"

declare Buddy_split.simps [simp del] Buddy_coalesce.simps [simp del]

subsection \<open>Buddies\<close>

lemma xor_power: "a XOR 2 ^ k = (if odd (a div 2 ^ k) then a - 2 ^ k else a + 2 ^ k)" for a :: nat
proof -
  have f: "a XOR 2 ^ k = flip_bit k a" by (simp add: flip_bit_eq_xor)
  have "unset_bit k a = a - 2 ^ k" if "bit a k"
  proof -
    have "set_bit k (unset_bit k a) = a" by (rule bit_eqI) (use that in \<open>auto simp: bit_simps\<close>)
    then have "unset_bit k a + 2 ^ k = a" by (simp add: set_bit_eq bit_simps)
    then show ?thesis by (metis add_diff_cancel_right')
  qed
  then show ?thesis unfolding f by (simp add: flip_bit_eq_if set_bit_eq bit_iff_odd)
qed

lemma wshl_order: "ord \<le> 18 \<Longrightarrow> wshl (Suc 0) ord = 2 ^ ord"
  by (simp add: wshl_in_range)

text \<open>
  The buddy of an aligned block is the other half of the aligned block of the next order.
\<close>

lemma buddy_cases:
  fixes c d :: nat
  assumes "2 ^ k dvd c" and "d = c XOR 2 ^ k"
  shows "2 ^ k dvd d" and "c \<noteq> d" and "2 ^ Suc k dvd min c d" and "max c d = min c d + 2 ^ k"
proof -
  obtain q where q: "c = 2 ^ k * q" using assms(1) by blast
  have d: "d = (if odd q then 2 ^ k * (q - 1) else 2 ^ k * (q + 1))"
    using assms(2) q by (simp add: xor_power algebra_simps)
  have qp: "odd q \<Longrightarrow> 0 < q" using odd_pos by blast
  show "2 ^ k dvd d" unfolding d by simp
  have "c < d \<or> d < c" unfolding q d using qp by auto
  then show "c \<noteq> d" by auto
  have m: "min c d = (if odd q then d else c)" unfolding q d by auto
  show "2 ^ Suc k dvd min c d" unfolding m using qp by (auto simp: q d elim!: oddE evenE)
  have e: "2 ^ k * q = 2 ^ k * (q - 1) + 2 ^ k" if "odd q"
    using qp [OF that] by (cases q) (simp_all add: algebra_simps)
  show "max c d = min c d + 2 ^ k"
    unfolding m using e by (auto simp: max_def q d algebra_simps)
qed

lemma aligned_unit:
  fixes a b :: nat
  assumes "2 ^ k dvd a" and "2 ^ j dvd b" and "j \<le> k" and "b \<in> {a..<a + 2 ^ k}"
  shows "{b..<b + 2 ^ j} \<subseteq> {a..<a + 2 ^ k}"
proof -
  have dk: "(2::nat) ^ j dvd 2 ^ k" using assms(3) by (rule le_imp_power_dvd)
  then have "2 ^ j dvd a + 2 ^ k - b"
    using assms(1,2) by (meson dvd_add dvd_diff_nat dvd_trans)
  then have "2 ^ j \<le> a + 2 ^ k - b" using assms(4) by (intro dvd_imp_le) auto
  then show ?thesis using assms(4) by auto
qed

subsection \<open>Representation\<close>

text \<open>
  A block is an address with an order. The blocks of a state are those on the free lists (\<open>fs ord\<close> lists the
  addresses of order \<open>ord\<close>), those the program holds, and those an operation has in its hands.
\<close>

type_synonym block = "addr \<times> nat"

definition bext :: "block \<Rightarrow> addr set" where
  "bext = (\<lambda>(b, ord). {b..<b + 2 ^ ord})"

abbreviation free_blocks :: "(nat \<Rightarrow> addr list) \<Rightarrow> block multiset" where
  "free_blocks \<equiv> listed {14..18}"

definition live_block :: "addr \<times> usize \<Rightarrow> block" where
  "live_block = (\<lambda>(p, n). (p - 16, ctz (n + 16)))"

definition blocks :: "(nat \<Rightarrow> addr list) \<Rightarrow> block multiset \<Rightarrow> live \<Rightarrow> block multiset" where
  "blocks fs H L = H + free_blocks fs + image_mset live_block L"

abbreviation next_of :: "mem \<Rightarrow> addr \<Rightarrow> addr" where
  "next_of m b \<equiv> bh_next (get_header m b)"

definition block_good :: "os \<Rightarrow> block \<Rightarrow> bool" where
  "block_good s = (\<lambda>(b, ord). 14 \<le> ord \<and> ord \<le> 18 \<and> 2 ^ ord dvd b \<and> 0 < b \<and> b + 2 ^ ord \<le> 2 ^ 63 \<and>
     bext (b, ord) \<subseteq> mapped s \<and> bh_order (get_header (mem s) b) = ord)"

definition region_covered :: "BuddyAllocator \<Rightarrow> block multiset \<Rightarrow> bool" where
  "region_covered self B =
     (case buddy_base self of
        None \<Rightarrow> True
      | Some r \<Rightarrow> region_size self = 2 ^ 18 \<and> 2 ^ 18 dvd r \<and> r + 2 ^ 18 \<le> 2 ^ 63 \<and>
          {r..<r + 2 ^ 18} \<subseteq> \<Union> (bext ` set_mset B))"

definition lists_ok :: "(nat \<Rightarrow> addr list) \<Rightarrow> BuddyAllocator \<Rightarrow> mem \<Rightarrow> bool" where
  "lists_ok fs self m \<longleftrightarrow> length (free_lists self) = 5 \<and>
     (\<forall>ord \<in> {14..18}. chain (next_of m) (free_lists self ! (ord - 14)) (fs ord)) \<and>
     (\<forall>ord \<in> {14..18}. \<forall>b \<in> set (fs ord). bh_is_free (get_header m b))"

definition live_good :: "mem \<Rightarrow> addr \<times> usize \<Rightarrow> bool" where
  "live_good m = (\<lambda>(p, n). 16 \<le> p \<and> (\<exists>ord \<in> {14..18}. n = 2 ^ ord - 16) \<and> \<not> bh_is_free (get_header m (p - 16)))"

definition buddy_rep :: "(nat \<Rightarrow> addr list) \<Rightarrow> block multiset \<Rightarrow> live \<Rightarrow> buddy \<Rightarrow> bool" where
  "buddy_rep fs H L st \<longleftrightarrow>
     lists_ok fs (fst st) (mem (snd st)) \<and>
     (\<forall>B \<in># blocks fs H L. block_good (snd st) B) \<and>
     (\<forall>pn \<in># L. live_good (mem (snd st)) pn) \<and>
     exclusive (image_mset bext (blocks fs H L)) \<and>
     region_covered (fst st) (blocks fs H L)"

lemma free_blocks_mem: "(b, ord) \<in># free_blocks fs \<longleftrightarrow> ord \<in> {14..18} \<and> b \<in> set (fs ord)"
  by (simp add: listed_mem)

lemmas free_blocks_split = listed_split [OF finite_atLeastAtMost, of _ 14 18]
lemmas free_blocks_add = listed_add [OF finite_atLeastAtMost, of _ 14 18]

lemma blocks_add [simp]:
  "blocks fs (add_mset B H) L = add_mset B (blocks fs H L)"
  "blocks fs H (add_mset pn L) = add_mset (live_block pn) (blocks fs H L)"
  by (simp_all add: blocks_def)

lemma blocks_listI: "ord \<in> {14..18} \<Longrightarrow> b \<in> set (fs ord) \<Longrightarrow> (b, ord) \<in># blocks fs H L"
  by (simp add: blocks_def free_blocks_mem)

lemma blocks_liveI: "pn \<in># L \<Longrightarrow> live_block pn \<in># blocks fs H L"
  by (simp add: blocks_def)

lemma block_good_header: "block_good s (b, ord) \<Longrightarrow> {b..<b + 16} \<subseteq> bext (b, ord)"
proof -
  assume "block_good s (b, ord)"
  then have "(2::nat) ^ 4 \<le> 2 ^ ord" by (intro power_increasing) (auto simp: block_good_def)
  then show ?thesis by (auto simp: bext_def)
qed

lemma get_header_cong: "(\<And>x. b \<le> x \<Longrightarrow> x < b + 16 \<Longrightarrow> m' x = m x) \<Longrightarrow> get_header m' b = get_header m b"
  using read_le_cong [of "b + 8" 8 m' m] by (simp add: get_header_def)

lemma blocks_union: "blocks fs (H + H') L = H + blocks fs H' L"
  by (simp add: blocks_def)

lemma cover_pos_iff: "0 < cover M a \<longleftrightarrow> (\<exists>E \<in># M. a \<in> E)"
  using cover_pos cover_0 by (metis gr0_conv_Suc nat.distinct(1) neq0_conv)

lemma bspace_cover: "x \<in> \<Union> (bext ` set_mset B) \<longleftrightarrow> 0 < cover (image_mset bext B) x"
  by (auto simp: cover_pos_iff)

lemma region_covered_cover:
  "region_covered self B =
     (case buddy_base self of
        None \<Rightarrow> True
      | Some r \<Rightarrow> region_size self = 2 ^ 18 \<and> 2 ^ 18 dvd r \<and> r + 2 ^ 18 \<le> 2 ^ 63 \<and>
          (\<forall>x \<in> {r..<r + 2 ^ 18}. 0 < cover (image_mset bext B) x))"
  unfolding region_covered_def subset_eq bspace_cover by simp

lemma region_covered_set_list [simp]: "region_covered (fst (set_list i b st)) B = region_covered (fst st) B"
  by (simp add: region_covered_def set_list_def split: option.splits)

lemma snd_set_list [simp]: "snd (set_list i b st) = snd st"
  by (simp add: set_list_def)

lemma block_good_mem: "get_header m' b = get_header (mem s) b \<Longrightarrow> block_good (s\<lparr>mem := m'\<rparr>) (b, ord) = block_good s (b, ord)"
  by (simp add: block_good_def)

lemma lists_ok_cong:
  assumes "\<And>ord b. ord \<in> {14..18} \<Longrightarrow> b \<in> set (fs ord) \<Longrightarrow> get_header m' b = get_header m b" and "lists_ok fs self m"
  shows "lists_ok fs self m'"
  using assms unfolding lists_ok_def by (auto simp: chain_cong [of _ "next_of m'" "next_of m"])

lemma rep_same_headers:
  assumes rep: "buddy_rep fs H L (self, s)"
    and same: "\<And>b k. (b, k) \<in># blocks fs H L \<Longrightarrow> get_header m' b = get_header (mem s) b"
  shows "buddy_rep fs H L (self, s\<lparr>mem := m'\<rparr>)"
proof -
  have "lists_ok fs self m'"
    using lists_ok_cong [of fs m' "mem s" self] same blocks_listI rep by (metis buddy_rep_def fst_conv snd_conv)
  moreover have "live_good m' (p, n) = live_good (mem s) (p, n)" if "(p, n) \<in># L" for p n
    using same [of "p - 16"] blocks_liveI [OF that, of fs H] by (simp add: live_good_def live_block_def)
  moreover have "block_good (s\<lparr>mem := m'\<rparr>) (b, k) = block_good s (b, k)" if "(b, k) \<in># blocks fs H L" for b k
    by (rule block_good_mem [OF same [OF that]])
  ultimately show ?thesis using rep by (auto simp: buddy_rep_def)
qed

text \<open>
  The blocks in hand may be cut or joined and their bytes changed: nothing else is affected, as long as they
  make up the same addresses.
\<close>

lemma rep_hand_change:
  assumes rep: "buddy_rep fs (H1 + H) L (self, s)"
    and cov: "\<And>x. cover (image_mset bext H2) x = cover (image_mset bext H1) x"
    and good2: "\<And>B. B \<in># H2 \<Longrightarrow> block_good (s\<lparr>mem := m'\<rparr>) B"
    and out: "\<And>x. cover (image_mset bext H1) x = 0 \<Longrightarrow> m' x = mem s x"
  shows "buddy_rep fs (H2 + H) L (self, s\<lparr>mem := m'\<rparr>)"
proof -
  have ex: "exclusive (image_mset bext H1 + image_mset bext (blocks fs H L))"
    and good: "\<And>B. B \<in># blocks fs H L \<Longrightarrow> block_good s B"
    and live: "\<forall>pn \<in># L. live_good (mem s) pn" and li: "lists_ok fs self (mem s)"
    and rc: "region_covered self (H1 + blocks fs H L)"
    using rep by (auto simp: buddy_rep_def blocks_union)
  have same: "get_header m' b = get_header (mem s) b" if "(b, k) \<in># blocks fs H L" for b k
  proof (rule get_header_cong, rule out, rule cover_0, clarsimp)
    fix x c j assume x: "b \<le> x" "x < b + 16" and c: "(c, j) \<in># H1" "x \<in> bext (c, j)"
    have "x \<in> bext (b, k)" using block_good_header [OF good [OF that]] x by auto
    moreover have "bext (c, j) \<inter> bext (b, k) = {}" using exclusive_disjoint [OF ex] c(1) that by auto
    ultimately show False using c(2) by blast
  qed
  have "lists_ok fs self m'"
    using lists_ok_cong [OF _ li] same blocks_listI by metis
  moreover have "live_good m' pn" if "pn \<in># L" for pn
  proof -
    obtain p n where pn: "pn = (p, n)" by (cases pn)
    then have "get_header m' (p - 16) = get_header (mem s) (p - 16)"
      using same [of "p - 16"] blocks_liveI [OF that, of fs H] by (simp add: live_block_def)
    then show ?thesis using live that by (auto simp: live_good_def pn)
  qed
  moreover have "block_good (s\<lparr>mem := m'\<rparr>) B" if "B \<in># blocks fs H L" for B
    using same [of "fst B" "snd B"] good [OF that] that block_good_mem [of m' "fst B" s "snd B"] by simp
  moreover have "exclusive (image_mset bext (H2 + blocks fs H L))"
    by (rule exclusive_mono [OF ex]) (simp add: cov)
  moreover have "region_covered self (H2 + blocks fs H L)"
    using rc unfolding region_covered_cover by (simp add: cov split: option.splits)
  ultimately show ?thesis using good2 by (auto simp: buddy_rep_def blocks_union)
qed

lemma get_header_set [simp]:
  "get_header (set_order ord b m) b = (get_header m b)\<lparr>bh_order := ord mod 256\<rparr>"
  "get_header (set_is_free f b m) b = (get_header m b)\<lparr>bh_is_free := f\<rparr>"
  "nx < 2 ^ 64 \<Longrightarrow> get_header (set_next nx b m) b = (get_header m b)\<lparr>bh_next := nx\<rparr>"
proof -
  have "read_usize (m(b := v)) (b + 8) = read_usize m (b + 8)" "read_usize (m(Suc b := v)) (b + 8) = read_usize m (b + 8)" for v
    by (rule read_le_cong; simp)+
  then show "get_header (set_order ord b m) b = (get_header m b)\<lparr>bh_order := ord mod 256\<rparr>"
    "get_header (set_is_free f b m) b = (get_header m b)\<lparr>bh_is_free := f\<rparr>"
    by (simp_all add: get_header_def set_order_def set_is_free_def unat_of_nat)
  show "nx < 2 ^ 64 \<Longrightarrow> get_header (set_next nx b m) b = (get_header m b)\<lparr>bh_next := nx\<rparr>"
    by (simp add: get_header_def set_next_def)
qed

lemma set_other [simp]:
  "x < b \<or> b + 16 \<le> x \<Longrightarrow> set_order ord b m x = m x"
  "x < b \<or> b + 16 \<le> x \<Longrightarrow> set_is_free f b m x = m x"
  "x < b \<or> b + 16 \<le> x \<Longrightarrow> set_next nx b m x = m x"
  by (auto simp: set_order_def set_is_free_def set_next_def)

lemma get_header_put [simp]:
  "bh_order h < 256 \<Longrightarrow> bh_next h < 2 ^ 64 \<Longrightarrow> get_header (put_header h b m) b = h"
  by (simp add: put_header_def)

lemma put_other [simp]: "x < b \<or> b + 16 \<le> x \<Longrightarrow> put_header h b m x = m x"
  by (simp add: put_header_def)

subsection \<open>Moving blocks between the hand, the lists and the program\<close>

lemma rep_take:
  assumes rep: "buddy_rep fs H L st" and ord: "ord \<in> {14..18}" and fs: "fs ord = b # bs"
  shows "buddy_rep (fs(ord := bs)) (add_mset (b, ord) H) L (set_list (ord - 14) (next_of (mem (snd st)) b) st)"
proof -
  have "free_blocks fs = add_mset (b, ord) (free_blocks (fs(ord := bs)))"
    using free_blocks_add [OF ord, of "b # bs" b "fs(ord := bs)"] fs by (simp add: fun_upd_idem)
  then have bl: "blocks (fs(ord := bs)) (add_mset (b, ord) H) L = blocks fs H L" by (simp add: blocks_def)
  have "lists_ok (fs(ord := bs)) (fst (set_list (ord - 14) (next_of (mem (snd st)) b) st)) (mem (snd st))"
    using rep ord fs by (auto simp: buddy_rep_def lists_ok_def set_list_def nth_list_update)
  then show ?thesis using rep unfolding buddy_rep_def bl by simp
qed

lemma rep_push:
  assumes rep: "buddy_rep fs (add_mset (b, ord) H) L st"
    and nx: "next_of (mem (snd st)) b = free_lists (fst st) ! (ord - 14)" and fr: "bh_is_free (get_header (mem (snd st)) b)"
  shows "buddy_rep (fs(ord := b # fs ord)) H L (set_list (ord - 14) b st)"
proof -
  have g: "block_good (snd st) (b, ord)" using rep by (simp add: buddy_rep_def)
  then have ord: "ord \<in> {14..18}" and pos: "0 < b" by (auto simp: block_good_def)
  have bl: "blocks (fs(ord := b # fs ord)) H L = blocks fs (add_mset (b, ord) H) L"
    using free_blocks_add [OF ord, of "b # fs ord" b fs] by (simp add: blocks_def)
  have "lists_ok (fs(ord := b # fs ord)) (fst (set_list (ord - 14) b st)) (mem (snd st))"
    using rep ord nx fr pos by (auto simp: buddy_rep_def lists_ok_def set_list_def nth_list_update)
  then show ?thesis using rep unfolding buddy_rep_def bl by simp
qed

lemma live_block_of: "14 \<le> ord \<Longrightarrow> live_block (b + 16, 2 ^ ord - 16) = (b, ord)"
proof -
  assume "14 \<le> ord"
  then have "(2::nat) ^ 14 \<le> 2 ^ ord" by (intro power_increasing) auto
  then have "(2::nat) ^ ord - 16 + 16 = 2 ^ ord" by simp
  then show ?thesis by (simp add: live_block_def)
qed

lemma rep_hand_out:
  assumes rep: "buddy_rep fs (add_mset (b, ord) H) L st" and nf: "\<not> bh_is_free (get_header (mem (snd st)) b)"
  shows "buddy_rep fs H (add_mset (b + 16, 2 ^ ord - 16) L) st"
proof -
  have ord: "ord \<in> {14..18}" using rep by (auto simp: buddy_rep_def block_good_def)
  then have lb: "live_block (b + 16, 2 ^ ord - 16) = (b, ord)" by (intro live_block_of) simp
  have "live_good (mem (snd st)) (b + 16, 2 ^ ord - 16)" using ord nf by (auto simp: live_good_def)
  then show ?thesis using rep by (simp add: buddy_rep_def lb)
qed

lemma rep_take_back:
  assumes rep: "buddy_rep fs H (add_mset (p, n) L) st"
  obtains b ord where "p = b + 16" "n = 2 ^ ord - 16" "ord \<in> {14..18}" "buddy_rep fs (add_mset (b, ord) H) L st"
proof -
  from rep obtain ord where p: "16 \<le> p" and ord: "ord \<in> {14..18}" and n: "n = 2 ^ ord - 16"
    by (auto simp: buddy_rep_def live_good_def)
  have lb: "live_block (p, n) = (p - 16, ord)"
    using live_block_of [of ord "p - 16"] p ord n by simp
  show ?thesis
    by (rule that [of "p - 16" ord]) (use rep p ord n lb in \<open>simp_all add: buddy_rep_def\<close>)
qed

lemma rep_chain:
  "buddy_rep fs H L st \<Longrightarrow> ord \<in> {14..18} \<Longrightarrow> chain (next_of (mem (snd st))) (free_lists (fst st) ! (ord - 14)) (fs ord)"
  unfolding buddy_rep_def lists_ok_def by blast

lemma rep_list_header:
  assumes rep: "buddy_rep fs H L st" and ord: "ord \<in> {14..18}" and b: "b \<in> set (fs ord)"
  shows "bh_is_free (get_header (mem (snd st)) b) \<and> bh_order (get_header (mem (snd st)) b) = ord"
proof -
  have "block_good (snd st) (b, ord)" using rep blocks_listI [OF ord, of b fs H L] b by (simp add: buddy_rep_def)
  moreover have "bh_is_free (get_header (mem (snd st)) b)" using rep ord b unfolding buddy_rep_def lists_ok_def by blast
  ultimately show ?thesis by (simp add: block_good_def)
qed

lemma rep_head_less: "buddy_rep fs H L st \<Longrightarrow> ord \<in> {14..18} \<Longrightarrow> free_lists (fst st) ! (ord - 14) < 2 ^ 64"
proof -
  assume rep: "buddy_rep fs H L st" and ord: "ord \<in> {14..18}"
  note c = rep_chain [OF rep ord]
  show ?thesis
  proof (cases "fs ord")
    case (Cons b bs)
    then have "block_good (snd st) (b, ord)" using rep blocks_listI [OF ord, of b fs] by (simp add: buddy_rep_def)
    then show ?thesis using c Cons by (auto simp: block_good_def)
  qed (use c in simp)
qed

lemma get_header_other [simp]:
  assumes "b + 16 \<le> c \<or> c + 16 \<le> b"
  shows "get_header (set_order ord c m) b = get_header m b" "get_header (set_is_free f c m) b = get_header m b"
    "get_header (set_next nx c m) b = get_header m b" "get_header (put_header h c m) b = get_header m b"
  using assms by (auto intro!: get_header_cong)

lemma rep_halve:
  assumes rep: "buddy_rep fs (add_mset (b, Suc ord) H) L (self, s)" and ord: "14 \<le> ord"
    and out: "\<And>x. x \<notin> bext (b, Suc ord) \<Longrightarrow> m' x = mem s x"
    and hdr: "bh_order (get_header m' b) = ord" "bh_order (get_header m' (b + 2 ^ ord)) = ord"
  shows "buddy_rep fs (add_mset (b, ord) (add_mset (b + 2 ^ ord, ord) H)) L (self, s\<lparr>mem := m'\<rparr>)"
proof -
  have g: "block_good s (b, Suc ord)" using rep by (simp add: buddy_rep_def)
  have dv: "2 ^ ord dvd b" using g dvd_trans [of "2 ^ ord" "2 ^ Suc ord" b] by (simp add: block_good_def)
  have "buddy_rep fs ({#(b, ord), (b + 2 ^ ord, ord)#} + H) L (self, s\<lparr>mem := m'\<rparr>)"
  proof (rule rep_hand_change [where ?H1.0 = "{#(b, Suc ord)#}"])
    fix B assume "B \<in># {#(b, ord), (b + 2 ^ ord, ord)#}"
    then consider "B = (b, ord)" | "B = (b + 2 ^ ord, ord)" by auto
    then show "block_good (s\<lparr>mem := m'\<rparr>) B"
      by cases (use g dv ord hdr in \<open>auto simp: block_good_def bext_def\<close>)
  qed (use rep out in \<open>auto simp: bext_def split: if_splits\<close>)
  then show ?thesis by simp
qed

text \<open>What an operation leaves alone outside the block it works on.\<close>

definition frame :: "addr set \<Rightarrow> buddy \<Rightarrow> buddy \<Rightarrow> bool" where
  "frame E st st' \<longleftrightarrow> mapped (snd st') = mapped (snd st) \<and>
     buddy_base (fst st') = buddy_base (fst st) \<and> region_size (fst st') = region_size (fst st) \<and>
     (\<forall>x. x \<notin> E \<longrightarrow> mem (snd st') x = mem (snd st) x)"

lemma frame_refl [simp]: "frame E st st"
  by (simp add: frame_def)

lemma frame_trans: "frame E st st' \<Longrightarrow> frame F st' st'' \<Longrightarrow> E \<subseteq> G \<Longrightarrow> F \<subseteq> G \<Longrightarrow> frame G st st''"
  unfolding frame_def by (metis subsetD)

lemma frame_set_list [simp]: "frame E st (set_list i b st') = frame E st st'" "frame E (set_list i b st) st' = frame E st st'"
  by (simp_all add: frame_def set_list_def)

subsection \<open>Eager merging\<close>

text \<open>In the current region no two buddies are both on the free list of their order.\<close>

definition region_of :: "BuddyAllocator \<Rightarrow> addr set" where
  "region_of self = (case buddy_base self of None \<Rightarrow> {} | Some r \<Rightarrow> {r..<r + 2 ^ 18})"

definition merged :: "BuddyAllocator \<Rightarrow> (nat \<Rightarrow> addr list) \<Rightarrow> bool" where
  "merged self fs \<longleftrightarrow> (\<forall>k \<in> {14..<18}. \<forall>b \<in> set (fs k) \<inter> region_of self. b XOR 2 ^ k \<notin> set (fs k))"

lemma xor_twice [simp]: "(a XOR b) XOR b = a" for a b :: nat
  by (simp add: xor.assoc)

lemma merged_mono:
  "merged self fs \<Longrightarrow> (\<And>k. set (fs' k) \<subseteq> set (fs k)) \<Longrightarrow> buddy_base self' = buddy_base self \<Longrightarrow> merged self' fs'"
  unfolding merged_def region_of_def by simp blast

lemma merged_push:
  assumes "merged self fs" and "buddy_base self' = buddy_base self"
    and "b XOR 2 ^ ord \<notin> set (fs ord) \<or> ord = 18 \<or> b \<notin> region_of self \<and> b XOR 2 ^ ord \<notin> region_of self"
  shows "merged self' (fs(ord := b # fs ord))"
  unfolding merged_def
proof (intro ballI)
  have r: "region_of self' = region_of self" using assms(2) by (simp add: region_of_def)
  fix k x assume k: "k \<in> {14..<18}" and x: "x \<in> set ((fs(ord := b # fs ord)) k) \<inter> region_of self'"
  have ne: "y XOR 2 ^ k \<noteq> y" for y :: nat 
  proof
    assume "y XOR 2 ^ k = y"
    then have "(y XOR 2 ^ k) XOR y = 0" by simp
    then show False by (simp add: xor.commute [of y] xor.assoc)
  qed
  show "x XOR 2 ^ k \<notin> set ((fs(ord := b # fs ord)) k)"
  proof (cases "k = ord")
    case True
    have "x XOR 2 ^ ord \<notin> set (fs ord)" if "x \<in> set (fs ord)"
      using assms(1) that x k True unfolding merged_def r by blast
    moreover have "x XOR 2 ^ ord \<noteq> b" if "x \<in> set (fs ord)"
    proof
      assume "x XOR 2 ^ ord = b"
      then have "b XOR 2 ^ ord = x" by auto
      then show False using assms(3) that x r k True by auto
    qed
    ultimately show ?thesis using x True ne [of x] assms(3) r k by auto
  next
    case False
    then show ?thesis using assms(1) x k unfolding merged_def r by auto
  qed
qed

lemma split_step:
  assumes rep: "buddy_rep fs (add_mset (b, Suc ord) H) L st" and ord: "14 \<le> ord"
  defines "m' \<equiv> set_next (free_lists (fst st) ! (ord - 14)) (b + 2 ^ ord) (set_order ord b
    (put_header \<lparr>bh_order = ord, bh_is_free = True, bh_next = 0\<rparr> (b + 2 ^ ord) (mem (snd st))))"
  defines "st' \<equiv> set_list (ord - 14) (b + 2 ^ ord) (fst st, (snd st)\<lparr>mem := m'\<rparr>)"
  shows "buddy_rep (fs(ord := (b + 2 ^ ord) # fs ord)) (add_mset (b, ord) H) L st' \<and> frame (bext (b, Suc ord)) st st'"
proof -
  have g: "block_good (snd st) (b, Suc ord)" using rep by (simp add: buddy_rep_def)
  have o18: "ord \<in> {14..18}" and "ord < 256" using g ord by (auto simp: block_good_def)
  have far: "b + 16 \<le> b + 2 ^ ord"
    using power_increasing [of 4 ord "2::nat"] ord by simp
  have h: "free_lists (fst st) ! (ord - 14) < 2 ^ 64" by (rule rep_head_less [OF rep o18])
  have out: "m' x = mem (snd st) x" if "x \<notin> bext (b, Suc ord)" for x
    using that far unfolding m'_def by (auto simp: bext_def)
  have hb: "get_header m' b = (get_header (mem (snd st)) b)\<lparr>bh_order := ord\<rparr>"
    unfolding m'_def using far \<open>ord < 256\<close> by simp
  have hc: "get_header m' (b + 2 ^ ord) = \<lparr>bh_order = ord, bh_is_free = True, bh_next = free_lists (fst st) ! (ord - 14)\<rparr>"
    unfolding m'_def using far \<open>ord < 256\<close> h by simp
  have "buddy_rep fs (add_mset (b, ord) (add_mset (b + 2 ^ ord, ord) H)) L (fst st, (snd st)\<lparr>mem := m'\<rparr>)"
    by (rule rep_halve [OF _ ord out]) (use rep hb hc in simp_all)
  then have "buddy_rep fs (add_mset (b + 2 ^ ord, ord) (add_mset (b, ord) H)) L (fst st, (snd st)\<lparr>mem := m'\<rparr>)"
    by (simp add: add_mset_commute)
  from rep_push [OF this] have "buddy_rep (fs(ord := (b + 2 ^ ord) # fs ord)) (add_mset (b, ord) H) L st'"
    unfolding st'_def using hc by simp
  moreover have "frame (bext (b, Suc ord)) st st'"
    unfolding st'_def frame_set_list using out by (simp add: frame_def)
  ultimately show ?thesis by blast
qed

lemma Buddy_split_rep:
  assumes "buddy_rep fs (add_mset (b, cur) H) L st" and "to \<le> cur" and "14 \<le> to"
  shows "\<exists>fs'. buddy_rep fs' (add_mset (b, to) H) L (Buddy_split b cur to st) \<and>
    frame (bext (b, cur)) st (Buddy_split b cur to st) \<and> (merged (fst st) fs \<longrightarrow> merged (fst (Buddy_split b cur to st)) fs')"
  using assms
proof (induction "cur - to" arbitrary: cur fs st)
  case 0
  then show ?case by (auto simp: Buddy_split.simps)
next
  case (Suc k)
  then obtain ord where cur: "cur = Suc ord" and le: "to \<le> ord" by (cases cur) auto
  have o18: "Suc ord \<le> 18" using Suc.prems(1) by (simp add: buddy_rep_def block_good_def cur)
  define m' where "m' = set_next (free_lists (fst st) ! (ord - 14)) (b + 2 ^ ord) (set_order ord b
    (put_header \<lparr>bh_order = ord, bh_is_free = True, bh_next = 0\<rparr> (b + 2 ^ ord) (mem (snd st))))"
  define st' where "st' = set_list (ord - 14) (b + 2 ^ ord) (fst st, (snd st)\<lparr>mem := m'\<rparr>)"
  have "Suc ord - 14 - 1 = ord - 14" using Suc.prems(3) le by simp
  then have e: "Buddy_split b cur to st = Buddy_split b ord to st'"
    unfolding cur by (subst Buddy_split.simps)
      (use le o18 in \<open>simp add: Let_def wshl_order MIN_ORDER_def on_mem_def st'_def m'_def\<close>)
  have step: "buddy_rep (fs(ord := (b + 2 ^ ord) # fs ord)) (add_mset (b, ord) H) L st'" "frame (bext (b, Suc ord)) st st'"
    using split_step [of fs b ord H L st] Suc.prems le unfolding cur st'_def m'_def by auto
  have mg: "merged (fst st') (fs(ord := (b + 2 ^ ord) # fs ord))" if "merged (fst st) fs"
  proof (rule merged_push [OF that])
    have b: "block_good (snd st) (b, Suc ord)" and ex: "exclusive (image_mset bext (blocks fs (add_mset (b, Suc ord) H) L))"
      using Suc.prems(1) by (simp_all add: buddy_rep_def cur)
    have "(b + 2 ^ ord) XOR 2 ^ ord = b"
    proof -
      have "even (b div 2 ^ ord)" using b by (auto simp: block_good_def elim!: dvdE)
      then have "b XOR 2 ^ ord = b + 2 ^ ord" by (simp add: xor_power)
      then show ?thesis by (metis xor_twice)
    qed
    moreover have "b \<notin> set (fs ord)"
    proof
      assume "b \<in> set (fs ord)"
      then have "(b, ord) \<in># blocks fs H L" by (intro blocks_listI) (use Suc.prems(3) le o18 in auto)
      then have "bext (b, Suc ord) \<inter> bext (b, ord) = {}" using ex by (auto simp: exclusive_add_iff)
      then show False by (auto simp: bext_def)
    qed
    ultimately show "(b + 2 ^ ord) XOR 2 ^ ord \<notin> set (fs ord) \<or> ord = 18 \<or>
      b + 2 ^ ord \<notin> region_of (fst st) \<and> (b + 2 ^ ord) XOR 2 ^ ord \<notin> region_of (fst st)" by simp
  qed (use step(2) in \<open>simp add: frame_def\<close>)
  have "k = ord - to" using Suc.hyps(2) cur le by simp
  from Suc.hyps(1) [OF this step(1) le Suc.prems(3)] mg obtain fs' where
    "buddy_rep fs' (add_mset (b, to) H) L (Buddy_split b ord to st')" "frame (bext (b, ord)) st' (Buddy_split b ord to st')"
    "merged (fst st) fs \<longrightarrow> merged (fst (Buddy_split b ord to st')) fs'" by auto
  moreover have "bext (b, ord) \<subseteq> bext (b, Suc ord)" by (auto simp: bext_def)
  ultimately show ?case unfolding e using step(2) cur by (auto intro: frame_trans)
qed

lemma Buddy_take_rep:
  assumes rep: "buddy_rep fs {#} L st" and ord: "ord \<in> {14..18}" and i: "ord - 14 \<le> i" "i < 5"
    and ne: "free_lists (fst st) ! i \<noteq> 0" and t: "Buddy_take i ord st = (p, st')"
  shows "\<exists>fs' b. p = b + 16 \<and> (b, i + 14) \<in># free_blocks fs \<and> frame (bext (b, i + 14)) st st' \<and>
    buddy_rep fs' {#} (add_mset (p, 2 ^ ord - 16) L) st' \<and> (merged (fst st) fs \<longrightarrow> merged (fst st') fs')"
proof -
  let ?k = "i + 14" and ?b = "free_lists (fst st) ! i"
  have k: "?k \<in> {14..18}" "ord \<le> ?k" using i ord by auto
  have "chain (next_of (mem (snd st))) (free_lists (fst st) ! (?k - 14)) (fs ?k)"
    by (rule rep_chain [OF rep k(1)])
  then have "chain (next_of (mem (snd st))) ?b (fs ?k)" by simp
  from chain_nonnull [OF _ this] ne obtain bs where fs: "fs ?k = ?b # bs" by auto
  let ?st1 = "set_list i (next_of (mem (snd st)) ?b) st"
  define st2 where "st2 = Buddy_split ?b ?k ord ?st1"
  have r1: "buddy_rep (fs(?k := bs)) {#(?b, ?k)#} L ?st1" using rep_take [OF rep k(1) fs] by simp
  have m1: "merged (fst st) fs \<Longrightarrow> merged (fst ?st1) (fs(?k := bs))"
    by (erule merged_mono) (use fs in \<open>auto simp: set_list_def\<close>)
  obtain fs' where r2: "buddy_rep fs' {#(?b, ord)#} L st2" and f2: "frame (bext (?b, ?k)) st st2"
    and m2: "merged (fst st) fs \<longrightarrow> merged (fst st2) fs'"
    using Buddy_split_rep [OF r1 k(2)] ord m1 unfolding st2_def by auto
  let ?m = "set_next 0 ?b (set_is_free False ?b (mem (snd st2)))"
  have e: "p = ?b + 16" "st' = (fst st2, (snd st2)\<lparr>mem := ?m\<rparr>)"
  proof -
    have "(if ord - 14 < i then Buddy_split ?b ?k ord ?st1 else ?st1) = st2"
      using i ord unfolding st2_def by (auto simp: Buddy_split.simps [of _ ord] dest: le_antisym)
    then show "p = ?b + 16" "st' = (fst st2, (snd st2)\<lparr>mem := ?m\<rparr>)"
      using t by (auto simp: Buddy_take_def Let_def MIN_ORDER_def HEADER_SIZE_def on_mem_def)
  qed
  have g: "block_good (snd st2) (?b, ord)" using r2 by (simp add: buddy_rep_def)
  have out: "?m x = mem (snd st2) x" if "x \<notin> bext (?b, ord)" for x
  proof -
    have "x < ?b \<or> ?b + 16 \<le> x" using block_good_header [OF g] that by (meson atLeastLessThan_iff not_le subsetD)
    then show ?thesis by simp
  qed
  have hd: "get_header ?m ?b = (get_header (mem (snd st2)) ?b)\<lparr>bh_is_free := False, bh_next := 0\<rparr>" by simp
  have "buddy_rep fs' ({#(?b, ord)#} + {#}) L (fst st2, (snd st2)\<lparr>mem := ?m\<rparr>)"
    by (rule rep_hand_change [where ?H1.0 = "{#(?b, ord)#}"])
      (use r2 g hd out in \<open>auto simp: block_good_def split: if_splits\<close>)
  then have r3: "buddy_rep fs' {#(?b, ord)#} L st'" by (simp add: e)
  have "buddy_rep fs' {#} (add_mset (p, 2 ^ ord - 16) L) st'"
    unfolding e(1) by (rule rep_hand_out [OF r3]) (use hd e(2) in simp)
  moreover have "frame (bext (?b, ?k)) st st'"
  proof -
    have "bext (?b, ord) \<subseteq> bext (?b, ?k)" using power_increasing [OF k(2), of "2::nat"] by (auto simp: bext_def)
    moreover have "frame (bext (?b, ord)) st2 st'" using out by (simp add: frame_def e)
    ultimately show ?thesis using frame_trans [OF f2] by blast
  qed
  moreover have "(?b, ?k) \<in># free_blocks fs" using fs k(1) by (simp add: free_blocks_mem)
  moreover have "merged (fst st) fs \<longrightarrow> merged (fst st') fs'" using m2 e(2) by simp
  ultimately show ?thesis using e(1) by blast
qed

lemma rep_new_region:
  assumes rep: "buddy_rep fs H L (self, s)" and top: "fs 18 = []" and pg: "pages_granted 64 s p s'" and al: "2 ^ 18 dvd p"
  shows "buddy_rep (fs(18 := [p])) H L (Buddy_init p (2 ^ 18) (self, s'))"
    and "mapped (snd (Buddy_init p (2 ^ 18) (self, s'))) = mapped s \<union> {p..<p + 2 ^ 18}"
    and "x \<in> mapped s \<Longrightarrow> mem (snd (Buddy_init p (2 ^ 18) (self, s'))) x = mem s x"
    and "merged (fst (Buddy_init p (2 ^ 18) (self, s'))) (fs(18 := [p]))"
proof -
  let ?m = "put_header \<lparr>bh_order = 18, bh_is_free = True, bh_next = 0\<rparr> p (mem s')"
  let ?self = "self\<lparr>buddy_base := Some p, region_size := 2 ^ 18, free_lists := (free_lists self)[4 := p]\<rparr>"
  have st': "Buddy_init p (2 ^ 18) (self, s') = (?self, s'\<lparr>mem := ?m\<rparr>)"
    unfolding Buddy_init_def trailing_zeros_power by (simp add: Let_def MIN_ORDER_def MAX_ORDER_def set_list_def on_mem_def)
  have p: "0 < p" "p + 2 ^ 18 \<le> 2 ^ 63" and new: "{p..<p + 2 ^ 18} \<inter> mapped s = {}"
    and mp: "mapped s' = mapped s \<union> {p..<p + 2 ^ 18}" and keep: "\<forall>a \<in> mapped s. mem s' a = mem s a"
    using pg by (simp_all add: pages_granted_def)
  have keep': "?m x = mem s x" if "x \<in> mapped s" for x
  proof -
    have "x \<notin> {p..<p + 2 ^ 18}" using that new by blast
    then show ?thesis using that keep by (subst put_other) auto
  qed
  show "mapped (snd (Buddy_init p (2 ^ 18) (self, s'))) = mapped s \<union> {p..<p + 2 ^ 18}"
    and "x \<in> mapped s \<Longrightarrow> mem (snd (Buddy_init p (2 ^ 18) (self, s'))) x = mem s x"
    unfolding st' using mp keep' by simp_all
  have good: "\<And>B. B \<in># blocks fs H L \<Longrightarrow> block_good s B" and li: "lists_ok fs self (mem s)"
    and live: "\<And>pn. pn \<in># L \<Longrightarrow> live_good (mem s) pn" and ex: "exclusive (image_mset bext (blocks fs H L))"
    using rep by (simp_all add: buddy_rep_def)
  have sub: "bext B \<subseteq> mapped s" if "B \<in># blocks fs H L" for B
    using good [OF that] by (auto simp: block_good_def)
  have same: "get_header ?m b = get_header (mem s) b" if "(b, k) \<in># blocks fs H L" for b k
  proof (rule get_header_cong, rule keep')
    fix x assume "b \<le> x" "x < b + 16"
    then show "x \<in> mapped s" using block_good_header [OF good [OF that]] sub [OF that] by auto
  qed
  have "b \<notin> {p..<p + 2 ^ 18}" if "k \<in> {14..<18}" "b \<in> set (fs k)" for b k
  proof -
    have "(b, k) \<in># blocks fs H L" by (rule blocks_listI) (use that in auto)
    then have "bext (b, k) \<subseteq> mapped s" by (rule sub)
    moreover have "b \<in> bext (b, k)" by (simp add: bext_def)
    ultimately show ?thesis using new by blast
  qed
  then show "merged (fst (Buddy_init p (2 ^ 18) (self, s'))) (fs(18 := [p]))"
    unfolding st' merged_def region_of_def by auto
  have bl: "blocks (fs(18 := [p])) H L = add_mset (p, 18) (blocks fs H L)"
    using free_blocks_add [of 18 "[p]" p fs] top by (simp add: blocks_def)
  have "lists_ok fs self ?m"
    using lists_ok_cong [OF _ li] same blocks_listI by metis
  then have "lists_ok (fs(18 := [p])) ?self ?m"
    using p(1) unfolding lists_ok_def by (auto simp: nth_list_update)
  moreover have "block_good (s'\<lparr>mem := ?m\<rparr>) B" if "B \<in># blocks (fs(18 := [p])) H L" for B
  proof (cases "B = (p, 18)")
    case True
    then show ?thesis using p al mp by (simp add: block_good_def bext_def)
  next
    case False
    with that bl have B: "(fst B, snd B) \<in># blocks fs H L" by auto
    have "block_good (s\<lparr>mem := ?m\<rparr>) (fst B, snd B)" using good [OF B] by (simp only: block_good_mem [OF same [OF B]])
    then show ?thesis using mp by (auto simp: block_good_def)
  qed
  moreover have "live_good ?m pn" if "pn \<in># L" for pn
    using same [of "fst (live_block pn)" "snd (live_block pn)"] blocks_liveI [OF that, of fs H] live [OF that]
    by (auto simp: live_good_def live_block_def split: prod.splits)
  moreover have "exclusive (image_mset bext (blocks (fs(18 := [p])) H L))"
    using ex sub new unfolding bl by (fastforce simp: exclusive_add_iff bext_def)
  moreover have "region_covered ?self (blocks (fs(18 := [p])) H L)"
    unfolding bl using al p by (auto simp: region_covered_def bext_def)
  ultimately show "buddy_rep (fs(18 := [p])) H L (Buddy_init p (2 ^ 18) (self, s'))"
    unfolding st' by (simp add: buddy_rep_def)
qed

subsection \<open>Allocation\<close>

text \<open>
  The buddy computation \<open>addr ^ size\<close> presupposes that a region starts at a multiple of its size. \<open>mmap\<close> promises
  page alignment only, and \<open>buddy_misaligned\<close> shows what follows when it gives no more. The allocator is therefore first
  studied on system calls whose grants of 256 KiB are aligned (locale \<open>aligned_kernel\<close>). This is not asked of the system: from any
  \<open>K\<close> that satisfies \<open>kernel\<close> the function \<open>aligned_grants\<close> makes such calls, by counting a misaligned grant as refused, and a run
  on \<open>K\<close> that happened to get aligned regions is a run on \<open>aligned_grants K\<close>.
\<close>

locale aligned_kernel = kernel +
  assumes mmap_region: "sys_mmap K s (2 ^ 18) = (Some p, s') \<Longrightarrow> 2 ^ 18 dvd p"

definition aligned_grants :: "syscalls \<Rightarrow> syscalls" where
  "aligned_grants K = K\<lparr>sys_mmap := \<lambda>s len.
     (case sys_mmap K s len of
        (None, s') \<Rightarrow> (None, s')
      | (Some p, s') \<Rightarrow> if len = 2 ^ 18 \<and> \<not> 2 ^ 18 dvd p then (None, s) else (Some p, s'))\<rparr>"

lemma aligned_grants_Some: "sys_mmap (aligned_grants K) s len = (Some p, s') \<Longrightarrow> sys_mmap K s len = (Some p, s')"
  and aligned_grants_dvd: "sys_mmap (aligned_grants K) s (2 ^ 18) = (Some p, s') \<Longrightarrow> 2 ^ 18 dvd p"
  and aligned_grants_None: "sys_mmap (aligned_grants K) s len = (None, s') \<Longrightarrow> s' = s \<or> sys_mmap K s len = (None, s')"
  and aligned_grants_munmap [simp]: "sys_munmap (aligned_grants K) = sys_munmap K"
  by (auto simp: aligned_grants_def split: prod.splits option.splits if_splits)

lemma aligned_grants_kernel:
  assumes "kernel K"
  shows "aligned_kernel (aligned_grants K)"
proof -
  note k = kernel.mmap_aligned kernel.mmap_nonnull kernel.mmap_user_half kernel.mmap_fresh kernel.mmap_mapped kernel.mmap_zeroed
    kernel.mmap_frame
  have "kernel (aligned_grants K)"
    unfolding kernel_def aligned_grants_munmap
    using k [OF assms aligned_grants_Some] aligned_grants_None kernel.mmap_failed [OF assms]
      kernel.munmap_mapped [OF assms] kernel.munmap_frame [OF assms] kernel.munmap_failed [OF assms] kernel.munmap_ok [OF assms]
    by (intro conjI allI impI) (blast | metis)+
  then show ?thesis using aligned_grants_dvd [of K] by (auto simp: aligned_kernel_def aligned_kernel_axioms_def)
qed

lemma fit_step_aligned: "aligned_kernel (fit_step (2 ^ 18) n)"
proof -
  have "kernel (fit_step (2 ^ 18) n)" by (rule fit_step_kernel) simp_all
  then show ?thesis by (auto simp: aligned_kernel_def aligned_kernel_axioms_def dest: fit_step_mmap(1))
qed

interpretation hf: aligned_kernel "fit_step (2 ^ 18) n"
  by (rule fit_step_aligned)

definition buddy_inv :: "live \<Rightarrow> buddy \<Rightarrow> bool" where
  "buddy_inv L st \<longleftrightarrow> (\<exists>fs. buddy_rep fs {#} L st \<and> merged (fst st) fs)"

lemma buddy_inv_new: "buddy_inv {#} (BuddyAllocator_new, s)"
  unfolding buddy_inv_def
proof (rule exI)
  show "buddy_rep (\<lambda>_. []) {#} {#} (BuddyAllocator_new, s) \<and> merged (fst (BuddyAllocator_new, s)) (\<lambda>_. [])"
    by (auto simp: merged_def buddy_rep_def lists_ok_def BuddyAllocator_new_def NUM_ORDERS_def MAX_ORDER_def MIN_ORDER_def
      blocks_def region_covered_def)
qed

lemma live_extent:
  assumes "buddy_rep fs H L st" and "(p, n) \<in># L"
  shows "{p..<p + n} \<subseteq> bext (live_block (p, n))" and "{p..<p + n} \<subseteq> mapped (snd st)" and "0 < p"
proof -
  from assms obtain b ord where e: "p = b + 16" "n = 2 ^ ord - 16" "ord \<in> {14..18}"
    by (metis rep_take_back multi_member_split)
  then have lb: "live_block (p, n) = (b, ord)" using live_block_of [of ord b] by simp
  show sub: "{p..<p + n} \<subseteq> bext (live_block (p, n))" unfolding lb using e by (auto simp: bext_def)
  have "block_good (snd st) (b, ord)" using assms blocks_liveI [OF assms(2), of fs H] lb by (simp add: buddy_rep_def)
  then show "{p..<p + n} \<subseteq> mapped (snd st)" using sub lb by (auto simp: block_good_def)
  show "0 < p" using e by simp
qed

text \<open>Bytes the program holds lie outside every free block.\<close>

lemma live_outside_free:
  assumes rep: "buddy_rep fs {#} L st" and "(p, n) \<in># L" "p \<le> a" "a < p + n" and "B \<in># free_blocks fs"
  shows "a \<notin> bext B"
proof -
  have "exclusive (image_mset bext (free_blocks fs) + image_mset bext (image_mset live_block L))"
    using rep by (simp add: buddy_rep_def blocks_def)
  then have "bext B \<inter> bext (live_block (p, n)) = {}"
    by (rule exclusive_disjoint) (use assms(2,5) in auto)
  then show ?thesis using live_extent(1) [OF rep assms(2)] assms(3,4) by auto
qed

lemma live_exclusive: "buddy_inv L st \<Longrightarrow> exclusive (extents L)"
proof -
  assume "buddy_inv L st"
  then obtain fs where rep: "buddy_rep fs {#} L st" by (auto simp: buddy_inv_def)
  then have ex: "exclusive (image_mset bext (image_mset live_block L))"
    using exclusive_unionD [of "image_mset bext (free_blocks fs)"] by (simp add: buddy_rep_def blocks_def)
  then have "exclusive (image_mset (bext \<circ> live_block) L)" by (simp add: image_mset.compositionality)
  then show ?thesis unfolding extents_def
    by (rule exclusive_image_mono) (use live_extent(1) [OF rep] in auto)
qed

text \<open>The outcome of an allocation of \<open>2 ^ ord\<close> bytes.\<close>

definition alloc_outcome :: "nat \<Rightarrow> live \<Rightarrow> buddy \<Rightarrow> addr option \<Rightarrow> buddy \<Rightarrow> bool" where
  "alloc_outcome ord L st r st' \<longleftrightarrow>
     (case r of None \<Rightarrow> buddy_inv L st' | Some p \<Rightarrow> buddy_inv (add_mset (p, 2 ^ ord - 16) L) st' \<and> p mod 2 ^ ord = 16) \<and>
     mapped (snd st) \<subseteq> mapped (snd st') \<and>
     (\<forall>(q, n) \<in># L. \<forall>a \<in> {q..<q + n}. mem (snd st') a = mem (snd st) a)"

lemma alloc_found:
  assumes rep: "buddy_rep fs {#} L st" and mg: "merged (fst st) fs" and ord: "ord \<in> {14..18}"
    and f: "find (\<lambda>i. free_lists (fst st) ! i \<noteq> 0) [ord - 14..<5] = Some i"
  shows "\<exists>r st'. Buddy_alloc K (2 ^ ord) st = Some (Some r, st') \<and> alloc_outcome ord L st (Some r) st' \<and>
    mapped (snd st') = mapped (snd st)"
proof -
  obtain p st' where t: "Buddy_take i ord st = (p, st')" by (cases "Buddy_take i ord st")
  have i: "ord - 14 \<le> i" "i < 5" "free_lists (fst st) ! i \<noteq> 0" using find_SomeD [OF f] by auto
  from Buddy_take_rep [OF rep ord i t] obtain fs' b where
    r: "p = b + 16" "(b, i + 14) \<in># free_blocks fs" "frame (bext (b, i + 14)) st st'"
      "buddy_rep fs' {#} (add_mset (p, 2 ^ ord - 16) L) st'" "merged (fst st') fs'" using mg by blast
  have "live_block (p, 2 ^ ord - 16) = (b, ord)" using live_block_of [of ord b] ord r(1) by simp
  then have "block_good (snd st') (b, ord)" using r(4) by (simp add: buddy_rep_def)
  then have "b mod 2 ^ ord = 0" by (auto simp: block_good_def)
  moreover have "(16::nat) < 2 ^ ord" using power_strict_increasing [of 4 ord "2::nat"] ord by simp
  ultimately have "p mod 2 ^ ord = 16" by (simp add: r(1) mod_add_left_eq [symmetric])
  moreover have "mem (snd st') a = mem (snd st) a" if "(q, n) \<in># L" "a \<in> {q..<q + n}" for q n a
    using live_outside_free [OF rep that(1) _ _ r(2)] that(2) r(3) by (auto simp: frame_def)
  ultimately have "alloc_outcome ord L st (Some p) st'"
    using r(3-5) by (auto simp: alloc_outcome_def buddy_inv_def frame_def)
  moreover have "Buddy_alloc K (2 ^ ord) st = Some (Some p, st')"
    using ord f t by (subst Buddy_alloc.simps) (simp add: MIN_ORDER_def MAX_ORDER_def NUM_ORDERS_def)
  ultimately show ?thesis using r(3) by (auto simp: frame_def)
qed

lemma find_lists_None:
  assumes "buddy_rep fs {#} L st" and "find (\<lambda>i. free_lists (fst st) ! i \<noteq> 0) [ord - 14..<5] = None" and "ord \<in> {14..18}"
  shows "fs 18 = []"
proof -
  have "4 \<in> set [ord - 14..<5]" using assms(3) by auto
  then have "free_lists (fst st) ! (18 - 14) = 0" using assms(2) by (auto simp: find_None_iff)
  moreover have "chain (next_of (mem (snd st))) (free_lists (fst st) ! (18 - 14)) (fs 18)"
    by (rule rep_chain [OF assms(1)]) simp
  ultimately show ?thesis by simp
qed

context aligned_kernel
begin

lemma Buddy_new_region_cases:
  assumes rep: "buddy_rep fs {#} L st" and top: "fs 18 = []" and nr: "Buddy_new_region K st = (ok, st')"
  shows "(if ok then \<exists>p. buddy_rep (fs(18 := [p])) {#} L st' \<and> merged (fst st') (fs(18 := [p])) else st' = st) \<and>
    mapped (snd st) \<subseteq> mapped (snd st') \<and> (\<forall>a \<in> mapped (snd st). mem (snd st') a = mem (snd st) a)"
proof -
  obtain r s' where r: "PageAllocator_alloc K 64 (snd st) = (r, s')" by (cases "PageAllocator_alloc K 64 (snd st)")
  have e: "Buddy_new_region K st = (case r of None \<Rightarrow> (False, fst st, s') | Some p \<Rightarrow> (True, Buddy_init p (2 ^ 18) (fst st, s')))"
    using r by (simp add: Buddy_new_region_def Let_def MAX_ORDER_def wshl_order PAGE_SIZE_def split: option.splits)
  show ?thesis
  proof (cases r)
    case None
    then have "s' = snd st" using r PageAllocator_alloc_None by simp
    then show ?thesis using e nr None by auto
  next
    case (Some p)
    have pg: "pages_granted 64 (snd st) p s'" using r Some by (intro PageAllocator_alloc_Some) auto
    have "sys_mmap K (snd st) (2 ^ 18) = (Some p, s')"
      using r Some by (auto simp: PageAllocator_alloc_def PAGE_SIZE_def wmul_def split: prod.splits option.splits if_splits)
    then have al: "2 ^ 18 dvd p" by (rule mmap_region)
    have rep': "buddy_rep fs {#} L (fst st, snd st)" using rep by simp
    note new = rep_new_region [OF rep' top pg al]
    have "ok" and st': "st' = Buddy_init p (2 ^ 18) (fst st, s')" using Some e nr by auto
    then show ?thesis using new unfolding st' by auto
  qed
qed

lemma Buddy_alloc_cases:
  assumes inv: "buddy_inv L st" and ord: "ord \<in> {14..18}"
  shows "\<exists>r st'. Buddy_alloc K (2 ^ ord) st = Some (r, st') \<and> alloc_outcome ord L st r st'"
proof -
  from inv obtain fs where rep: "buddy_rep fs {#} L st" and mg: "merged (fst st) fs" by (auto simp: buddy_inv_def)
  show ?thesis
  proof (cases "find (\<lambda>i. free_lists (fst st) ! i \<noteq> 0) [ord - 14..<5]")
    case (Some i)
    from alloc_found [OF rep mg ord this] show ?thesis by blast
  next
    case None
    note top = find_lists_None [OF rep None ord]
    obtain ok st1 where nr: "Buddy_new_region K st = (ok, st1)" by (cases "Buddy_new_region K st")
    note c = Buddy_new_region_cases [OF rep top nr]
    have a: "Buddy_alloc K (2 ^ ord) st = (if ok then Buddy_alloc K (2 ^ ord) st1 else Some (None, st1))"
      using ord None nr by (subst Buddy_alloc.simps) (auto simp: MIN_ORDER_def MAX_ORDER_def NUM_ORDERS_def wshl_order)
    show ?thesis
    proof (cases ok)
      case True
      with c obtain p where r1: "buddy_rep (fs(18 := [p])) {#} L st1" and m1: "merged (fst st1) (fs(18 := [p]))" by auto
      have nn: "find (\<lambda>i. free_lists (fst st1) ! i \<noteq> 0) [ord - 14..<5] \<noteq> None"
        using find_lists_None [OF r1 _ ord] by auto
      then obtain i where "find (\<lambda>i. free_lists (fst st1) ! i \<noteq> 0) [ord - 14..<5] = Some i" by blast
      from alloc_found [OF r1 m1 ord this] obtain r st' where
        o: "Buddy_alloc K (2 ^ ord) st1 = Some (Some r, st')" "alloc_outcome ord L st1 (Some r) st'" by blast
      have "\<forall>(q, n) \<in># L. \<forall>a \<in> {q..<q + n}. mem (snd st1) a = mem (snd st) a"
        using c live_extent(2) [OF rep] by blast
      with o(2) c have "alloc_outcome ord L st (Some r) st'" unfolding alloc_outcome_def by fastforce
      then show ?thesis using a True o(1) by auto
    next
      case False
      with a c inv show ?thesis by (auto simp: alloc_outcome_def)
    qed
  qed
qed

end

end
