(* ===== verification/BuddyFree.thy ===== *)
theory BuddyFree
  imports Buddy
begin

text \<open>
  Release of blocks by the buddy allocator and the contract of the whole allocator: \<open>dealloc\<close> finds the buddy, unlinks it and
  joins the two blocks as far as possible. The allocator meets \<open>heap_allocator\<close> when misaligned regions are refused, which carries
  over to every run in which the system gives no misaligned region; a concrete run shows what happens in others.
\<close>

subsection \<open>Release\<close>

lemma chain_splice:
  "chain nx p (as @ q # b # cs) \<Longrightarrow> q \<notin> set as \<Longrightarrow> q \<notin> set cs \<Longrightarrow> chain (nx(q := nx b)) p (as @ q # cs)"
proof (induction as arbitrary: p)
  case (Cons a as)
  then show ?case by (cases "a = q") auto
qed simp

lemma remove_from_free_list_chain:
  assumes "chain (next_of (mem (snd st))) cur (ys @ d # zs)" and "d \<notin> set ys"
  shows "remove_from_free_list d i cur prev st =
    Some (if last (prev # ys) = 0 then set_list i (next_of (mem (snd st)) d) st
      else on_mem (set_next (next_of (mem (snd st)) d) (last (prev # ys))) st)"
  using assms
proof (induction ys arbitrary: cur prev)
  case Nil
  then show ?case by (subst remove_from_free_list.simps) (auto simp: Let_def)
next
  case (Cons y ys)
  then have "cur = y" "0 < y" "y \<noteq> d" "chain (next_of (mem (snd st))) (next_of (mem (snd st)) y) (ys @ d # zs)" by auto
  with Cons.IH [of "next_of (mem (snd st)) y" y] Cons.prems(2) show ?case
    by (subst remove_from_free_list.simps) (auto simp: Let_def)
qed

text \<open>Two different blocks have their headers at different places.\<close>

lemma blocks_far:
  assumes "exclusive (image_mset bext Bs)" and "(b, k) \<in># Bs" "(c, j) \<in># Bs" and "b \<noteq> c"
    and "block_good s (b, k)" "block_good s (c, j)"
  shows "b + 16 \<le> c \<or> c + 16 \<le> b"
proof -
  obtain Cs where Cs: "Bs = add_mset (b, k) Cs" using assms(2) multi_member_split by metis
  then have "(c, j) \<in># Cs" using assms(3,4) by auto
  then have "bext (b, k) \<inter> bext (c, j) = {}" using assms(1) Cs by (auto simp: exclusive_add_iff)
  then have "{b..<b + 16} \<inter> {c..<c + 16} = {}"
    using block_good_header [OF assms(5)] block_good_header [OF assms(6)] by blast
  then have "c \<notin> {b..<b + 16}" "b \<notin> {c..<c + 16}" by auto
  then show ?thesis by auto
qed

lemma rep_distinct: "buddy_rep fs H L st \<Longrightarrow> ord \<in> {14..18} \<Longrightarrow> distinct (fs ord)"
  by (rule chain_distinct [OF rep_chain])

lemma rep_next_write:
  assumes rep: "buddy_rep fs H L st" and q: "(q, k) \<in># blocks fs H L" and v: "v < 2 ^ 64"
    and b: "(b, j) \<in># blocks fs H L"
  shows "get_header (set_next v q (mem (snd st))) b =
    (get_header (mem (snd st)) b)\<lparr>bh_next := if b = q then v else next_of (mem (snd st)) b\<rparr>"
proof (cases "b = q")
  case False
  have "b + 16 \<le> q \<or> q + 16 \<le> b"
    using rep q b False by (intro blocks_far [of "blocks fs H L" b j q k "snd st"]) (auto simp: buddy_rep_def)
  then show ?thesis using False by simp
qed (use v in simp)

lemma next_of_less: "next_of m b < 2 ^ 64"
  using read_le_less [of 8 m "b + 8"] by (simp add: get_header_def)

lemma rep_unlink:
  assumes rep: "buddy_rep fs H L st" and ord: "ord \<in> {14..18}" and fs: "fs ord = as @ q # d # cs"
  defines "m' \<equiv> set_next (next_of (mem (snd st)) d) q (mem (snd st))"
  shows "buddy_rep (fs(ord := as @ q # cs)) (add_mset (d, ord) H) L (fst st, (snd st)\<lparr>mem := m'\<rparr>)"
proof -
  have "mset (fs ord) = add_mset d (mset (as @ q # cs))" using fs by simp
  then have "free_blocks fs = add_mset (d, ord) (free_blocks (fs(ord := as @ q # cs)))"
    using free_blocks_add [OF ord, of "fs ord" d "fs(ord := as @ q # cs)"] by simp
  then have bl: "blocks (fs(ord := as @ q # cs)) (add_mset (d, ord) H) L = blocks fs H L" by (simp add: blocks_def)
  have q: "(q, ord) \<in># blocks fs H L" using fs ord by (intro blocks_listI) auto
  note hd = rep_next_write [OF rep q next_of_less, of _ _ "mem (snd st)" d, folded m'_def]
  have dist: "q \<notin> set as" "q \<notin> set cs" using rep_distinct [OF rep ord] fs by auto
  have nx: "next_of m' b = ((next_of (mem (snd st)))(q := next_of (mem (snd st)) d)) b" if "(b, j) \<in># blocks fs H L" for b j
    using hd [OF that] by simp
  have ch: "chain (next_of m') (free_lists (fst st) ! (k - 14)) ((fs(ord := as @ q # cs)) k)" if k: "k \<in> {14..18}" for k
  proof -
    have "chain ((next_of (mem (snd st)))(q := next_of (mem (snd st)) d)) (free_lists (fst st) ! (k - 14)) ((fs(ord := as @ q # cs)) k)"
    proof (cases "k = ord")
      case True
      have "chain (next_of (mem (snd st))) (free_lists (fst st) ! (ord - 14)) (as @ q # d # cs)"
        using rep_chain [OF rep ord] fs by simp
      from chain_splice [OF this dist] show ?thesis by (simp add: True)
    next
      case False
      have "q \<notin> set (fs k)"
      proof
        assume "q \<in> set (fs k)"
        then have "(q, k) \<in># blocks fs H L" by (rule blocks_listI [OF k])
        with q rep have "block_good (snd st) (q, k)" "block_good (snd st) (q, ord)" by (auto simp: buddy_rep_def)
        then show False using False by (simp add: block_good_def)
      qed
      then show ?thesis using False rep_chain [OF rep k] by simp
    qed
    moreover have "next_of m' b = ((next_of (mem (snd st)))(q := next_of (mem (snd st)) d)) b" if "b \<in> set ((fs(ord := as @ q # cs)) k)" for b
      using nx [of b k] blocks_listI [OF k, of b fs H L] that fs by (cases "k = ord") auto
    ultimately show ?thesis by (subst chain_cong) auto
  qed
  have "lists_ok (fs(ord := as @ q # cs)) (fst st) m'"
  proof -
    have "bh_is_free (get_header m' b)" if "k \<in> {14..18}" "b \<in> set (fs k)" for b k
      using hd [OF blocks_listI [of k b fs H L]] that rep by (simp add: buddy_rep_def lists_ok_def)
    then have "bh_is_free (get_header m' b)" if "k \<in> {14..18}" "b \<in> set ((fs(ord := as @ q # cs)) k)" for b k
      using that fs by (cases "k = ord") auto
    then show ?thesis using ch rep by (simp add: lists_ok_def buddy_rep_def)
  qed
  moreover have "block_good ((snd st)\<lparr>mem := m'\<rparr>) B" if "B \<in># blocks fs H L" for B
    using hd [of "fst B" "snd B"] that rep by (auto simp: buddy_rep_def block_good_def split: prod.splits)
  moreover have "live_good m' pn" if "pn \<in># L" for pn
    using hd [of "fst (live_block pn)" "snd (live_block pn)"] blocks_liveI [OF that, of fs H] rep that
    by (auto simp: live_good_def live_block_def buddy_rep_def split: prod.splits)
  ultimately show ?thesis using rep unfolding buddy_rep_def bl by simp
qed

lemma rep_remove:
  assumes rep: "buddy_rep fs H L st" and ord: "ord \<in> {14..18}" and d: "d \<in> set (fs ord)"
  obtains st' bs where "remove_from_free_list d (ord - 14) (free_lists (fst st) ! (ord - 14)) 0 st = Some st'"
    "buddy_rep (fs(ord := bs)) (add_mset (d, ord) H) L st'" "frame (\<Union> (bext ` set_mset (free_blocks fs))) st st'"
    "\<And>b j. (b, j) \<in># blocks fs H L \<Longrightarrow> bh_is_free (get_header (mem (snd st')) b) = bh_is_free (get_header (mem (snd st)) b)"
    "mset (fs ord) = add_mset d (mset bs)"
proof -
  obtain ys zs where fs: "fs ord = ys @ d # zs" using d split_list by metis
  have dist: "d \<notin> set ys" using rep_distinct [OF rep ord] fs by auto
  have ch: "chain (next_of (mem (snd st))) (free_lists (fst st) ! (ord - 14)) (ys @ d # zs)"
    using rep_chain [OF rep ord] fs by simp
  note rem = remove_from_free_list_chain [OF ch dist, of "ord - 14" 0]
  show ?thesis
  proof (cases ys rule: rev_cases)
    case Nil
    then have fs': "fs ord = d # zs" using fs by simp
    show ?thesis
      by (rule that [of "set_list (ord - 14) (next_of (mem (snd st)) d) st" zs])
        (use rem Nil rep_take [OF rep ord fs'] fs' in simp_all)
  next
    case (snoc as q)
    then have fs': "fs ord = as @ q # d # zs" using fs by simp
    let ?m = "set_next (next_of (mem (snd st)) d) q (mem (snd st))"
    have qb: "(q, ord) \<in># free_blocks fs" using fs' ord by (simp add: free_blocks_mem)
    then have q: "(q, ord) \<in># blocks fs H L" by (simp add: blocks_def)
    then have g: "block_good (snd st) (q, ord)" using rep by (simp add: buddy_rep_def)
    then have "q \<noteq> 0" by (simp add: block_good_def)
    then have r: "remove_from_free_list d (ord - 14) (free_lists (fst st) ! (ord - 14)) 0 st = Some (fst st, (snd st)\<lparr>mem := ?m\<rparr>)"
      using rem snoc by (simp add: on_mem_def)
    have "?m x = mem (snd st) x" if "x \<notin> \<Union> (bext ` set_mset (free_blocks fs))" for x
    proof -
      have "x \<notin> {q..<q + 16}" using block_good_header [OF g] qb that by blast
      then show ?thesis by (intro set_other(3)) auto
    qed
    then have "frame (\<Union> (bext ` set_mset (free_blocks fs))) st (fst st, (snd st)\<lparr>mem := ?m\<rparr>)" by (simp add: frame_def)
    moreover have "bh_is_free (get_header ?m b) = bh_is_free (get_header (mem (snd st)) b)" if "(b, j) \<in># blocks fs H L" for b j
      using rep_next_write [OF rep q next_of_less that, of "mem (snd st)" d] by simp
    ultimately show ?thesis
      using rep_unlink [OF rep ord fs'] fs' by (intro that [OF r]) auto
  qed
qed

text \<open>
  A header in the region that claims to be a free block of the order of its buddy in hand belongs to a block of the free list of
  that order: a larger block around it would contain the block in hand, a smaller one would have a smaller order.
\<close>

lemma in_region_covered:
  assumes "region_covered self B" and "in_region self d"
  shows "d \<in> \<Union> (bext ` set_mset B)"
proof -
  obtain r where r: "buddy_base self = Some r" using assms(2) by (cases "buddy_base self") (auto simp: in_region_def)
  then have "region_size self = 2 ^ 18" "r + 2 ^ 18 \<le> 2 ^ 63" "{r..<r + 2 ^ 18} \<subseteq> \<Union> (bext ` set_mset B)"
    using assms(1) by (auto simp: region_covered_def)
  moreover then have "d \<in> {r..<r + 2 ^ 18}" using assms(2) r by (auto simp: in_region_def wadd_def)
  ultimately show ?thesis by blast
qed

lemma buddy_block:
  assumes g: "block_good s (c, ord)" and g': "block_good s (e, k)" and d: "d = c XOR 2 ^ ord" "d \<in> bext (e, k)"
    and disj: "bext (c, ord) \<inter> bext (e, k) = {}"
  shows "e = d \<and> k \<le> ord"
proof -
  have al: "2 ^ ord dvd c" "2 ^ k dvd e" using g g' by (auto simp: block_good_def)
  note b = buddy_cases [OF al(1) d(1)]
  have k: "k \<le> ord"
  proof (rule ccontr)
    assume "\<not> k \<le> ord"
    then have k: "Suc ord \<le> k" by simp
    let ?l = "min c d"
    have "?l \<in> bext (e, k)"
    proof (rule ccontr)
      assume "?l \<notin> bext (e, k)"
      then have "?l < e" using d(2) by (auto simp: bext_def min_def split: if_splits)
      then have "e \<in> {?l..<?l + 2 ^ Suc ord}" using d(2) b(4) by (auto simp: bext_def min_def max_def split: if_splits)
      moreover have "2 ^ Suc ord dvd e" using al(2) le_imp_power_dvd [OF k, of "2::nat"] by (rule dvd_trans [rotated])
      ultimately have "{e..<e + 2 ^ Suc ord} \<subseteq> {?l..<?l + 2 ^ Suc ord}" by (intro aligned_unit [OF b(3)]) auto
      then show False using \<open>?l < e\<close> by (auto simp: ivl_subset)
    qed
    then have "{?l..<?l + 2 ^ Suc ord} \<subseteq> bext (e, k)"
      using aligned_unit [OF al(2) b(3) k] by (simp add: bext_def)
    moreover have "c \<in> {?l..<?l + 2 ^ Suc ord}" using b(4) by (auto simp: min_def max_def split: if_splits)
    moreover have "c \<in> bext (c, ord)" by (simp add: bext_def)
    ultimately show False using disj by blast
  qed
  have "2 ^ k dvd d" using b(1) le_imp_power_dvd [OF k, of "2::nat"] by (rule dvd_trans [rotated])
  then have "{d..<d + 2 ^ k} \<subseteq> {e..<e + 2 ^ k}" using d(2) by (intro aligned_unit [OF al(2)]) (auto simp: bext_def)
  then have "e = d" by (simp add: ivl_subset)
  then show ?thesis using k by simp
qed

lemma buddy_in_list:
  assumes rep: "buddy_rep fs {#(c, ord)#} L st" and d: "d = c XOR 2 ^ ord" "in_region (fst st) d"
    and hd: "bh_is_free (get_header (mem (snd st)) d)" "bh_order (get_header (mem (snd st)) d) = ord"
  shows "d \<in> set (fs ord)"
proof -
  have g: "block_good (snd st) (c, ord)" using rep by (simp add: buddy_rep_def)
  then have "2 ^ ord dvd c" by (simp add: block_good_def)
  note b = buddy_cases [OF this d(1)]
  have "d \<notin> bext (c, ord)"
    using b(2,4) by (auto simp: bext_def min_def max_def split: if_splits)
  then obtain e k where e: "(e, k) \<in># blocks fs {#} L" "d \<in> bext (e, k)"
    using in_region_covered [OF _ d(2), of "blocks fs {#(c, ord)#} L"] rep by (auto simp: buddy_rep_def)
  have g': "block_good (snd st) (e, k)" using rep e(1) by (simp add: buddy_rep_def)
  have "bext (c, ord) \<inter> bext (e, k) = {}" using rep e(1) by (auto simp: buddy_rep_def exclusive_add_iff)
  from buddy_block [OF g g' d(1) e(2) this] have "e = d" by simp
  then have k: "k = ord" using g' hd(2) by (simp add: block_good_def)
  consider "(d, ord) \<in># free_blocks fs" | pn where "pn \<in># L" "live_block pn = (d, ord)"
    using e(1) \<open>e = d\<close> k by (auto simp: blocks_def)
  then show ?thesis
  proof cases
    case 1
    then show ?thesis by (simp add: free_blocks_mem)
  next
    case 2
    then have "live_good (mem (snd st)) pn" using rep by (simp add: buddy_rep_def)
    then show ?thesis using 2(2) hd(1) by (auto simp: live_good_def live_block_def split: prod.splits)
  qed
qed

lemma rep_join:
  assumes rep: "buddy_rep fs {#(c, ord), (d, ord)#} L st" and d: "d = c XOR 2 ^ ord" and ord: "ord < 18"
  defines "n \<equiv> min c d"
  defines "st' \<equiv> on_mem (set_order (Suc ord) n) st"
  shows "buddy_rep fs {#(n, Suc ord)#} L st'"
proof -
  let ?m = "set_order (Suc ord) n (mem (snd st))"
  have g: "block_good (snd st) (c, ord)" "block_good (snd st) (d, ord)" using rep by (simp_all add: buddy_rep_def)
  then have al: "2 ^ ord dvd c" by (simp add: block_good_def)
  note b = buddy_cases [OF al d, folded n_def]
  have ext: "bext (n, Suc ord) = bext (c, ord) \<union> bext (d, ord)"
    using b(4) by (auto simp: bext_def n_def min_def max_def split: if_splits)
  have disj: "bext (c, ord) \<inter> bext (d, ord) = {}"
    using b(4) by (auto simp: bext_def n_def min_def max_def split: if_splits)
  have fits: "n + 2 ^ Suc ord \<le> 2 ^ 63"
  proof -
    have "n + 2 ^ Suc ord = max c d + 2 ^ ord" using b(4) by simp
    moreover have "c + 2 ^ ord \<le> 2 ^ 63" "d + 2 ^ ord \<le> 2 ^ 63" using g by (simp_all add: block_good_def)
    ultimately show ?thesis by (metis max_def)
  qed
  have "Suc ord < 256" using ord by simp
  have "buddy_rep fs ({#(n, Suc ord)#} + {#}) L (fst st, (snd st)\<lparr>mem := ?m\<rparr>)"
  proof (rule rep_hand_change [where ?H1.0 = "{#(c, ord), (d, ord)#}"])
    fix B assume "B \<in># {#(n, Suc ord)#}"
    then have "B = (n, Suc ord)" by simp
    then show "block_good ((snd st)\<lparr>mem := ?m\<rparr>) B"
      using g ord b(3) ext fits \<open>Suc ord < 256\<close> by (auto simp: block_good_def n_def min_def)
  next
    fix x assume "cover (image_mset bext {#(c, ord), (d, ord)#}) x = 0"
    then have "x \<noteq> n" by (auto simp: bext_def n_def min_def split: if_splits)
    then show "?m x = mem (snd st) x" by (simp add: set_order_def)
  qed (use rep ext disj in auto)
  then show ?thesis by (simp add: st'_def on_mem_def)
qed

definition live_space :: "live \<Rightarrow> addr set" where
  "live_space L = \<Union> (bext ` live_block ` set_mset L)"

lemma free_outside_live: "buddy_rep fs H L st \<Longrightarrow> \<Union> (bext ` set_mset (H + free_blocks fs)) \<subseteq> - live_space L"
proof -
  assume rep: "buddy_rep fs H L st"
  have "exclusive (image_mset bext (H + free_blocks fs) + image_mset bext (image_mset live_block L))"
    using rep by (simp add: buddy_rep_def blocks_def)
  then have "bext B \<inter> bext (live_block pn) = {}" if "B \<in># H + free_blocks fs" "pn \<in># L" for B pn
    by (rule exclusive_disjoint) (use that in auto)
  then show ?thesis unfolding live_space_def by blast
qed

lemma region_buddy:
  assumes "region_covered self B" and "2 ^ ord dvd c" "ord < 18" and "c \<in> region_of self"
  shows "in_region self (c XOR 2 ^ ord)"
proof -
  obtain r where r: "buddy_base self = Some r" "region_size self = 2 ^ 18" "2 ^ 18 dvd r" "r + 2 ^ 18 \<le> 2 ^ 63" "c \<in> {r..<r + 2 ^ 18}"
    using assms(1,4) by (auto simp: region_covered_def region_of_def split: option.splits)
  let ?d = "c XOR 2 ^ ord" let ?l = "min c ?d"
  note b = buddy_cases [OF assms(2) refl]
  have "{?l..<?l + 2 ^ Suc ord} \<subseteq> {r..<r + 2 ^ 18}"
  proof -
    have c: "c \<in> {?l..<?l + 2 ^ Suc ord}" using b(4) by (auto simp: min_def max_def split: if_splits)
    have le: "Suc ord \<le> 18" using assms(3) by simp
    have "?l \<in> {r..<r + 2 ^ 18}"
    proof (rule ccontr)
      assume n: "?l \<notin> {r..<r + 2 ^ 18}"
      then have "?l < r" using r(5) by auto
      then have "r \<in> {?l..<?l + 2 ^ Suc ord}" using c r(5) by auto
      moreover have "2 ^ Suc ord dvd r" using r(3) le_imp_power_dvd [OF le, of "2::nat"] by (rule dvd_trans [rotated])
      ultimately have "{r..<r + 2 ^ Suc ord} \<subseteq> {?l..<?l + 2 ^ Suc ord}" by (intro aligned_unit [OF b(3)]) auto
      then show False using \<open>?l < r\<close> by (auto simp: ivl_subset)
    qed
    from aligned_unit [OF r(3) b(3) le this] show ?thesis .
  qed
  moreover have "?d \<in> {?l..<?l + 2 ^ Suc ord}" using b(4) by (auto simp: min_def max_def split: if_splits)
  ultimately have "?d \<in> {r..<r + 2 ^ 18}" by blast
  then show ?thesis using r by (auto simp: in_region_def wadd_def)
qed

lemma Buddy_push_rep:
  assumes rep: "buddy_rep fs {#(c, ord)#} L st" and fr: "bh_is_free (get_header (mem (snd st)) c)" and mg: "merged (fst st) fs"
    and stop: "ord < 18 \<Longrightarrow> \<not> (in_region (fst st) (c XOR 2 ^ ord) \<and> bh_is_free (get_header (mem (snd st)) (c XOR 2 ^ ord)) \<and>
      bh_order (get_header (mem (snd st)) (c XOR 2 ^ ord)) = ord)"
  shows "\<exists>st' fs'. Buddy_push c ord st = Some st' \<and> buddy_rep fs' {#} L st' \<and> frame (- live_space L) st st' \<and> merged (fst st') fs'"
proof -
  have g: "block_good (snd st) (c, ord)" using rep by (simp add: buddy_rep_def)
  then have ord: "ord \<in> {14..18}" by (simp add: block_good_def)
  let ?h = "free_lists (fst st) ! (ord - 14)"
  let ?m = "set_next ?h c (mem (snd st))"
  have h: "?h < 2 ^ 64" by (rule rep_head_less [OF rep ord])
  have hd: "get_header ?m c = (get_header (mem (snd st)) c)\<lparr>bh_next := ?h\<rparr>" using h by simp
  have out: "?m x = mem (snd st) x" if "x \<notin> bext (c, ord)" for x
  proof -
    have "x \<notin> {c..<c + 16}" using block_good_header [OF g] that by blast
    then show ?thesis by (intro set_other(3)) auto
  qed
  let ?st = "(fst st, (snd st)\<lparr>mem := ?m\<rparr>)"
  have "buddy_rep fs ({#(c, ord)#} + {#}) L ?st"
    by (rule rep_hand_change [where ?H1.0 = "{#(c, ord)#}"])
      (use rep g hd out in \<open>auto simp: block_good_def split: if_splits\<close>)
  then have r1: "buddy_rep fs {#(c, ord)#} L ?st" by simp
  have "buddy_rep (fs(ord := c # fs ord)) {#} L (set_list (ord - 14) c ?st)"
    by (rule rep_push [OF r1]) (use hd fr in simp_all)
  moreover have "Buddy_push c ord st = Some (set_list (ord - 14) c ?st)"
    using ord by (auto simp: Buddy_push_def MIN_ORDER_def NUM_ORDERS_def MAX_ORDER_def on_mem_def Let_def)
  moreover have "frame (- live_space L) st (set_list (ord - 14) c ?st)"
    unfolding frame_set_list using out free_outside_live [OF rep] by (auto simp: frame_def)
  moreover have "merged (fst (set_list (ord - 14) c ?st)) (fs(ord := c # fs ord))"
  proof (rule merged_push [OF mg])
    let ?d = "c XOR 2 ^ ord"
    have rc: "region_covered (fst st) (blocks fs {#(c, ord)#} L)" using rep by (simp add: buddy_rep_def)
    have "in_region (fst st) ?d" if "ord < 18" "c \<in> region_of (fst st)"
      using region_buddy [OF rc _ that] g by (simp add: block_good_def)
    moreover have "in_region (fst st) ?d" if "?d \<in> region_of (fst st)"
      using that rc by (auto simp: in_region_def region_of_def region_covered_def wadd_def split: option.splits)
    moreover have "bh_is_free (get_header (mem (snd st)) ?d) \<and> bh_order (get_header (mem (snd st)) ?d) = ord" if "?d \<in> set (fs ord)"
      by (rule rep_list_header [OF rep ord that])
    ultimately show "?d \<notin> set (fs ord) \<or> ord = 18 \<or> c \<notin> region_of (fst st) \<and> ?d \<notin> region_of (fst st)"
      using stop ord by (cases "ord = 18") auto
  qed (simp add: set_list_def)
  ultimately show ?thesis by blast
qed

lemma Buddy_coalesce_rep:
  assumes "buddy_rep fs {#(c, ord)#} L st" and "bh_is_free (get_header (mem (snd st)) c)" and "merged (fst st) fs"
  shows "\<exists>st' fs'. Buddy_coalesce c ord st = Some st' \<and> buddy_rep fs' {#} L st' \<and> frame (- live_space L) st st' \<and> merged (fst st') fs'"
  using assms
proof (induction "18 - ord" arbitrary: fs c ord st)
  case 0
  then show ?case using Buddy_push_rep [OF 0(2,3,4)] by (simp add: Buddy_coalesce.simps MAX_ORDER_def)
next
  case (Suc k)
  let ?d = "c XOR 2 ^ ord"
  have g: "block_good (snd st) (c, ord)" using Suc.prems(1) by (simp add: buddy_rep_def)
  have ord: "ord \<in> {14..18}" "ord < 18" using g Suc.hyps(2) by (auto simp: block_good_def)
  have w: "wshl (Suc 0) ord = 2 ^ ord" using ord by (simp add: wshl_order)
  show ?case
  proof (cases "in_region (fst st) ?d \<and> bh_is_free (get_header (mem (snd st)) ?d) \<and> bh_order (get_header (mem (snd st)) ?d) = ord")
    case False
    then have "Buddy_coalesce c ord st = Buddy_push c ord st"
      by (subst Buddy_coalesce.simps) (use ord w in \<open>auto simp: MAX_ORDER_def Let_def\<close>)
    then show ?thesis using Buddy_push_rep [OF Suc.prems] False by simp
  next
    case True
    then have d: "?d \<in> set (fs ord)" using buddy_in_list [OF Suc.prems(1) refl] by blast
    from rep_remove [OF Suc.prems(1) ord(1) d] obtain st1 bs where
      rm: "remove_from_free_list ?d (ord - 14) (free_lists (fst st) ! (ord - 14)) 0 st = Some st1" and
      r1: "buddy_rep (fs(ord := bs)) {#(?d, ord), (c, ord)#} L st1" and
      f1: "frame (\<Union> (bext ` set_mset (free_blocks fs))) st st1" and
      fr: "\<And>b j. (b, j) \<in># blocks fs {#(c, ord)#} L \<Longrightarrow>
        bh_is_free (get_header (mem (snd st1)) b) = bh_is_free (get_header (mem (snd st)) b)" and
      ms: "mset (fs ord) = add_mset ?d (mset bs)" by metis
    let ?n = "min c ?d"
    let ?st2 = "on_mem (set_order (Suc ord) ?n) st1"
    have r1': "buddy_rep (fs(ord := bs)) {#(c, ord), (?d, ord)#} L st1" using r1 by (simp add: add_mset_commute)
    have r2: "buddy_rep (fs(ord := bs)) {#(?n, Suc ord)#} L ?st2" by (rule rep_join [OF r1' refl ord(2)])
    have al: "2 ^ ord dvd c" using g by (simp add: block_good_def)
    note b = buddy_cases [OF al refl]
    have e: "Buddy_coalesce c ord st = Buddy_coalesce ?n (Suc ord) ?st2"
      by (subst Buddy_coalesce.simps) (use True ord w rm b(2) in \<open>auto simp: MAX_ORDER_def MIN_ORDER_def Let_def min_def\<close>)
    have "(?d, ord) \<in># blocks fs {#(c, ord)#} L" by (rule blocks_listI) (use ord(1) d in simp_all)
    then have "bh_is_free (get_header (mem (snd st1)) ?n)"
      using fr [of c ord] fr [of ?d ord] True Suc.prems(2) by (auto simp: min_def)
    then have fr2: "bh_is_free (get_header (mem (snd ?st2)) ?n)" by (simp add: on_mem_def)
    have "set bs \<subseteq> set (fs ord)" using ms by (metis set_mset_add_mset_insert set_mset_mset subset_insertI)
    then have m2: "merged (fst ?st2) (fs(ord := bs))"
      using f1 by (intro merged_mono [OF Suc.prems(3)]) (auto simp: on_mem_def frame_def)
    have "k = 18 - Suc ord" using Suc.hyps(2) by simp
    from Suc.hyps(1) [OF this r2 fr2 m2] obtain st' fs' where
      s': "Buddy_coalesce ?n (Suc ord) ?st2 = Some st'" "buddy_rep fs' {#} L st'" "frame (- live_space L) ?st2 st'" "merged (fst st') fs'" by blast
    have "frame (- live_space L) st1 ?st2"
    proof -
      have "?n \<in> bext (c, ord) \<union> bext (?d, ord)" by (auto simp: bext_def min_def)
      then have "?n \<notin> live_space L" using free_outside_live [OF r1'] by auto
      then show ?thesis by (auto simp: frame_def on_mem_def set_order_def)
    qed
    moreover have "frame (- live_space L) st st1"
      using frame_trans [OF f1 frame_refl] free_outside_live [OF Suc.prems(1)] by auto
    ultimately have "frame (- live_space L) st st'" using s'(3) frame_trans by (metis order_refl)
    with s' e show ?thesis by auto
  qed
qed

lemma Buddy_dealloc_rep:
  assumes inv: "buddy_inv (add_mset (p, n) L) st"
  obtains ord st' where "ord \<in> {14..18}" "n = 2 ^ ord - 16" "Buddy_dealloc p (n + 16) st = Some st'" "buddy_inv L st'"
    "frame (- live_space L) st st'"
proof -
  from inv obtain fs where rep: "buddy_rep fs {#} (add_mset (p, n) L) st" and mg: "merged (fst st) fs" by (auto simp: buddy_inv_def)
  from rep_take_back [OF rep] obtain b ord where
    e: "p = b + 16" "n = 2 ^ ord - 16" "ord \<in> {14..18}" and r: "buddy_rep fs {#(b, ord)#} L st" by auto
  have g: "block_good (snd st) (b, ord)" using r by (simp add: buddy_rep_def)
  let ?m = "set_order ord b (set_is_free True b (mem (snd st)))"
  have hd: "get_header ?m b = (get_header (mem (snd st)) b)\<lparr>bh_is_free := True, bh_order := ord\<rparr>" using e(3) by simp
  have out: "?m x = mem (snd st) x" if "x \<notin> bext (b, ord)" for x
  proof -
    have "x \<notin> {b..<b + 16}" using block_good_header [OF g] that by blast
    then have "x < b \<or> b + 16 \<le> x" by auto
    then show ?thesis by simp
  qed
  let ?st = "(fst st, (snd st)\<lparr>mem := ?m\<rparr>)"
  have "buddy_rep fs ({#(b, ord)#} + {#}) L ?st"
    by (rule rep_hand_change [where ?H1.0 = "{#(b, ord)#}"])
      (use r g hd out in \<open>auto simp: block_good_def split: if_splits\<close>)
  then have r1: "buddy_rep fs {#(b, ord)#} L ?st" by simp
  have fr: "bh_is_free (get_header (mem (snd ?st)) b)" using hd by simp
  obtain st' fs' where s': "Buddy_coalesce b ord ?st = Some st'" "buddy_rep fs' {#} L st'" "frame (- live_space L) ?st st'"
    "merged (fst st') fs'"
    using Buddy_coalesce_rep [OF r1 fr] mg by auto
  have "frame (- live_space L) st ?st" using out free_outside_live [OF r] by (auto simp: frame_def)
  then have f: "frame (- live_space L) st st'" using s'(3) frame_trans by (metis order_refl)
  have "p < 2 ^ 64"
  proof -
    have "(2::nat) ^ 4 \<le> 2 ^ ord" using e(3) by (intro power_increasing) auto
    then show ?thesis using g e(1) by (auto simp: block_good_def)
  qed
  then have "wsub p HEADER_SIZE = b" using e(1) by (simp add: HEADER_SIZE_def wsub_in_range)
  moreover have "(2::nat) ^ ord - 16 + 16 = 2 ^ ord"
    using power_increasing [of 4 ord "2::nat"] e(3) by simp
  ultimately have "Buddy_dealloc p (n + 16) st = Some st'"
    using s'(1) e(2) by (simp add: Buddy_dealloc_def on_mem_def)
  then show ?thesis using that [OF e(3,2)] s'(2,4) f by (auto simp: buddy_inv_def)
qed

subsection \<open>The buddy allocator as an allocator\<close>

definition buddy_alloc :: "syscalls \<Rightarrow> nat \<Rightarrow> buddy \<Rightarrow> addr option \<times> buddy" where
  "buddy_alloc K ord st = (case Buddy_alloc K (2 ^ ord) st of None \<Rightarrow> (None, st) | Some r \<Rightarrow> r)"

definition buddy_dealloc :: "unit \<Rightarrow> addr \<times> usize \<Rightarrow> buddy \<Rightarrow> buddy" where
  "buddy_dealloc t pn st = (case Buddy_dealloc (fst pn) (snd pn + 16) st of None \<Rightarrow> st | Some st' \<Rightarrow> st')"

definition buddy_poke :: "addr \<Rightarrow> byte \<Rightarrow> buddy \<Rightarrow> buddy" where
  "buddy_poke a v st = on_mem (\<lambda>m. m(a := v)) st"

definition buddy_order :: "nat \<Rightarrow> bool" where
  "buddy_order ord \<longleftrightarrow> 14 \<le> ord \<and> ord \<le> 18"

definition buddy_usable :: "nat \<Rightarrow> usize" where
  "buddy_usable ord = 2 ^ ord - 16"

lemma buddy_inv_poke:
  assumes inv: "buddy_inv L st" and mem: "(p, n) \<in># L" "p \<le> a" "a < p + n"
  shows "buddy_inv L (buddy_poke a v st)"
proof -
  from inv obtain fs where rep: "buddy_rep fs {#} L st" and mg: "merged (fst st) fs" by (auto simp: buddy_inv_def)
  have p16: "16 \<le> p" using rep mem(1) by (auto simp: buddy_rep_def live_good_def)
  have a: "a \<in> bext (live_block (p, n))" using live_extent(1) [OF rep mem(1)] mem by auto
  have hdr: "get_header ((mem (snd st))(a := v)) b = get_header (mem (snd st)) b" if b: "(b, k) \<in># blocks fs {#} L" for b k
  proof (rule get_header_cong)
    fix x assume x: "b \<le> x" "x < b + 16"
    have g: "block_good (snd st) (b, k)" using rep b by (simp add: buddy_rep_def)
    have "x \<noteq> a"
    proof (cases "(b, k) = live_block (p, n)")
      case True
      then have "b + 16 = p" using p16 by (simp add: live_block_def)
      then show ?thesis using x mem(2) by simp
    next
      case False
      obtain C where C: "blocks fs {#} L = add_mset (live_block (p, n)) C"
        using blocks_liveI [OF mem(1), of fs "{#}"] multi_member_split by metis
      then have "(b, k) \<in># C" using b False by auto
      then have "bext (live_block (p, n)) \<inter> bext (b, k) = {}"
        using rep C by (auto simp: buddy_rep_def exclusive_add_iff)
      then show ?thesis using a x block_good_header [OF g] by auto
    qed
    then show "((mem (snd st))(a := v)) x = mem (snd st) x" by simp
  qed
  have "buddy_rep fs {#} L (fst st, (snd st)\<lparr>mem := (mem (snd st))(a := v)\<rparr>)"
    by (rule rep_same_headers) (use rep hdr in auto)
  then show ?thesis using mg by (auto simp: buddy_inv_def buddy_poke_def on_mem_def)
qed

lemma buddy_dealloc_cases:
  assumes "buddy_inv (add_mset (p, n) L) st"
  shows "buddy_inv L (buddy_dealloc t (p, n) st)" and "frame (- live_space L) st (buddy_dealloc t (p, n) st)"
proof -
  obtain ord st' where "Buddy_dealloc p (n + 16) st = Some st'" "buddy_inv L st'" "frame (- live_space L) st st'"
    by (rule Buddy_dealloc_rep [OF assms])
  then show "buddy_inv L (buddy_dealloc t (p, n) st)" "frame (- live_space L) st (buddy_dealloc t (p, n) st)"
    by (simp_all add: buddy_dealloc_def)
qed

context aligned_kernel
begin

lemma buddy_alloc_cases:
  assumes "buddy_inv L st" and "buddy_order ord" and "buddy_alloc K ord st = (r, st')"
  shows "alloc_outcome ord L st r st'"
  using Buddy_alloc_cases [OF assms(1), of ord] assms(2,3) by (auto simp: buddy_alloc_def buddy_order_def)

end

sublocale aligned_kernel \<subseteq> buddy: heap_allocator buddy_inv buddy_order buddy_usable "buddy_alloc K"
  "\<lambda>_. True" buddy_dealloc buddy_poke "\<lambda>st. mem (snd st)" "\<lambda>st. mapped (snd st)"
proof (unfold_locales, goal_cases)
  case (1 L s r p s')
  then show ?case using buddy_alloc_cases [of L s r "Some p" s'] by (auto simp: alloc_outcome_def buddy_usable_def)
next
  case (2 L s r s')
  then show ?case using buddy_alloc_cases [of L s r None s'] by (auto simp: alloc_outcome_def)
next
  case (3 L s r res s' p n a)
  then show ?case using buddy_alloc_cases [of L s r res s'] unfolding alloc_outcome_def by fastforce
next
  case (4 p n L s t)
  then show ?case by (intro buddy_dealloc_cases)
next
  case (5 p n L s t q k a)
  then obtain fs where rep: "buddy_rep fs {#} (add_mset (p, n) L) s" by (auto simp: buddy_inv_def)
  have "a \<in> bext (live_block (q, k))" using live_extent(1) [OF rep, of q k] 5 by auto
  then have "a \<in> live_space L" using 5 by (auto simp: live_space_def)
  then show ?case using buddy_dealloc_cases(2) [OF 5(1), of t] by (simp add: frame_def)
next
  case (6 L s p n a v)
  then show ?case by (intro buddy_inv_poke)
next
  case (7 a v s b)
  then show ?case by (simp add: buddy_poke_def on_mem_def)
next
  case (8 L s)
  then show ?case by (rule live_exclusive)
next
  case (9 L s p n)
  then obtain fs where rep: "buddy_rep fs {#} L s" by (auto simp: buddy_inv_def)
  then show ?case using live_extent(2,3) [OF rep 9(2)] by simp
qed

text \<open>With nothing held, eager merging leaves the current region as one block.\<close>

lemma inv_empty_top:
  assumes inv: "buddy_inv {#} st" and base: "buddy_base (fst st) \<noteq> None"
  shows "free_lists (fst st) ! 4 \<noteq> 0"
proof -
  from inv obtain fs where rep: "buddy_rep fs {#} {#} st" and mg: "merged (fst st) fs" by (auto simp: buddy_inv_def)
  from base obtain r where r: "buddy_base (fst st) = Some r" by blast
  have bl: "blocks fs {#} {#} = free_blocks fs" by (simp add: blocks_def)
  have rc: "region_covered (fst st) (free_blocks fs)" using rep by (simp add: buddy_rep_def bl)
  have ex: "exclusive (image_mset bext (free_blocks fs))" and good: "\<And>B. B \<in># free_blocks fs \<Longrightarrow> block_good (snd st) B"
    using rep by (simp_all add: buddy_rep_def bl)
  define S where "S = {B. B \<in># free_blocks fs \<and> bext B \<inter> region_of (fst st) \<noteq> {}}"
  have "r \<in> region_of (fst st)" by (simp add: region_of_def r)
  moreover have "region_of (fst st) \<subseteq> \<Union> (bext ` set_mset (free_blocks fs))"
    using rc by (simp add: region_covered_def region_of_def r)
  ultimately have "S \<noteq> {}" unfolding S_def by blast
  then obtain B where B: "B \<in> S" "\<And>C. C \<in> S \<Longrightarrow> snd B \<le> snd C" using ex_has_least_nat [of "\<lambda>B. B \<in> S" _ snd] by blast
  obtain b k where bk: "B = (b, k)" by (cases B)
  have fb: "(b, k) \<in># free_blocks fs" and g: "block_good (snd st) (b, k)" using B(1) good by (auto simp: S_def bk)
  have k: "k \<in> {14..18}" "b \<in> set (fs k)" using fb by (simp_all add: free_blocks_mem)
  have breg: "b \<in> region_of (fst st)"
  proof -
    have "bext (b, k) \<inter> {r..<r + 2 ^ 18} \<noteq> {}" using B(1) by (simp add: S_def bk region_of_def r)
    then obtain x where x: "x \<in> bext (b, k)" "x \<in> {r..<r + 2 ^ 18}" by blast
    show ?thesis
    proof (rule ccontr)
      assume "b \<notin> region_of (fst st)"
      then have "b < r" using x by (auto simp: region_of_def r bext_def)
      then have "r \<in> {b..<b + 2 ^ k}" using x by (auto simp: bext_def)
      moreover have "2 ^ k dvd r"
        using rc r k(1) le_imp_power_dvd [of k 18 "2::nat"] by (auto simp: region_covered_def intro: dvd_trans)
      ultimately have "{r..<r + 2 ^ k} \<subseteq> {b..<b + 2 ^ k}" using g by (intro aligned_unit) (auto simp: block_good_def)
      then show False using \<open>b < r\<close> by (auto simp: ivl_subset)
    qed
  qed
  have "k = 18"
  proof (rule ccontr)
    assume "k \<noteq> 18"
    then have k18: "k < 18" using k(1) by simp
    let ?d = "b XOR 2 ^ k"
    have al: "2 ^ k dvd b" using g by (simp add: block_good_def)
    have dr: "in_region (fst st) ?d" by (rule region_buddy [OF rc al k18 breg])
    then have dreg: "?d \<in> region_of (fst st)" using rc r by (auto simp: in_region_def region_of_def region_covered_def wadd_def)
    obtain e j where e: "(e, j) \<in># free_blocks fs" "?d \<in> bext (e, j)" using in_region_covered [OF rc dr] by auto
    have ne: "?d \<notin> bext (b, k)"
      using buddy_cases(2,4) [OF al refl] by (auto simp: bext_def min_def max_def split: if_splits)
    obtain C where C: "free_blocks fs = add_mset (b, k) C" using fb multi_member_split by metis
    then have "(e, j) \<in># C" using e ne by auto
    then have "bext (b, k) \<inter> bext (e, j) = {}" using ex C by (auto simp: exclusive_add_iff)
    from buddy_block [OF g good [OF e(1)] refl e(2) this] have ej: "e = ?d" "j \<le> k" by auto
    have "(e, j) \<in> S" using e dreg by (auto simp: S_def)
    then have "j = k" using B(2) ej(2) bk by fastforce
    then have "?d \<in> set (fs k)" using e(1) ej(1) by (simp add: free_blocks_mem)
    then show False using mg k breg k18 by (auto simp: merged_def)
  qed
  then have "fs 18 \<noteq> []" using k(2) by auto
  moreover have "chain (next_of (mem (snd st))) (free_lists (fst st) ! (18 - 14)) (fs 18)" by (rule rep_chain [OF rep]) simp
  ultimately show ?thesis by (cases "fs 18") auto
qed

subsection \<open>Properties\<close>

context aligned_kernel
begin

lemma buddy_run_inv:
  "heap_run buddy_order buddy_usable (buddy_alloc K) (\<lambda>_. True) buddy_dealloc buddy_poke c es c' \<Longrightarrow>
    buddy_inv (fst c) (snd c) \<Longrightarrow> buddy_inv (fst c') (snd c')"
  by (rule buddy.run_inv)

end

context kernel
begin

lemma Buddy_drop_mapped:
  assumes "buddy_inv L st"
  shows "mapped (Buddy_drop K st) = mapped (snd st) - region_of (fst st)"
proof (cases "buddy_base (fst st)")
  case (Some r)
  with assms have "region_size (fst st) = 2 ^ 18" "2 ^ 18 dvd r" "r + 2 ^ 18 \<le> 2 ^ 63"
    by (auto simp: buddy_inv_def buddy_rep_def region_covered_def)
  moreover then have "4096 dvd r" using dvd_trans [of 4096 "2 ^ 18" r] by simp
  ultimately show ?thesis
    using PageAllocator_dealloc_ok(1) [of 64 r "snd st"] Some
    by (simp add: Buddy_drop_def PAGE_SIZE_def region_of_def mod_eq_0_iff_dvd)
qed (simp add: Buddy_drop_def region_of_def)

end

lemma buddy_live_shape:
  assumes "buddy_inv L st" and "(p, n) \<in># L"
  shows "\<exists>ord. buddy_order ord \<and> n = buddy_usable ord \<and> p mod 2 ^ ord = 16"
proof -
  from assms(1) obtain fs where rep: "buddy_rep fs {#} L st" by (auto simp: buddy_inv_def)
  from assms(2) obtain L' where L: "L = add_mset (p, n) L'" using multi_member_split by metis
  from rep_take_back [OF rep [unfolded L]] obtain b ord where
    e: "p = b + 16" "n = 2 ^ ord - 16" "ord \<in> {14..18}" "buddy_rep fs {#(b, ord)#} L' st" by blast
  then have "2 ^ ord dvd b" by (simp add: buddy_rep_def block_good_def)
  moreover have "(16::nat) < 2 ^ ord" using power_strict_increasing [of 4 ord "2::nat"] e(3) by simp
  ultimately have "p mod 2 ^ ord = 16" using e(1) by (auto elim!: dvdE)
  then show ?thesis using e by (auto simp: buddy_order_def buddy_usable_def)
qed

lemma buddy_new_eval: "BuddyAllocator_new = \<lparr>free_lists = [0, 0, 0, 0, 0], buddy_base = None, region_size = 0\<rparr>"
  by (simp add: BuddyAllocator_new_def NUM_ORDERS_def MAX_ORDER_def MIN_ORDER_def eval_nat_numeral)

lemmas buddy_eval = buddy_alloc_def buddy_dealloc_def buddy_poke_def buddy_order_def buddy_usable_def buddy_new_eval
  Buddy_new_region_def Buddy_init_def Buddy_take_def Buddy_dealloc_def Buddy_push_def on_mem_def set_list_def
  MIN_ORDER_def MAX_ORDER_def NUM_ORDERS_def HEADER_SIZE_def PAGE_SIZE_def in_region_def Let_def
  wshl_def wadd_def wsub_def trailing_zeros_def

definition demo_system :: os where
  "demo_system = \<lparr>mem = (\<lambda>_. 0), mapped = {}\<rparr>"

abbreviation demo_huge :: syscalls where
  "demo_huge \<equiv> fit_step (2 ^ 18) 2"

lemma demo_region:
  "PageAllocator_alloc demo_huge 64 demo_system = (Some 262144, \<lparr>mem = (\<lambda>_. 0), mapped = {262144..<524288}\<rparr>)"
  by (simp add: demo_system_def PageAllocator_alloc_def fit_step_def wmul_def PAGE_SIZE_def upt_rec fun_eq_iff)

lemma demo_kernel: "kernel demo_huge"
  by (rule fit_step_kernel) simp_all

lemmas buddy_steps = Buddy_alloc.simps Buddy_split.simps Buddy_coalesce.simps remove_from_free_list.simps ctz.simps upt_rec

abbreviation buddy_exec :: "syscalls \<Rightarrow> (nat, unit) event list \<Rightarrow> live \<times> buddy \<Rightarrow> (live \<times> buddy) option" where
  "buddy_exec K \<equiv> heap_exec buddy_order buddy_usable (buddy_alloc K) (\<lambda>_. True) buddy_dealloc buddy_poke"

text \<open>A state of the allocator with one region, and the headers of its free blocks.\<close>

definition one_region :: "addr \<Rightarrow> addr set \<Rightarrow> addr list \<Rightarrow> mem \<Rightarrow> buddy" where
  "one_region r M fl m = (\<lparr>free_lists = fl, buddy_base = Some r, region_size = 262144\<rparr>, \<lparr>mem = m, mapped = M\<rparr>)"

definition free_at :: "mem \<Rightarrow> nat \<Rightarrow> addr \<Rightarrow> bool" where
  "free_at m ord b \<longleftrightarrow> get_header m b = \<lparr>bh_order = ord, bh_is_free = True, bh_next = 0\<rparr>"

lemma demo_run1:
  "\<exists>m. buddy_exec demo_huge [Alloc 14, Alloc 15, Free () 262160 16368] ({#}, BuddyAllocator_new, demo_system) =
      Some ({#(294928, 32752)#}, one_region 262144 {262144..<524288} [0, 262144, 327680, 393216, 0] m) \<and>
    free_at m 15 262144 \<and> free_at m 16 327680 \<and> free_at m 17 393216"
  using demo_region by (simp add: buddy_eval buddy_steps one_region_def free_at_def)

lemma demo_run2:
  assumes "free_at m 15 262144" "free_at m 16 327680" "free_at m 17 393216"
  shows "\<exists>m'. buddy_exec demo_huge [Free () 294928 32752]
      ({#(294928, 32752)#}, one_region 262144 {262144..<524288} [0, 262144, 327680, 393216, 0] m) =
    Some ({#}, one_region 262144 {262144..<524288} [0, 0, 0, 0, 262144] m')"
  using assms by (simp add: buddy_eval buddy_steps one_region_def free_at_def)

abbreviation buddy_run :: "syscalls \<Rightarrow> live \<times> buddy \<Rightarrow> (nat, unit) event list \<Rightarrow> live \<times> buddy \<Rightarrow> bool" where
  "buddy_run K \<equiv> heap_run buddy_order buddy_usable (buddy_alloc K) (\<lambda>_. True) buddy_dealloc buddy_poke"

lemma demo_live:
  "\<exists>m es. buddy_run demo_huge ({#}, BuddyAllocator_new, demo_system) es
    ({#(294928, 32752)#}, one_region 262144 {262144..<524288} [0, 262144, 327680, 393216, 0] m)"
  using demo_run1 heap_execI by blast

lemma demo_empty:
  "\<exists>m es. buddy_run demo_huge ({#}, BuddyAllocator_new, demo_system) es
    ({#}, one_region 262144 {262144..<524288} [0, 0, 0, 0, 262144] m)"
  using demo_run1 demo_run2 heap_exec_run [OF heap_execI] by blast

subsection \<open>Runs with aligned regions\<close>

text \<open>
  The runs on a system \<open>K\<close> in which every region that was mapped starts at a multiple of its size. Nothing is asked of the system calls: whether
  a run is one of these is seen from the states it goes through.
\<close>

definition region_aligned :: "buddy \<Rightarrow> bool" where
  "region_aligned st = (case buddy_base (fst st) of None \<Rightarrow> True | Some r \<Rightarrow> 2 ^ 18 dvd r)"

abbreviation buddy_step :: "syscalls \<Rightarrow> live \<times> buddy \<Rightarrow> (nat, unit) event \<Rightarrow> live \<times> buddy \<Rightarrow> bool" where
  "buddy_step K \<equiv> heap_step buddy_order buddy_usable (buddy_alloc K) (\<lambda>_. True) buddy_dealloc buddy_poke"

inductive aligned_run :: "syscalls \<Rightarrow> live \<times> buddy \<Rightarrow> (nat, unit) event list \<Rightarrow> live \<times> buddy \<Rightarrow> bool" for K c where
  aligned_nil: "aligned_run K c [] c"
| aligned_snoc: "aligned_run K c es c' \<Longrightarrow> buddy_step K c' e c'' \<Longrightarrow> region_aligned (snd c'') \<Longrightarrow> aligned_run K c (es @ [e]) c''"

lemma buddy_inv_aligned: "buddy_inv L st \<Longrightarrow> region_aligned st"
  by (auto simp: buddy_inv_def buddy_rep_def region_covered_def region_aligned_def split: option.splits)

lemma aligned_run_huge:
  assumes "aligned_kernel K" and "buddy_run K c es c'" and "buddy_inv (fst c) (snd c)"
  shows "aligned_run K c es c'"
  using assms(2,3)
proof (induction rule: heap_run.induct)
  case (run_snoc c es c' e c'')
  have "buddy_run K c (es @ [e]) c''" using run_snoc.hyps by (rule heap_run.run_snoc)
  then have "buddy_inv (fst c'') (snd c'')" using aligned_kernel.buddy_run_inv [OF assms(1)] run_snoc.prems by blast
  then show ?case using run_snoc buddy_inv_aligned by (blast intro: aligned_snoc)
qed (rule aligned_nil)

text \<open>A call maps at most one region, and the region is the current one afterwards.\<close>

lemma Buddy_split_base [simp]: "buddy_base (fst (Buddy_split b i j st)) = buddy_base (fst st)"
  by (induction b i j st rule: Buddy_split.induct)
    (subst Buddy_split.simps, auto simp: Let_def set_list_def on_mem_def)

lemma Buddy_take_base: "Buddy_take i ord st = (p, st') \<Longrightarrow> buddy_base (fst st') = buddy_base (fst st)"
  by (auto simp: Buddy_take_def Let_def set_list_def on_mem_def split: if_splits)

lemma Buddy_alloc_unfold:
  assumes "ord \<in> {14..18}"
  shows "Buddy_alloc K (2 ^ ord) st =
    (case find (\<lambda>i. free_lists (fst st) ! i \<noteq> 0) [ord - 14..<5] of
       Some i \<Rightarrow> (case Buddy_take i ord st of (p, st') \<Rightarrow> Some (Some p, st'))
     | None \<Rightarrow> (case Buddy_new_region K st of (ok, st') \<Rightarrow> if ok then Buddy_alloc K (2 ^ ord) st' else Some (None, st')))"
proof -
  have "wshl 1 ord = 2 ^ ord" using assms by (simp add: wshl_order)
  then show ?thesis
    using assms by (subst Buddy_alloc.simps) (simp add: MIN_ORDER_def MAX_ORDER_def NUM_ORDERS_def split: option.splits prod.splits)
qed

lemma Buddy_alloc_new_region:
  assumes "ord \<in> {14..18}" and "p \<noteq> 0" and "length (free_lists (fst st)) = 5"
  obtains i q st' where "find (\<lambda>i. free_lists (fst (Buddy_init p (2 ^ 18) st)) ! i \<noteq> 0) [ord - 14..<5] = Some i"
    "Buddy_alloc K (2 ^ ord) (Buddy_init p (2 ^ 18) st) = Some (Some q, st')" "buddy_base (fst st') = Some p"
proof -
  let ?st = "Buddy_init p (2 ^ 18) st"
  have init: "free_lists (fst ?st) ! 4 = p" "buddy_base (fst ?st) = Some p"
    using assms(3) unfolding Buddy_init_def trailing_zeros_power
    by (simp_all add: Let_def MIN_ORDER_def MAX_ORDER_def set_list_def on_mem_def)
  have "4 \<in> set [ord - 14..<5]" using assms(1) by auto
  then have "find (\<lambda>i. free_lists (fst ?st) ! i \<noteq> 0) [ord - 14..<5] \<noteq> None" using init(1) assms(2) by (auto simp: find_None_iff intro!: exI [of _ 4])
  then obtain i where i: "find (\<lambda>i. free_lists (fst ?st) ! i \<noteq> 0) [ord - 14..<5] = Some i" by blast
  obtain q st' where t: "Buddy_take i ord ?st = (q, st')" by (cases "Buddy_take i ord ?st")
  show thesis
    by (rule that [OF i, of q st']) (use i t init(2) Buddy_take_base [OF t] in \<open>simp_all add: Buddy_alloc_unfold [OF assms(1)]\<close>)
qed

lemma Buddy_new_region_eq:
  "Buddy_new_region K st = (case PageAllocator_alloc K 64 (snd st) of
     (None, s') \<Rightarrow> (False, fst st, s') | (Some p, s') \<Rightarrow> (True, Buddy_init p (2 ^ 18) (fst st, s')))"
  by (simp add: Buddy_new_region_def Let_def MAX_ORDER_def wshl_order PAGE_SIZE_def split: prod.splits option.splits)

lemma buddy_inv_lists: "buddy_inv L st \<Longrightarrow> length (free_lists (fst st)) = 5"
  by (auto simp: buddy_inv_def buddy_rep_def lists_ok_def)

context kernel
begin

lemma Buddy_alloc_returns:
  assumes "ord \<in> {14..18}" and "length (free_lists (fst st)) = 5"
  shows "\<exists>r. Buddy_alloc K (2 ^ ord) st = Some r"
proof (cases "find (\<lambda>i. free_lists (fst st) ! i \<noteq> 0) [ord - 14..<5]")
  case (Some i)
  then show ?thesis by (simp add: Buddy_alloc_unfold [OF assms(1)] split: prod.splits)
next
  case None
  obtain r s' where r: "PageAllocator_alloc K 64 (snd st) = (r, s')" by (cases "PageAllocator_alloc K 64 (snd st)")
  show ?thesis
  proof (cases r)
    case (Some p)
    with r have "pages_granted 64 (snd st) p s'" by (intro PageAllocator_alloc_Some) auto
    then have "p \<noteq> 0" by (simp add: pages_granted_def)
    moreover have "length (free_lists (fst (fst st, s'))) = 5" using assms(2) by simp
    ultimately obtain q st' where "Buddy_alloc K (2 ^ ord) (Buddy_init p (2 ^ 18) (fst st, s')) = Some (Some q, st')"
      by (rule Buddy_alloc_new_region [OF assms(1)])
    then show ?thesis using None r Some by (subst Buddy_alloc_unfold [OF assms(1)]) (simp add: Buddy_new_region_eq)
  qed (use None r in \<open>simp add: Buddy_alloc_unfold [OF assms(1)] Buddy_new_region_eq\<close>)
qed

lemma PageAllocator_aligned_grants:
  assumes "PageAllocator_alloc K 64 s = (r, s')" and "\<And>p. r = Some p \<Longrightarrow> 2 ^ 18 dvd p"
  shows "PageAllocator_alloc (aligned_grants K) 64 s = (r, s')"
  using assms mmap_nonnull [of s "2 ^ 18"]
  by (fastforce simp: PageAllocator_alloc_def aligned_grants_def PAGE_SIZE_def wmul_def split: prod.splits option.splits if_splits)

lemma buddy_alloc_aligned:
  assumes "buddy_inv L st" and "buddy_order ord" and "buddy_alloc K ord st = (r, st')" and "region_aligned st'"
  shows "buddy_alloc (aligned_grants K) ord st = (r, st')"
proof -
  have ord: "ord \<in> {14..18}" using assms(2) by (simp add: buddy_order_def)
  note len = buddy_inv_lists [OF assms(1)] and u = Buddy_alloc_unfold [OF ord]
  from Buddy_alloc_returns [OF ord len] assms(3) have b: "Buddy_alloc K (2 ^ ord) st = Some (r, st')" by (auto simp: buddy_alloc_def)
  have "Buddy_alloc (aligned_grants K) (2 ^ ord) st = Some (r, st')"
  proof (cases "find (\<lambda>i. free_lists (fst st) ! i \<noteq> 0) [ord - 14..<5]")
    case (Some i)
    then show ?thesis using b by (simp add: u)
  next
    case None
    obtain o' s' where a: "PageAllocator_alloc K 64 (snd st) = (o', s')" by (cases "PageAllocator_alloc K 64 (snd st)")
    show ?thesis
    proof (cases o')
      case n: None
      have "PageAllocator_alloc (aligned_grants K) 64 (snd st) = (None, s')" by (rule PageAllocator_aligned_grants) (use a n in auto)
      then show ?thesis using b None a n by (simp add: u Buddy_new_region_eq)
    next
      case (Some p)
      let ?st1 = "Buddy_init p (2 ^ 18) (fst st, s')"
      from a Some have "pages_granted 64 (snd st) p s'" by (intro PageAllocator_alloc_Some) auto
      then have "p \<noteq> 0" by (simp add: pages_granted_def)
      moreover have "length (free_lists (fst (fst st, s'))) = 5" using len by simp
      ultimately obtain i q st2 where
        f: "find (\<lambda>i. free_lists (fst ?st1) ! i \<noteq> 0) [ord - 14..<5] = Some i"
        and c: "Buddy_alloc K (2 ^ ord) ?st1 = Some (Some q, st2)" "buddy_base (fst st2) = Some p"
        by (rule Buddy_alloc_new_region [OF ord])
      have e: "st2 = st'" using b None a Some c(1) by (subst (asm) u) (simp add: Buddy_new_region_eq)
      then have "2 ^ 18 dvd p" using assms(4) c(2) by (simp add: region_aligned_def)
      then have "PageAllocator_alloc (aligned_grants K) 64 (snd st) = (Some p, s')"
        by (intro PageAllocator_aligned_grants) (use a Some in auto)
      moreover have "Buddy_alloc (aligned_grants K) (2 ^ ord) ?st1 = Buddy_alloc K (2 ^ ord) ?st1" using f by (simp add: u)
      ultimately show ?thesis
        using b None a Some by (subst u, subst (asm) u) (simp add: Buddy_new_region_eq)
    qed
  qed
  then show ?thesis by (simp add: buddy_alloc_def)
qed

lemma aligned_run_grants:
  assumes "aligned_run K c es c'" and "buddy_inv (fst c) (snd c)"
  shows "buddy_run (aligned_grants K) c es c'"
  using assms
proof (induction rule: aligned_run.induct)
  case (aligned_snoc es c' e c'')
  note run = aligned_snoc.IH [OF aligned_snoc.prems]
  have inv: "buddy_inv (fst c') (snd c')"
    using aligned_kernel.buddy_run_inv [OF aligned_grants_kernel [OF kernel_axioms] run] aligned_snoc.prems by blast
  from aligned_snoc.hyps(2) have "buddy_step (aligned_grants K) c' e c''"
    by cases (use inv aligned_snoc.hyps(3) buddy_alloc_aligned in \<open>auto intro!: heap_step.intros\<close>)
  with run show ?case by (rule heap_run.run_snoc)
qed (rule heap_run.run_nil)

lemma aligned_run_inv:
  assumes "aligned_run K ({#}, BuddyAllocator_new, s) es (L, st)"
  shows "buddy_inv L st"
  using aligned_kernel.buddy_run_inv [OF aligned_grants_kernel [OF kernel_axioms] aligned_run_grants [OF assms]] buddy_inv_new by simp

end

lemma demo_aligned_run:
  "buddy_run demo_huge ({#}, BuddyAllocator_new, demo_system) es c \<Longrightarrow> aligned_run demo_huge ({#}, BuddyAllocator_new, demo_system) es c"
  by (rule aligned_run_huge [OF fit_step_aligned]) (simp_all add: buddy_inv_new)

lemma demo_aligned:
  "\<exists>m es. aligned_run demo_huge ({#}, BuddyAllocator_new, demo_system) es
    ({#(294928, 32752)#}, one_region 262144 {262144..<524288} [0, 262144, 327680, 393216, 0] m)"
  "\<exists>m es. aligned_run demo_huge ({#}, BuddyAllocator_new, demo_system) es
    ({#}, one_region 262144 {262144..<524288} [0, 0, 0, 0, 262144] m)"
  using demo_live demo_empty demo_aligned_run by blast+

text \<open>
  C16. Soundness of the buddy allocator over a whole run in which every region that \<open>mmap\<close> gave starts at a multiple of its size:
  the program asks for blocks of 2^14 to 2^18 bytes, gives blocks back and writes what it holds, in any
  order. The blocks it holds never overlap and are mapped; a request for \<open>2 ^ ord\<close> bytes yields \<open>2 ^ ord - 16\<close> usable ones,
  sixteen bytes behind a multiple of \<open>2 ^ ord\<close>; dropping the allocator unmaps its current region and nothing else. The system is
  any that keeps what \<open>mmap\<close> and \<open>munmap\<close> promise; in runs that get a misaligned region the first claim fails (\<open>buddy_misaligned\<close>).
\<close>

theorem buddy_run_sound:
  assumes "kernel K"
    and "aligned_run K ({#}, BuddyAllocator_new, s) es (L, st)"
  shows "exclusive (extents L) \<and>
    (\<forall>(p, n) \<in># L. {p..<p + n} \<subseteq> mapped (snd st) \<and>
      (\<exists>ord. buddy_order ord \<and> n = buddy_usable ord \<and> p mod 2 ^ ord = 16)) \<and>
    mapped (Buddy_drop K st) = mapped (snd st) - region_of (fst st)"
proof -
  have i: "buddy_inv L st" by (rule kernel.aligned_run_inv [OF assms])
  then obtain fs where rep: "buddy_rep fs {#} L st" by (auto simp: buddy_inv_def)
  show ?thesis
    using live_exclusive [OF i] live_extent(2) [OF rep] buddy_live_shape [OF i] kernel.Buddy_drop_mapped [OF assms(1) i]
    by blast
qed

theorem buddy_run_sound_witness:
  "\<exists>L st. L = {#(294928, 32752)#} \<and> exclusive (extents L) \<and>
    mapped (Buddy_drop demo_huge st) = mapped (snd st) - region_of (fst st)"
proof -
  obtain m es where "aligned_run demo_huge ({#}, BuddyAllocator_new, demo_system) es
    ({#(294928, 32752)#}, one_region 262144 {262144..<524288} [0, 262144, 327680, 393216, 0] m)" using demo_aligned(1) by blast
  from buddy_run_sound [OF demo_kernel this] show ?thesis by blast
qed

text \<open>
  C17. The loops of the buddy allocator end: in every state reached by a run whose regions all start at multiples of their size, each valid request
  and the release of each held block return, although \<open>alloc\<close> calls itself after mapping a region and \<open>remove_from_free_list\<close> follows pointers stored in
  memory next to the program's own data. The request may itself map a region, at any page.
\<close>

theorem buddy_calls_return:
  assumes "kernel K"
    and "aligned_run K ({#}, BuddyAllocator_new, s) es (L, st)"
  shows "(\<forall>ord. buddy_order ord \<longrightarrow> (\<exists>r. Buddy_alloc K (2 ^ ord) st = Some r)) \<and>
    (\<forall>(p, n) \<in># L. \<exists>st'. Buddy_dealloc p (n + 16) st = Some st')"
proof -
  have i: "buddy_inv L st" by (rule kernel.aligned_run_inv [OF assms])
  have "\<exists>st'. Buddy_dealloc p (n + 16) st = Some st'" if "(p, n) \<in># L" for p n
  proof -
    obtain L' where "L = add_mset (p, n) L'" using \<open>(p, n) \<in># L\<close> multi_member_split by metis
    with i have "buddy_inv (add_mset (p, n) L') st" by simp
    then show ?thesis by (rule Buddy_dealloc_rep) blast
  qed
  moreover have "\<exists>r. Buddy_alloc K (2 ^ ord) st = Some r" if "buddy_order ord" for ord
    using kernel.Buddy_alloc_returns [OF assms(1) _ buddy_inv_lists [OF i], of ord] that by (simp add: buddy_order_def)
  ultimately show ?thesis by blast
qed

theorem buddy_calls_return_witness:
  "\<exists>m st'. Buddy_dealloc 294928 (32752 + 16) (one_region 262144 {262144..<524288} [0, 262144, 327680, 393216, 0] m) = Some st'"
proof -
  obtain m es where "aligned_run demo_huge ({#}, BuddyAllocator_new, demo_system) es
    ({#(294928, 32752)#}, one_region 262144 {262144..<524288} [0, 262144, 327680, 393216, 0] m)" using demo_aligned(1) by blast
  from buddy_calls_return [OF demo_kernel this] show ?thesis by auto
qed

text \<open>
  C18. Splitting and merging lose nothing: in a run whose regions all start at multiples of their size, when the program has given back every block,
  whatever the order of the releases, the current region is whole again, and a request of the largest size is served from it without mapping memory.
\<close>

theorem buddy_full_merge:
  assumes "kernel K"
    and "aligned_run K ({#}, BuddyAllocator_new, s) es ({#}, st)"
    and "buddy_base (fst st) \<noteq> None"
  shows "\<exists>p st'. Buddy_alloc K (2 ^ 18) st = Some (Some p, st') \<and> mapped (snd st') = mapped (snd st)"
proof -
  have i: "buddy_inv {#} st" by (rule kernel.aligned_run_inv [OF assms(1,2)])
  then obtain fs where rep: "buddy_rep fs {#} {#} st" "merged (fst st) fs" by (auto simp: buddy_inv_def)
  have "find (\<lambda>i. free_lists (fst st) ! i \<noteq> 0) [18 - 14..<5] = Some 4"
    using inv_empty_top [OF i assms(3)] by (simp add: upt_rec)
  from alloc_found [OF rep _ this, of K] show ?thesis by auto
qed

theorem buddy_full_merge_witness:
  "\<exists>m p st'. Buddy_alloc demo_huge (2 ^ 18) (one_region 262144 {262144..<524288} [0, 0, 0, 0, 262144] m) = Some (Some p, st') \<and>
    mapped (snd st') = {262144..<524288}"
proof -
  obtain m es where "aligned_run demo_huge ({#}, BuddyAllocator_new, demo_system) es
    ({#}, one_region 262144 {262144..<524288} [0, 0, 0, 0, 262144] m)" using demo_aligned(2) by blast
  from buddy_full_merge [OF demo_kernel this] show ?thesis by (auto simp: one_region_def)
qed

text \<open>The steps of the run on a misaligned region, 0x5000 to 0x45000.\<close>

abbreviation odd_region :: "addr list \<Rightarrow> mem \<Rightarrow> buddy" where
  "odd_region \<equiv> one_region 0x5000 {4096..<4096 * 69}"

lemma odd_map: "PageAllocator_alloc (first_fit 5) 64 (pages_to 4 (\<lambda>_. 0)) = (Some 0x5000, \<lparr>mem = (\<lambda>_. 0), mapped = {4096..<4096 * 69}\<rparr>)"
  using PageAllocator_pages_to [of 4 5 64 "\<lambda>_. 0"] by (simp add: pages_to_def)

lemma odd_1:
  "\<exists>m. buddy_exec (first_fit 5) [Alloc 15] ({#}, BuddyAllocator_new, pages_to 4 (\<lambda>_. 0)) =
      Some ({#(0x5010, 32752)#}, odd_region [0, 0xD000, 0x15000, 0x25000, 0] m) \<and>
    free_at m 15 0xD000 \<and> free_at m 16 0x15000 \<and> free_at m 17 0x25000"
  using odd_map by (simp add: buddy_eval buddy_steps one_region_def free_at_def)

lemma odd_2:
  assumes "free_at m 15 0xD000" "free_at m 16 0x15000" "free_at m 17 0x25000"
  shows "\<exists>m'. buddy_exec (first_fit 5) [Alloc 15] (L, odd_region [0, 0xD000, 0x15000, 0x25000, 0] m) =
      Some (add_mset (0xD010, 32752) L, odd_region [0, 0, 0x15000, 0x25000, 0] m') \<and>
    free_at m' 16 0x15000 \<and> free_at m' 17 0x25000"
  using assms by (simp add: buddy_eval buddy_steps one_region_def free_at_def)

lemma odd_3:
  assumes "free_at m 16 0x15000" "free_at m 17 0x25000"
  shows "\<exists>m'. buddy_exec (first_fit 5) [Alloc 14] (L, odd_region [0, 0, 0x15000, 0x25000, 0] m) =
      Some (add_mset (0x15010, 16368) L, odd_region [0x19000, 0x1D000, 0, 0x25000, 0] m') \<and>
    free_at m' 14 0x19000 \<and> free_at m' 15 0x1D000 \<and> free_at m' 17 0x25000"
  using assms by (simp add: buddy_eval buddy_steps one_region_def free_at_def)

lemma odd_4:
  assumes "free_at m 14 0x19000" "free_at m 15 0x1D000" "(0xD010, 32752) \<in># L"
  shows "\<exists>m'. buddy_exec (first_fit 5) [Write 0x11000 14, Write 0x11001 1] (L, odd_region fl m) = Some (L, odd_region fl m') \<and>
    free_at m' 14 0x19000 \<and> free_at m' 15 0x1D000 \<and>
    bh_order (get_header m' 0x11000) = 14 \<and> bh_is_free (get_header m' 0x11000)"
proof -
  let ?m = "m(0x11000 := 14, 0x11001 := 1)"
  have "get_header ?m b = get_header m b" if "b \<in> {0x19000, 0x1D000}" for b
    by (rule get_header_cong) (use that in auto)
  then have "free_at ?m 14 0x19000" "free_at ?m 15 0x1D000" using assms(1,2) by (simp_all add: free_at_def)
  moreover have "bh_order (get_header ?m 0x11000) = 14" "bh_is_free (get_header ?m 0x11000)" by (simp_all add: get_header_def)
  moreover have "buddy_exec (first_fit 5) [Write 0x11000 14, Write 0x11001 1] (L, odd_region fl m) = Some (L, odd_region fl ?m)"
  proof -
    have "\<exists>pn \<in># L. case pn of (p, n) \<Rightarrow> p \<le> a \<and> a < p + n" if "a \<in> {0x11000, 0x11001}" for a
      by (rule bexI [OF _ assms(3)]) (use that in auto)
    then show ?thesis by (simp add: buddy_poke_def on_mem_def one_region_def)
  qed
  ultimately show ?thesis by blast
qed

lemma odd_5:
  assumes "free_at m 14 0x19000" "free_at m 15 0x1D000" "bh_order (get_header m 0x11000) = 14" "bh_is_free (get_header m 0x11000)"
  shows "\<exists>m'. buddy_exec (first_fit 5) [Free () 0x15010 16368, Alloc 15]
      (add_mset (0x15010, 16368) L, odd_region [0x19000, 0x1D000, 0, 0x25000, 0] m) =
    Some (add_mset (0x11010, 32752) L, odd_region [0x19000, 0x1D000, 0, 0x25000, 0] m')"
  using assms by (simp add: buddy_eval buddy_steps one_region_def free_at_def)

text \<open>
  C19. On a system that maps the region at a page boundary only, as \<open>mmap\<close> does, the allocator can hand out memory that
  is in use. Here the region starts at 0x5000: the buddy address of the third block lies inside the second, the client's bytes there
  are read as the header of a free block, the two are merged, and the next request overlaps a block still held.
\<close>

theorem buddy_misaligned:
  "\<exists>st es. buddy_run (first_fit 5) ({#}, BuddyAllocator_new, pages_to 4 (\<lambda>_. 0)) es
      ({#(0x11010, 32752), (0xD010, 32752), (0x5010, 32752)#}, st) \<and>
    \<not> exclusive (extents {#(0x11010, 32752), (0xD010, 32752), (0x5010, 32752)#})"
proof -
  from odd_1 obtain m1 where 1: "buddy_exec (first_fit 5) [Alloc 15] ({#}, BuddyAllocator_new, pages_to 4 (\<lambda>_. 0)) =
      Some ({#(0x5010, 32752)#}, odd_region [0, 0xD000, 0x15000, 0x25000, 0] m1)"
    "free_at m1 15 0xD000" "free_at m1 16 0x15000" "free_at m1 17 0x25000" by blast
  from odd_2 [OF 1(2-4), of "{#(0x5010, 32752)#}"] obtain m2 where 2: "buddy_exec (first_fit 5) [Alloc 15]
      ({#(0x5010, 32752)#}, odd_region [0, 0xD000, 0x15000, 0x25000, 0] m1) =
      Some ({#(0xD010, 32752), (0x5010, 32752)#}, odd_region [0, 0, 0x15000, 0x25000, 0] m2)"
    "free_at m2 16 0x15000" "free_at m2 17 0x25000" by blast
  let ?L = "{#(0xD010, 32752), (0x5010, 32752)#}"
  from odd_3 [OF 2(2,3), of ?L] obtain m3 where 3: "buddy_exec (first_fit 5) [Alloc 14]
      (?L, odd_region [0, 0, 0x15000, 0x25000, 0] m2) =
      Some (add_mset (0x15010, 16368) ?L, odd_region [0x19000, 0x1D000, 0, 0x25000, 0] m3)"
    "free_at m3 14 0x19000" "free_at m3 15 0x1D000" by blast
  from odd_4 [OF 3(2,3), of "add_mset (0x15010, 16368) ?L"] obtain m4 where
    4: "buddy_exec (first_fit 5) [Write 0x11000 14, Write 0x11001 1]
      (add_mset (0x15010, 16368) ?L, odd_region [0x19000, 0x1D000, 0, 0x25000, 0] m3) =
      Some (add_mset (0x15010, 16368) ?L, odd_region [0x19000, 0x1D000, 0, 0x25000, 0] m4)"
    "free_at m4 14 0x19000" "free_at m4 15 0x1D000"
    "bh_order (get_header m4 0x11000) = 14" "bh_is_free (get_header m4 0x11000)" by auto
  from odd_5 [OF 4(2-5), of ?L] obtain m5 where 5: "buddy_exec (first_fit 5) [Free () 0x15010 16368, Alloc 15]
      (add_mset (0x15010, 16368) ?L, odd_region [0x19000, 0x1D000, 0, 0x25000, 0] m4) =
      Some (add_mset (0x11010, 32752) ?L, odd_region [0x19000, 0x1D000, 0, 0x25000, 0] m5)" by blast
  note run = heap_exec_run [OF heap_exec_run [OF heap_exec_run [OF heap_exec_run [OF heap_execI [OF 1(1)] 2(1)] 3(1)] 4(1)] 5]
  have "0x12000 \<in> {0x11010..<(0x11010::nat) + 32752}" "0x12000 \<in> {0xD010..<(0xD010::nat) + 32752}" by simp_all
  then have "\<not> exclusive (extents (add_mset (0x11010, 32752) ?L))" by (auto simp: exclusive_add_iff)
  with run show ?thesis by blast
qed

end
