(* ===== verification/ThreadLocal.thy ===== *)
theory ThreadLocal
  imports SizeClass Links
begin

text \<open>
  The thread-local cache, \<open>aethalloc-core/src/thread_local.rs\<close>: ten slots, one per size from 16 bytes to 8 KiB,
  each with a list of free blocks linked through their first eight bytes and a counter. A block is one page
  (two for 8 KiB); a full slot returns blocks to the system. A slot is named by the pair \<open>(is_tiny, idx)\<close>
  that \<open>get_slot\<close> computes.
\<close>

definition TINY_CLASSES :: usize where
  "TINY_CLASSES = 4"

definition SMALL_CLASSES :: usize where
  "SMALL_CLASSES = 6"

definition CACHE_SIZE :: usize where
  "CACHE_SIZE = 32"

record CacheSlot =
  slot_head :: addr
  slot_count :: usize

record ThreadLocalCache =
  tiny :: "CacheSlot list"
  small :: "CacheSlot list"

type_synonym slot_key = "bool \<times> nat"
type_synonym tcache = "ThreadLocalCache \<times> os"

definition CacheSlot_new :: CacheSlot where
  "CacheSlot_new = \<lparr>slot_head = 0, slot_count = 0\<rparr>"

definition size_for_index :: "slot_key \<Rightarrow> usize" where
  "size_for_index k = (if fst k then wshl 16 (snd k) else wshl 256 (snd k))"

definition ThreadLocalCache_new :: ThreadLocalCache where
  "ThreadLocalCache_new = \<lparr>tiny = replicate TINY_CLASSES CacheSlot_new, small = replicate SMALL_CLASSES CacheSlot_new\<rparr>"

definition get_slot :: "usize \<Rightarrow> slot_key option" where
  "get_slot sz =
     (case SizeClass_classify sz of
        Tiny \<Rightarrow>
          let alloc_size = max (round_up_pow2 sz) 16
          in if alloc_size > 128 then None
             else let idx = trailing_zeros (alloc_size div 16)
                  in if idx < TINY_CLASSES then Some (True, idx) else None
      | Small \<Rightarrow>
          let alloc_size = round_up_pow2 sz
          in if \<not> (256 \<le> alloc_size \<and> alloc_size \<le> 8192) then None
             else let idx = trailing_zeros (alloc_size div 256)
                  in if idx < SMALL_CLASSES then Some (False, idx) else None
      | _ \<Rightarrow> None)"

definition slot_at :: "ThreadLocalCache \<Rightarrow> slot_key \<Rightarrow> CacheSlot" where
  "slot_at self k = (if fst k then tiny self ! snd k else small self ! snd k)"

definition put_slot :: "slot_key \<Rightarrow> CacheSlot \<Rightarrow> ThreadLocalCache \<Rightarrow> ThreadLocalCache" where
  "put_slot k slot self =
     (if fst k then self\<lparr>tiny := (tiny self)[snd k := slot]\<rparr> else self\<lparr>small := (small self)[snd k := slot]\<rparr>)"

definition Cache_alloc :: "syscalls \<Rightarrow> usize \<Rightarrow> tcache \<Rightarrow> addr option \<times> tcache" where
  "Cache_alloc K sz st =
     (case get_slot sz of
        None \<Rightarrow> (None, st)
      | Some k \<Rightarrow>
          let slot = slot_at (fst st) k; ptr = slot_head slot
          in if ptr \<noteq> 0
             then let next = link_of (mem (snd st)) ptr
                  in (Some ptr, put_slot k \<lparr>slot_head = next, slot_count = wsub (slot_count slot) 1\<rparr> (fst st), snd st)
             else let alloc_size = size_for_index k; pages = div_ceil alloc_size PAGE_SIZE
                  in (case PageAllocator_alloc K (max pages 1) (snd st) of
                        (r, s') \<Rightarrow> (r, fst st, s')))"

text \<open>The direct release of both early returns of \<open>dealloc\<close>.\<close>

definition free_direct :: "syscalls \<Rightarrow> addr \<Rightarrow> usize \<Rightarrow> os \<Rightarrow> os" where
  "free_direct K ptr sz s =
     (let alloc_size = round_up_pow2 sz; pages = div_ceil alloc_size PAGE_SIZE
      in if pages > 0 then PageAllocator_dealloc K ptr pages s else s)"

definition Cache_dealloc :: "syscalls \<Rightarrow> addr \<Rightarrow> usize \<Rightarrow> tcache \<Rightarrow> tcache" where
  "Cache_dealloc K ptr sz st =
     (case get_slot sz of
        None \<Rightarrow> (fst st, free_direct K ptr sz (snd st))
      | Some k \<Rightarrow>
          let slot = slot_at (fst st) k
          in if slot_count slot \<ge> CACHE_SIZE then (fst st, free_direct K ptr sz (snd st))
             else (put_slot k \<lparr>slot_head = ptr, slot_count = wadd (slot_count slot) 1\<rparr> (fst st),
                   (snd st)\<lparr>mem := write_usize (slot_head slot) ptr (mem (snd st))\<rparr>))"

text \<open>The loop of \<open>clear_slot\<close>; \<open>None\<close> is a loop that does not end.\<close>

partial_function (option) clear_slot_loop :: "syscalls \<Rightarrow> slot_key \<Rightarrow> addr \<Rightarrow> os \<Rightarrow> os option" where
  "clear_slot_loop K k current s =
     (if current = 0 then Some s
      else let next = link_of (mem s) current;
               alloc_size = size_for_index k;
               pages = div_ceil alloc_size PAGE_SIZE
           in clear_slot_loop K k next (if pages > 0 then PageAllocator_dealloc K current pages s else s))"

definition clear_slot :: "syscalls \<Rightarrow> slot_key \<Rightarrow> tcache \<Rightarrow> tcache option" where
  "clear_slot K k st =
     (case clear_slot_loop K k (slot_head (slot_at (fst st) k)) (snd st) of
        None \<Rightarrow> None
      | Some s' \<Rightarrow> Some (put_slot k \<lparr>slot_head = 0, slot_count = 0\<rparr> (fst st), s'))"

fun clear_slots :: "syscalls \<Rightarrow> slot_key list \<Rightarrow> tcache \<Rightarrow> tcache option" where
  "clear_slots K [] st = Some st"
| "clear_slots K (k # ks) st = (case clear_slot K k st of None \<Rightarrow> None | Some st' \<Rightarrow> clear_slots K ks st')"

definition Cache_clear :: "syscalls \<Rightarrow> tcache \<Rightarrow> tcache option" where
  "Cache_clear K st =
     clear_slots K (map (Pair True) [0..<TINY_CLASSES] @ map (Pair False) [0..<SMALL_CLASSES]) st"

definition Cache_drop :: "syscalls \<Rightarrow> tcache \<Rightarrow> tcache option" where
  "Cache_drop K st = Cache_clear K st"

subsection \<open>Slots\<close>

definition slot_keys :: "slot_key set" where
  "slot_keys = {True} \<times> {0..<4} \<union> {False} \<times> {0..<6}"

definition slot_pages :: "slot_key \<Rightarrow> nat" where
  "slot_pages k = (if k = (False, 5) then 2 else 1)"

lemma finite_slot_keys [simp]: "finite slot_keys"
  by (simp add: slot_keys_def)

lemma slot_keys_cases:
  assumes "k \<in> slot_keys"
  obtains "k = (True, 0)" | "k = (True, 1)" | "k = (True, 2)" | "k = (True, 3)"
    | "k = (False, 0)" | "k = (False, 1)" | "k = (False, 2)" | "k = (False, 3)" | "k = (False, 4)" | "k = (False, 5)"
  using assms unfolding slot_keys_def by (auto simp: less_Suc_eq numeral_eq_Suc)

lemma slot_pages_size: "k \<in> slot_keys \<Longrightarrow> div_ceil (size_for_index k) 4096 = slot_pages k"
  by (erule slot_keys_cases) (simp_all add: size_for_index_def slot_pages_def wshl_def div_ceil_def)

lemma size_for_index_le: "k \<in> slot_keys \<Longrightarrow> size_for_index k \<le> slot_pages k * 4096"
  by (erule slot_keys_cases) (simp_all add: size_for_index_def slot_pages_def wshl_def)

text \<open>The slot of a size: its blocks hold the size, and the release computes the same number of pages.\<close>

lemma get_slot_SomeD:
  assumes "get_slot sz = Some k"
  shows "k \<in> slot_keys" and "sz \<le> size_for_index k" and "div_ceil (round_up_pow2 sz) 4096 = slot_pages k"
    and "size_for_index k = max 16 (round_up_pow2 sz)"
proof -
  have le: "sz \<le> 8192" using assms by (auto simp: get_slot_def SizeClass_classify_def split: if_splits)
  obtain j where j: "round_up_pow2 sz = 2 ^ j" "sz \<le> 2 ^ j" "j \<le> 13"
  proof (cases "sz = 0")
    case True
    then show ?thesis using that [of 0] by (simp add: round_up_pow2_def)
  next
    case False
    from round_up_pow2_exp [of sz] False le obtain j where
      j: "round_up_pow2 sz = 2 ^ j" "sz \<le> 2 ^ j" "\<And>i. sz \<le> 2 ^ i \<Longrightarrow> j \<le> i" by auto
    have "sz \<le> 2 ^ 13" using le by simp
    from j(3) [OF this] j(1,2) that show ?thesis by blast
  qed
  have tz: "trailing_zeros (2 ^ i div 2 ^ n) = i - n" if "n \<le> i" for i n
    using that by (simp flip: power_diff)
  have "k \<in> slot_keys \<and> size_for_index k = max 16 (2 ^ j) \<and> slot_pages k = div_ceil (2 ^ j) 4096"
  proof (cases "sz \<le> 128")
    case True
    define i where "i = max 4 j"
    have m: "max (2 ^ j) 16 = (2::nat) ^ i"
      using power_increasing_iff [of "2::nat" 4 j] by (auto simp: i_def max_def)
    have k: "k = (True, i - 4)" and i: "i - 4 < 4"
      using assms True tz [of 4 i] unfolding get_slot_def j(1) m
      by (auto simp: SizeClass_classify_def TINY_CLASSES_def Let_def i_def split: if_splits)
    have "wshl 16 (i - 4) = 2 ^ i"
    proof -
      have "(16::nat) * 2 ^ (i - 4) = 2 ^ i" using power_add [of "2::nat" 4 "i - 4"] by (simp add: i_def)
      moreover have "(2::nat) ^ i < 2 ^ 64" using i by (intro power_strict_increasing) auto
      ultimately show ?thesis using i by (simp only: wshl_def mod_less)
    qed
    moreover have "div_ceil (2 ^ j) 4096 = 1"
    proof -
      have "(2::nat) ^ j \<le> 2 ^ 7" using i by (intro power_increasing) (auto simp: i_def)
      then show ?thesis by (simp add: div_ceil_def)
    qed
    ultimately show ?thesis using m i by (simp add: k slot_keys_def size_for_index_def slot_pages_def max.commute)
  next
    case False
    have k: "k = (False, j - 8)" and i: "8 \<le> j" "j - 8 < 6"
    proof -
      have "256 \<le> (2::nat) ^ j" "(2::nat) ^ j \<le> 8192" using assms False le unfolding get_slot_def j(1)
        by (auto simp: SizeClass_classify_def Let_def split: if_splits)
      then have "(2::nat) ^ 8 \<le> 2 ^ j" by simp
      then show j8: "8 \<le> j" by (rule power_le_imp_le_exp [rotated]) simp
      show "k = (False, j - 8)" "j - 8 < 6" using assms False le tz [of 8 j] j8 unfolding get_slot_def j(1)
        by (auto simp: SizeClass_classify_def SMALL_CLASSES_def Let_def split: if_splits)
    qed
    have sz: "wshl 256 (j - 8) = 2 ^ j"
    proof -
      have "(256::nat) * 2 ^ (j - 8) = 2 ^ j" using power_add [of "2::nat" 8 "j - 8"] i(1) by simp
      moreover have "(2::nat) ^ j < 2 ^ 64" using j(3) by (intro power_strict_increasing) auto
      ultimately show ?thesis using i by (simp only: wshl_def mod_less)
    qed
    have in_keys: "k \<in> slot_keys" using i by (simp add: k slot_keys_def)
    have "size_for_index k = 2 ^ j" by (simp add: size_for_index_def k sz)
    moreover have "(16::nat) \<le> 2 ^ j" using power_increasing [of 4 j "2::nat"] i by simp
    ultimately show ?thesis using slot_pages_size [OF in_keys] in_keys by simp
  qed
  then have "k \<in> slot_keys \<and> sz \<le> size_for_index k \<and> div_ceil (round_up_pow2 sz) 4096 = slot_pages k \<and>
    size_for_index k = max 16 (round_up_pow2 sz)"
    using j(1,2) by simp
  then show "k \<in> slot_keys" and "sz \<le> size_for_index k" and "div_ceil (round_up_pow2 sz) 4096 = slot_pages k"
    and "size_for_index k = max 16 (round_up_pow2 sz)" by auto
qed

lemma slot_at_put [simp]:
  assumes "length (tiny self) = 4" "length (small self) = 6" "k \<in> slot_keys"
  shows "slot_at (put_slot k slot self) j = (if j = k then slot else slot_at self j)"
  using assms by (cases k; cases j) (auto simp: slot_at_def put_slot_def slot_keys_def nth_list_update)

lemma put_slot_lengths [simp]:
  "length (tiny (put_slot k slot self)) = length (tiny self)" "length (small (put_slot k slot self)) = length (small self)"
  by (simp_all add: put_slot_def)

subsection \<open>Invariant\<close>

text \<open>A block with its slot covers the pages of the slot.\<close>

definition pext :: "addr \<times> slot_key \<Rightarrow> addr set" where
  "pext = (\<lambda>(b, k). {b..<b + slot_pages k * 4096})"

definition held :: "addr \<times> usize \<Rightarrow> addr \<times> slot_key" where
  "held = (\<lambda>(p, n). (p, the (get_slot n)))"

definition cache_blocks :: "(slot_key \<Rightarrow> addr list) \<Rightarrow> live \<Rightarrow> (addr \<times> slot_key) multiset" where
  "cache_blocks fs L = listed slot_keys fs + image_mset held L"

definition page_good :: "addr \<times> slot_key \<Rightarrow> bool" where
  "page_good = (\<lambda>(b, k). k \<in> slot_keys \<and> b mod 4096 = 0 \<and> 0 < b \<and> b + slot_pages k * 4096 \<le> 2 ^ 63)"

definition slots_ok :: "(slot_key \<Rightarrow> addr list) \<Rightarrow> ThreadLocalCache \<Rightarrow> mem \<Rightarrow> bool" where
  "slots_ok fs self m \<longleftrightarrow> length (tiny self) = 4 \<and> length (small self) = 6 \<and>
     (\<forall>k \<in> slot_keys. chain (link_of m) (slot_head (slot_at self k)) (fs k) \<and>
        slot_count (slot_at self k) = length (fs k) \<and> length (fs k) \<le> 32)"

definition cache_rep :: "addr set \<Rightarrow> (slot_key \<Rightarrow> addr list) \<Rightarrow> live \<Rightarrow> tcache \<Rightarrow> bool" where
  "cache_rep M fs L st \<longleftrightarrow>
     slots_ok fs (fst st) (mem (snd st)) \<and>
     (\<forall>B \<in># cache_blocks fs L. page_good B) \<and>
     (\<forall>(p, n) \<in># L. get_slot n \<noteq> None) \<and>
     exclusive (image_mset pext (cache_blocks fs L)) \<and>
     mapped (snd st) = M \<union> \<Union> (pext ` set_mset (cache_blocks fs L)) \<and>
     M \<inter> \<Union> (pext ` set_mset (cache_blocks fs L)) = {}"

lemma cache_blocks_add [simp]: "cache_blocks fs (add_mset pn L) = add_mset (held pn) (cache_blocks fs L)"
  by (simp add: cache_blocks_def)

lemma cache_blocks_listI: "k \<in> slot_keys \<Longrightarrow> b \<in> set (fs k) \<Longrightarrow> (b, k) \<in># cache_blocks fs L"
  by (simp add: cache_blocks_def listed_mem)

lemma pext_word: "b \<le> x \<Longrightarrow> x < b + 8 \<Longrightarrow> x \<in> pext (b, k)"
  by (auto simp: pext_def slot_pages_def)

lemma cache_live:
  assumes "cache_rep M fs L st" and "(p, n) \<in># L"
  shows "{p..<p + n} \<subseteq> pext (held (p, n))" and "pext (held (p, n)) \<subseteq> mapped (snd st)" and "0 < p" and "p mod 4096 = 0"
    and "\<exists>k \<in> slot_keys. get_slot n = Some k"
proof -
  from assms obtain k where k: "get_slot n = Some k" by (auto simp: cache_rep_def)
  have B: "held (p, n) \<in># cache_blocks fs L" using assms(2) by (simp add: cache_blocks_def)
  then have "page_good (p, k)" using assms(1) k by (auto simp: cache_rep_def held_def)
  then show "0 < p" "p mod 4096 = 0" by (simp_all add: page_good_def)
  have "n \<le> slot_pages k * 4096" using get_slot_SomeD [OF k] size_for_index_le order_trans by blast
  then show "{p..<p + n} \<subseteq> pext (held (p, n))" using k by (auto simp: held_def pext_def)
  show "pext (held (p, n)) \<subseteq> mapped (snd st)" using assms(1) B by (auto simp: cache_rep_def)
  show "\<exists>k \<in> slot_keys. get_slot n = Some k" using k get_slot_SomeD(1) by blast
qed

text \<open>Blocks of the multiset \<open>C\<close> left aside, the lists depend only on the first words of the listed blocks.\<close>

lemma slots_ok_frame:
  assumes "slots_ok fs self m" and "\<And>b k x. k \<in> slot_keys \<Longrightarrow> b \<in> set (fs k) \<Longrightarrow> b \<le> x \<Longrightarrow> x < b + 8 \<Longrightarrow> m' x = m x"
  shows "slots_ok fs self m'"
  using assms unfolding slots_ok_def by (auto intro: link_chain_frame)

lemma cache_pop:
  assumes rep: "cache_rep M fs L (self, s)" and k: "get_slot n = Some k" and h: "slot_head (slot_at self k) = p" "p \<noteq> 0"
  shows "\<exists>bs. fs k = p # bs \<and> cache_rep M (fs(k := bs)) (add_mset (p, n) L)
    (put_slot k \<lparr>slot_head = link_of (mem s) p, slot_count = wsub (slot_count (slot_at self k)) 1\<rparr> self, s)"
proof -
  have kk: "k \<in> slot_keys" by (rule get_slot_SomeD(1) [OF k])
  have so: "slots_ok fs self (mem s)" using rep by (simp add: cache_rep_def)
  then have ch: "chain (link_of (mem s)) p (fs k)" and cnt: "slot_count (slot_at self k) = length (fs k)" "length (fs k) \<le> 32"
    using kk h(1) by (auto simp: slots_ok_def)
  from chain_nonnull [OF _ ch] h(2) obtain bs where bs: "fs k = p # bs" "chain (link_of (mem s)) (link_of (mem s) p) bs" by auto
  have "wsub (slot_count (slot_at self k)) 1 = length bs" using cnt bs(1) by (simp add: wsub_in_range)
  then have "slots_ok (fs(k := bs)) (put_slot k \<lparr>slot_head = link_of (mem s) p, slot_count = wsub (slot_count (slot_at self k)) 1\<rparr> self) (mem s)"
    using so kk bs cnt by (auto simp: slots_ok_def)
  moreover have bl: "cache_blocks (fs(k := bs)) (add_mset (p, n) L) = cache_blocks fs L"
    using listed_remove [OF finite_slot_keys kk, of fs p bs] bs(1) k by (simp add: cache_blocks_def held_def)
  ultimately have "cache_rep M (fs(k := bs)) (add_mset (p, n) L)
    (put_slot k \<lparr>slot_head = link_of (mem s) p, slot_count = wsub (slot_count (slot_at self k)) 1\<rparr> self, s)"
    using rep k unfolding cache_rep_def bl by auto
  then show ?thesis using bs(1) by blast
qed

lemma cache_new_block:
  assumes rep: "cache_rep M fs L (self, s)" and k: "get_slot n = Some k" and pg: "pages_granted (slot_pages k) s p s'"
  shows "cache_rep M fs (add_mset (p, n) L) (self, s')"
proof -
  have kk: "k \<in> slot_keys" by (rule get_slot_SomeD(1) [OF k])
  have hd: "held (p, n) = (p, k)" by (simp add: held_def k)
  have new: "pext (p, k) \<inter> mapped s = {}" "mapped s' = mapped s \<union> pext (p, k)" "\<And>a. a \<in> mapped s \<Longrightarrow> mem s' a = mem s a"
    using pg by (auto simp: pages_granted_def pext_def)
  have sub: "pext B \<subseteq> mapped s" if "B \<in># cache_blocks fs L" for B using rep that by (auto simp: cache_rep_def)
  have "slots_ok fs self (mem s')"
  proof (rule slots_ok_frame)
    show "slots_ok fs self (mem s)" using rep by (simp add: cache_rep_def)
    fix b j x assume "j \<in> slot_keys" "b \<in> set (fs j)" "b \<le> x" "x < b + 8"
    then have "x \<in> pext (b, j)" "(b, j) \<in># cache_blocks fs L" by (simp_all only: pext_word cache_blocks_listI)
    then show "mem s' x = mem s x" using sub new(3) by blast
  qed
  moreover have "page_good (p, k)" using pg kk by (simp add: page_good_def pages_granted_def)
  moreover have "pext (p, k) \<inter> F = {}" if "F \<in># image_mset pext (cache_blocks fs L)" for F
    using that sub new(1) by fastforce
  ultimately show ?thesis
    using rep new hd k by (auto simp: cache_rep_def exclusive_add_iff)
qed

lemma cache_push:
  assumes rep: "cache_rep M fs (add_mset (p, n) L) (self, s)" and k: "get_slot n = Some k"
    and room: "slot_count (slot_at self k) < 32"
  defines "m' \<equiv> write_usize (slot_head (slot_at self k)) p (mem s)"
  shows "cache_rep M (fs(k := p # fs k)) L
      (put_slot k \<lparr>slot_head = p, slot_count = wadd (slot_count (slot_at self k)) 1\<rparr> self, s\<lparr>mem := m'\<rparr>)"
    and "x \<notin> pext (p, k) \<Longrightarrow> m' x = mem s x"
proof -
  have kk: "k \<in> slot_keys" by (rule get_slot_SomeD(1) [OF k])
  have hd: "held (p, n) = (p, k)" by (simp add: held_def k)
  have so: "slots_ok fs self (mem s)" and ex: "exclusive (add_mset (pext (p, k)) (image_mset pext (cache_blocks fs L)))"
    and good: "\<And>B. B \<in># cache_blocks fs L \<Longrightarrow> page_good B" "page_good (p, k)"
    using rep by (simp_all add: cache_rep_def hd)
  have ch: "chain (link_of (mem s)) (slot_head (slot_at self k)) (fs k)" and cnt: "slot_count (slot_at self k) = length (fs k)"
    using so kk by (auto simp: slots_ok_def)
  have far: "p + 8 \<le> b \<or> b + 8 \<le> p" if "j \<in> slot_keys" "b \<in> set (fs j)" for b j
  proof -
    have "pext (p, k) \<inter> pext (b, j) = {}" using ex cache_blocks_listI [of j b fs L] that by (auto simp: exclusive_add_iff)
    moreover have "p \<in> pext (p, k)" "b \<in> pext (b, j)" by (simp_all add: pext_word)
    ultimately have "\<not> (p \<le> b \<and> b < p + 8)" "\<not> (b \<le> p \<and> p < b + 8)" using pext_word by blast+
    then show ?thesis by auto
  qed
  have h: "slot_head (slot_at self k) < 2 ^ 64"
  proof -
    consider "slot_head (slot_at self k) = 0" | "slot_head (slot_at self k) \<in> set (fs k)" using chain_head_in [OF ch] by auto
    then show ?thesis
    proof cases
      case 2
      then have "page_good (slot_head (slot_at self k), k)" by (intro good cache_blocks_listI [OF kk])
      then show ?thesis by (simp add: page_good_def)
    qed simp
  qed
  have "0 < p" using good(2) by (simp add: page_good_def)
  show out: "m' x = mem s x" if "x \<notin> pext (p, k)" for x
    unfolding m'_def by (intro write_le_other) (use pext_word [of p x k] that in linarith)
  have "slots_ok fs self m'"
  proof (rule slots_ok_frame [OF so])
    fix b j x assume "j \<in> slot_keys" "b \<in> set (fs j)" "b \<le> x" "x < b + 8"
    with far [of j b] show "m' x = mem s x" unfolding m'_def by (intro write_le_other) auto
  qed
  moreover have "chain (link_of m') p (p # fs k)"
    unfolding m'_def using far [OF kk] by (intro link_chain_push [OF ch h \<open>0 < p\<close>]) blast
  ultimately have "slots_ok (fs(k := p # fs k)) (put_slot k \<lparr>slot_head = p, slot_count = wadd (slot_count (slot_at self k)) 1\<rparr> self) m'"
    using kk cnt room by (auto simp: slots_ok_def wadd_in_range)
  moreover have "cache_blocks (fs(k := p # fs k)) L = cache_blocks fs (add_mset (p, n) L)"
    using listed_add [OF finite_slot_keys kk, of "p # fs k" p fs] hd by (simp add: cache_blocks_def)
  ultimately show "cache_rep M (fs(k := p # fs k)) L
      (put_slot k \<lparr>slot_head = p, slot_count = wadd (slot_count (slot_at self k)) 1\<rparr> self, s\<lparr>mem := m'\<rparr>)"
    using rep by (simp add: cache_rep_def)
qed

context kernel
begin

lemma unmap_slot:
  assumes "page_good (p, k)"
  shows "mapped (PageAllocator_dealloc K p (slot_pages k) s) = mapped s - pext (p, k)"
    and "a \<in> mapped s - pext (p, k) \<Longrightarrow> mem (PageAllocator_dealloc K p (slot_pages k) s) a = mem s a"
  using PageAllocator_dealloc_ok(1) [of "slot_pages k" p s] PageAllocator_dealloc_ok(2) [of "slot_pages k" p a s] assms
  by (auto simp: page_good_def pext_def slot_pages_def)

lemma free_direct_slot:
  "get_slot n = Some k \<Longrightarrow> free_direct K p n s = PageAllocator_dealloc K p (slot_pages k) s"
  using get_slot_SomeD(3) [of n k] by (simp add: free_direct_def PAGE_SIZE_def slot_pages_def)

lemma cache_unmap:
  assumes rep: "cache_rep M fs (add_mset (p, n) L) (self, s)" and k: "get_slot n = Some k"
  shows "cache_rep M fs L (self, PageAllocator_dealloc K p (slot_pages k) s)" (is "cache_rep M fs L (self, ?s)")
proof -
  have hd: "held (p, n) = (p, k)" by (simp add: held_def k)
  have ex: "exclusive (add_mset (pext (p, k)) (image_mset pext (cache_blocks fs L)))"
    and good: "page_good (p, k)" and so: "slots_ok fs self (mem s)"
    and mp: "mapped s = M \<union> pext (p, k) \<union> \<Union> (pext ` set_mset (cache_blocks fs L))" "M \<inter> pext (p, k) = {}"
    using rep by (auto simp: cache_rep_def hd)
  note u = unmap_slot [OF good]
  have disj: "pext (p, k) \<inter> pext B = {}" if "B \<in># cache_blocks fs L" for B using ex that by (auto simp: exclusive_add_iff)
  have "slots_ok fs self (mem ?s)"
  proof (rule slots_ok_frame [OF so], rule u(2))
    fix b j x assume "j \<in> slot_keys" "b \<in> set (fs j)" "b \<le> x" "x < b + 8"
    then have "x \<in> pext (b, j)" "(b, j) \<in># cache_blocks fs L" by (simp_all only: pext_word cache_blocks_listI)
    then show "x \<in> mapped s - pext (p, k)" using disj mp(1) by blast
  qed
  moreover have "mapped ?s = M \<union> \<Union> (pext ` set_mset (cache_blocks fs L))" unfolding u(1) mp(1) using disj mp(2) by blast
  ultimately show ?thesis using rep by (auto simp: cache_rep_def exclusive_add_iff)
qed

lemma clear_slot_loop_ok:
  assumes "chain (link_of (mem s)) h bs" and "k \<in> slot_keys"
    and "\<And>b. b \<in> set bs \<Longrightarrow> page_good (b, k) \<and> pext (b, k) \<subseteq> mapped s" and "exclusive (image_mset (\<lambda>b. pext (b, k)) (mset bs))"
  shows "\<exists>s'. clear_slot_loop K k h s = Some s' \<and> mapped s' = mapped s - (\<Union>b \<in> set bs. pext (b, k)) \<and>
    (\<forall>a \<in> mapped s'. mem s' a = mem s a)"
  using assms
proof (induction bs arbitrary: h s)
  case Nil
  then show ?case by (subst clear_slot_loop.simps) simp
next
  case (Cons b bs)
  let ?s = "PageAllocator_dealloc K b (slot_pages k) s" and ?nx = "link_of (mem s) b"
  have good: "page_good (b, k)" using Cons.prems(3) by simp
  note u = unmap_slot [OF good]
  have disj: "pext (b, k) \<inter> pext (c, k) = {}" if "c \<in> set bs" for c
    using Cons.prems(4) that by (auto simp: exclusive_add_iff)
  have keep: "pext (c, k) \<subseteq> mapped ?s" if "c \<in> set bs" for c
    using Cons.prems(3) [of c] disj [OF that] that u(1) by auto
  have c: "h = b" "0 < b" "chain (link_of (mem s)) ?nx bs" using Cons.prems(1) by auto
  have "chain (link_of (mem ?s)) ?nx bs"
  proof (rule link_chain_frame [OF c(3)])
    fix c x assume "c \<in> set bs" "c \<le> x" "x < c + 8"
    then have "x \<in> mapped ?s" using keep pext_word by blast
    then show "mem ?s x = mem s x" using u by simp
  qed
  moreover have "page_good (c, k) \<and> pext (c, k) \<subseteq> mapped ?s" if "c \<in> set bs" for c
    using Cons.prems(3) [of c] keep that by simp
  moreover have "exclusive (image_mset (\<lambda>b. pext (b, k)) (mset bs))" using Cons.prems(4) by (simp add: exclusive_add_iff)
  ultimately obtain s' where s': "clear_slot_loop K k ?nx ?s = Some s'"
    "mapped s' = mapped ?s - (\<Union>b \<in> set bs. pext (b, k))" "\<forall>a \<in> mapped s'. mem s' a = mem ?s a"
    using Cons.IH [OF _ Cons.prems(2)] by blast
  have "clear_slot_loop K k h s = clear_slot_loop K k ?nx ?s"
    using c slot_pages_size [OF Cons.prems(2)]
    by (subst clear_slot_loop.simps) (simp add: Let_def PAGE_SIZE_def slot_pages_def)
  then show ?case using s' u by auto
qed

lemma clear_slot_ok:
  assumes rep: "cache_rep M fs L st" and k: "k \<in> slot_keys"
  shows "\<exists>st'. clear_slot K k st = Some st' \<and> cache_rep M (fs(k := [])) L st'"
proof -
  obtain self s where st: "st = (self, s)" by (cases st)
  let ?C = "cache_blocks (fs(k := [])) L" and ?F = "image_mset (\<lambda>b. (b, k)) (mset (fs k))"
  have bl: "cache_blocks fs L = ?F + ?C"
    using listed_clear [OF finite_slot_keys k, of fs] by (simp add: cache_blocks_def)
  have so: "slots_ok fs self (mem s)" and good: "\<And>B. B \<in># cache_blocks fs L \<Longrightarrow> page_good B"
    and mp: "mapped s = M \<union> \<Union> (pext ` set_mset (?F + ?C))" "M \<inter> \<Union> (pext ` set_mset (?F + ?C)) = {}"
    and ex: "exclusive (image_mset pext ?F + image_mset pext ?C)"
    using rep unfolding cache_rep_def st bl by auto
  have "exclusive (image_mset (\<lambda>b. pext (b, k)) (mset (fs k)))"
    using exclusive_unionD [OF ex] by (simp add: image_mset.compositionality comp_def)
  moreover have "page_good (b, k) \<and> pext (b, k) \<subseteq> mapped s" if "b \<in> set (fs k)" for b
    using good [OF cache_blocks_listI [of k b fs L]] k that mp(1) by auto
  moreover have "chain (link_of (mem s)) (slot_head (slot_at self k)) (fs k)" using so k by (simp add: slots_ok_def)
  ultimately obtain s' where s': "clear_slot_loop K k (slot_head (slot_at self k)) s = Some s'"
    "mapped s' = mapped s - (\<Union>b \<in> set (fs k). pext (b, k))" "\<forall>a \<in> mapped s'. mem s' a = mem s a"
    using clear_slot_loop_ok k by blast
  have disj: "pext (b, k) \<inter> pext B = {}" if "b \<in> set (fs k)" "B \<in># ?C" for b B
    by (rule exclusive_disjoint [OF ex]) (use that in auto)
  have mp': "mapped s' = M \<union> \<Union> (pext ` set_mset ?C)" 
  proof -
    let ?P = "\<Union>b \<in> set (fs k). pext (b, k)" and ?Q = "\<Union> (pext ` set_mset ?C)"
    have "mapped s = M \<union> (?P \<union> ?Q)" "M \<inter> (?P \<union> ?Q) = {}" using mp by auto
    moreover have "?P \<inter> ?Q = {}" using disj by blast
    ultimately show ?thesis unfolding s'(2) by blast
  qed
  let ?self = "put_slot k \<lparr>slot_head = 0, slot_count = 0\<rparr> self"
  have "slots_ok (fs(k := [])) ?self (mem s)" using so k by (auto simp: slots_ok_def)
  then have "slots_ok (fs(k := [])) ?self (mem s')"
  proof (rule slots_ok_frame)
    fix b j x assume "j \<in> slot_keys" "b \<in> set ((fs(k := [])) j)" "b \<le> x" "x < b + 8"
    then have "x \<in> pext (b, j)" "(b, j) \<in># ?C" by (simp_all only: pext_word cache_blocks_listI)
    then show "mem s' x = mem s x" using s'(3) mp' by blast
  qed
  then have "cache_rep M (fs(k := [])) L (?self, s')"
    using rep mp' mp(2) good exclusive_unionD [OF ex] unfolding cache_rep_def st bl by auto
  then show ?thesis using s'(1) by (auto simp: clear_slot_def st)
qed

lemma clear_slots_ok:
  "cache_rep M fs L st \<Longrightarrow> set ks \<subseteq> slot_keys \<Longrightarrow>
    \<exists>st'. clear_slots K ks st = Some st' \<and> cache_rep M (\<lambda>k. if k \<in> set ks then [] else fs k) L st'"
proof (induction ks arbitrary: fs st)
  case (Cons k ks)
  from clear_slot_ok [OF Cons.prems(1), of k] Cons.prems(2) obtain st1 where
    1: "clear_slot K k st = Some st1" "cache_rep M (fs(k := [])) L st1" by auto
  from Cons.IH [OF 1(2)] Cons.prems(2) obtain st' where
    2: "clear_slots K ks st1 = Some st'" "cache_rep M (\<lambda>j. if j \<in> set ks then [] else (fs(k := [])) j) L st'" by auto
  have "(\<lambda>j. if j \<in> set ks then [] else (fs(k := [])) j) = (\<lambda>j. if j \<in> set (k # ks) then [] else fs j)" by auto
  with 1(1) 2 show ?case by simp
qed simp

lemma Cache_drop_ok:
  assumes "cache_rep M fs L st"
  shows "\<exists>st'. Cache_drop K st = Some st' \<and> mapped (snd st') = M \<union> \<Union> (pext ` held ` set_mset L)"
proof -
  let ?ks = "map (Pair True) [0..<TINY_CLASSES] @ map (Pair False) [0..<SMALL_CLASSES]"
  have ks: "set ?ks = slot_keys" by (auto simp: slot_keys_def TINY_CLASSES_def SMALL_CLASSES_def)
  from clear_slots_ok [OF assms, of ?ks] obtain st' where
    st': "clear_slots K ?ks st = Some st'" "cache_rep M (\<lambda>k. if k \<in> slot_keys then [] else fs k) L st'"
    unfolding ks by blast
  have "cache_blocks (\<lambda>k. if k \<in> slot_keys then [] else fs k) L = image_mset held L"
    by (simp add: cache_blocks_def listed_def)
  with st' show ?thesis by (auto simp: Cache_drop_def Cache_clear_def cache_rep_def)
qed

end

subsection \<open>The cache as an allocator\<close>

definition cache_inv :: "addr set \<Rightarrow> live \<Rightarrow> tcache \<Rightarrow> bool" where
  "cache_inv M L st \<longleftrightarrow> (\<exists>fs. cache_rep M fs L st)"

definition cache_poke :: "addr \<Rightarrow> byte \<Rightarrow> tcache \<Rightarrow> tcache" where
  "cache_poke a v st = (fst st, (snd st)\<lparr>mem := (mem (snd st))(a := v)\<rparr>)"

lemma cache_inv_new: "cache_inv (mapped s) {#} (ThreadLocalCache_new, s)"
  unfolding cache_inv_def
  by (rule exI [of _ "\<lambda>_. []"])
    (auto simp: cache_rep_def slots_ok_def cache_blocks_def ThreadLocalCache_new_def TINY_CLASSES_def SMALL_CLASSES_def
      slot_at_def slot_keys_def CacheSlot_new_def)

lemma cache_inv_poke:
  assumes inv: "cache_inv M L st" and mem: "(p, n) \<in># L" "p \<le> a" "a < p + n"
  shows "cache_inv M L (cache_poke a v st)"
proof -
  from inv obtain fs where rep: "cache_rep M fs L st" by (auto simp: cache_inv_def)
  have a: "a \<in> pext (held (p, n))" using cache_live(1) [OF rep mem(1)] mem by auto
  have ex: "exclusive (image_mset pext (listed slot_keys fs) + image_mset pext (image_mset held L))"
    using rep by (simp add: cache_rep_def cache_blocks_def)
  have "slots_ok fs (fst st) ((mem (snd st))(a := v))"
  proof (rule slots_ok_frame)
    show "slots_ok fs (fst st) (mem (snd st))" using rep by (simp add: cache_rep_def)
    fix b k x assume b: "k \<in> slot_keys" "b \<in> set (fs k)" "b \<le> x" "x < b + 8"
    have "pext (b, k) \<inter> pext (held (p, n)) = {}"
      by (rule exclusive_disjoint [OF ex]) (use b mem(1) in \<open>auto simp: listed_mem\<close>)
    then have "x \<noteq> a" using a pext_word [OF b(3,4), of k] by blast
    then show "((mem (snd st))(a := v)) x = mem (snd st) x" by simp
  qed
  then have "cache_rep M fs L (cache_poke a v st)" using rep by (simp add: cache_rep_def cache_poke_def)
  then show ?thesis by (auto simp: cache_inv_def)
qed

lemma cache_live_disjoint:
  assumes "cache_inv M (add_mset (p, n) L) st" and "(q, k) \<in># L"
  shows "pext (held (p, n)) \<inter> pext (held (q, k)) = {}"
proof -
  from assms(1) obtain fs where "exclusive (add_mset (pext (held (p, n))) (image_mset pext (cache_blocks fs L)))"
    by (auto simp: cache_inv_def cache_rep_def)
  then show ?thesis using assms(2) by (auto simp: exclusive_add_iff cache_blocks_def)
qed

lemma cache_live_exclusive: "cache_inv M L st \<Longrightarrow> exclusive (extents L)"
proof -
  assume "cache_inv M L st"
  then obtain fs where rep: "cache_rep M fs L st" by (auto simp: cache_inv_def)
  have ex: "exclusive (image_mset pext (image_mset held L))"
    using rep exclusive_unionD [of "image_mset pext (listed slot_keys fs)"] by (simp add: cache_rep_def cache_blocks_def)
  then have "exclusive (image_mset (pext \<circ> held) L)" by (simp add: image_mset.compositionality)
  then show ?thesis unfolding extents_def
    by (rule exclusive_image_mono) (use cache_live(1) [OF rep] in auto)
qed

context kernel
begin

lemma Cache_alloc_cases:
  assumes inv: "cache_inv M L st" and al: "Cache_alloc K n st = (r, st')"
  shows "(case r of None \<Rightarrow> cache_inv M L st' | Some p \<Rightarrow> cache_inv M (add_mset (p, n) L) st') \<and>
    (\<forall>a \<in> mapped (snd st). mem (snd st') a = mem (snd st) a)"
proof -
  obtain self s where st: "st = (self, s)" by (cases st)
  from inv obtain fs where rep: "cache_rep M fs L (self, s)" by (auto simp: cache_inv_def st)
  show ?thesis
  proof (cases "get_slot n")
    case None
    with al inv show ?thesis by (auto simp: Cache_alloc_def)
  next
    case (Some k)
    let ?p = "slot_head (slot_at self k)"
    show ?thesis
    proof (cases "?p = 0")
      case False
      then have "r = Some ?p" and
        "st' = (put_slot k \<lparr>slot_head = link_of (mem s) ?p, slot_count = wsub (slot_count (slot_at self k)) 1\<rparr> self, s)"
        using al Some by (auto simp: Cache_alloc_def st Let_def)
      then show ?thesis using cache_pop [OF rep Some refl False] by (auto simp: cache_inv_def st)
    next
      case True
      obtain o' s' where pa: "PageAllocator_alloc K (slot_pages k) s = (o', s')" by (cases "PageAllocator_alloc K (slot_pages k) s")
      have "max (div_ceil (size_for_index k) PAGE_SIZE) 1 = slot_pages k"
        using slot_pages_size [OF get_slot_SomeD(1) [OF Some]] by (simp add: PAGE_SIZE_def slot_pages_def)
      then have e: "r = o'" "st' = (self, s')" using al Some True pa by (auto simp: Cache_alloc_def st Let_def)
      show ?thesis
      proof (cases o')
        case None
        then have "s' = s" using pa PageAllocator_alloc_None by simp
        then show ?thesis using e None inv st by simp
      next
        case (Some p)
        have g: "pages_granted (slot_pages k) s p s'"
          using pa Some by (intro PageAllocator_alloc_Some) (auto simp: slot_pages_def)
        then show ?thesis using e Some cache_new_block [OF rep \<open>get_slot n = Some k\<close> g]
          by (auto simp: cache_inv_def st pages_granted_def)
      qed
    qed
  qed
qed

lemma Cache_dealloc_cases:
  assumes inv: "cache_inv M (add_mset (p, n) L) st"
  shows "cache_inv M L (Cache_dealloc K p n st) \<and>
    (\<forall>a \<in> mapped (snd st) - pext (held (p, n)). mem (snd (Cache_dealloc K p n st)) a = mem (snd st) a)"
proof -
  obtain self s where st: "st = (self, s)" by (cases st)
  from inv obtain fs where rep: "cache_rep M fs (add_mset (p, n) L) (self, s)" by (auto simp: cache_inv_def st)
  from cache_live(5) [OF rep, of p n] obtain k where k: "get_slot n = Some k" by auto
  have hd: "held (p, n) = (p, k)" by (simp add: held_def k)
  have good: "page_good (p, k)" using rep hd by (auto simp: cache_rep_def)
  show ?thesis
  proof (cases "slot_count (slot_at self k) \<ge> 32")
    case True
    then have "Cache_dealloc K p n st = (self, PageAllocator_dealloc K p (slot_pages k) s)"
      using k free_direct_slot [OF k] by (simp add: Cache_dealloc_def CACHE_SIZE_def st)
    then show ?thesis using cache_unmap [OF rep k] unmap_slot(2) [OF good] by (auto simp: cache_inv_def st hd)
  next
    case False
    then have "Cache_dealloc K p n st = (put_slot k \<lparr>slot_head = p, slot_count = wadd (slot_count (slot_at self k)) 1\<rparr> self,
        s\<lparr>mem := write_usize (slot_head (slot_at self k)) p (mem s)\<rparr>)"
      using k by (simp add: Cache_dealloc_def CACHE_SIZE_def st Let_def)
    then show ?thesis using cache_push [OF rep k] False by (auto simp: cache_inv_def st hd)
  qed
qed

end

sublocale kernel \<subseteq> tcache: heap_allocator "cache_inv M" "\<lambda>_. True" "\<lambda>n. n" "Cache_alloc K"
  "\<lambda>_. True" "\<lambda>_::unit. \<lambda>(p, n). Cache_dealloc K p n" cache_poke "\<lambda>st. mem (snd st)" "\<lambda>st. mapped (snd st)" for M
proof (unfold_locales, goal_cases)
  case (1 L s r p s')
  then show ?case using Cache_alloc_cases [of M L s r "Some p" s'] by simp
next
  case (2 L s r s')
  then show ?case using Cache_alloc_cases [of M L s r None s'] by simp
next
  case (3 L s r res s' p n a)
  then obtain fs where rep: "cache_rep M fs L s" by (auto simp: cache_inv_def)
  have "a \<in> mapped (snd s)" using cache_live(1,2) [OF rep, of p n] 3 by auto
  then show ?case using Cache_alloc_cases [of M L s r res s'] 3 by simp
next
  case (4 p n L s t)
  then show ?case using Cache_dealloc_cases [of M p n L s] by simp
next
  case (5 p n L s t q k a)
  then obtain fs where rep: "cache_rep M fs (add_mset (p, n) L) s" by (auto simp: cache_inv_def)
  have "a \<in> pext (held (q, k))" "pext (held (q, k)) \<subseteq> mapped (snd s)" using cache_live(1,2) [OF rep, of q k] 5 by auto
  then show ?case using Cache_dealloc_cases [OF 5(1)] cache_live_disjoint [OF 5(1,3)] by auto
next
  case (6 L s p n a v)
  then show ?case by (intro cache_inv_poke)
next
  case (7 a v s b)
  then show ?case by (simp add: cache_poke_def)
next
  case (8 L s)
  then show ?case by (rule cache_live_exclusive)
next
  case (9 L s p n)
  then obtain fs where rep: "cache_rep M fs L s" by (auto simp: cache_inv_def)
  show ?case using cache_live(1-3) [OF rep 9(2)] by blast
qed

subsection \<open>Properties\<close>

context kernel
begin

lemma tcache_run_inv:
  "heap_run (\<lambda>_. True) (\<lambda>n. n) (Cache_alloc K) (\<lambda>_. True) (\<lambda>_::unit. \<lambda>(p, n). Cache_dealloc K p n) cache_poke c es c' \<Longrightarrow>
    cache_inv M (fst c) (snd c) \<Longrightarrow> cache_inv M (fst c') (snd c')"
  by (rule tcache.run_inv)

end

abbreviation cache_run :: "syscalls \<Rightarrow> live \<times> tcache \<Rightarrow> (usize, unit) event list \<Rightarrow> live \<times> tcache \<Rightarrow> bool" where
  "cache_run K \<equiv> heap_run (\<lambda>_. True) (\<lambda>n. n) (Cache_alloc K) (\<lambda>_. True) (\<lambda>_::unit. \<lambda>(p, n). Cache_dealloc K p n) cache_poke"

text \<open>
  C29. Soundness of the thread-local cache over a whole run of allocations, releases and writes of any sizes: the
  blocks the program holds never overlap, start on a page of mapped memory and are at most 8 KiB; the counter of every slot is the length of its list
  of cached blocks, which is well-formed, without repetitions and has at most 32 blocks; and dropping the cache returns
  (its loops over the free lists end) and unmaps exactly the blocks it has cached: what stays mapped is the memory mapped before and the
  pages of the blocks still held.
\<close>

theorem cache_run_sound:
  assumes "kernel K" and "cache_run K ({#}, ThreadLocalCache_new, s) es (L, st)"
  shows "exclusive (extents L) \<and>
    (\<forall>(p, n) \<in># L. 0 < p \<and> p mod 4096 = 0 \<and> n \<le> 8192 \<and> {p..<p + n} \<subseteq> mapped (snd st)) \<and>
    (\<forall>k \<in> slot_keys. \<exists>bs. chain (link_of (mem (snd st))) (slot_head (slot_at (fst st) k)) bs \<and> distinct bs \<and>
      slot_count (slot_at (fst st) k) = length bs \<and> length bs \<le> 32) \<and>
    (\<exists>st'. Cache_drop K st = Some st' \<and> mapped (snd st') = mapped s \<union> \<Union> (pext ` held ` set_mset L))"
proof -
  have i: "cache_inv (mapped s) L st" using kernel.tcache_run_inv [OF assms] cache_inv_new by simp
  then obtain fs where rep: "cache_rep (mapped s) fs L st" by (auto simp: cache_inv_def)
  have "n \<le> 8192" if pn: "(p, n) \<in># L" for p n
  proof -
    obtain k where k: "get_slot n = Some k" "k \<in> slot_keys" using cache_live(5) [OF rep pn] by auto
    have "n \<le> slot_pages k * 4096" using get_slot_SomeD(2) [OF k(1)] size_for_index_le [OF k(2)] by simp
    also have "\<dots> \<le> 8192" by (simp add: slot_pages_def)
    finally show ?thesis .
  qed
  then have "\<forall>(p, n) \<in># L. 0 < p \<and> p mod 4096 = 0 \<and> n \<le> 8192 \<and> {p..<p + n} \<subseteq> mapped (snd st)"
    using cache_live(1-4) [OF rep] by (auto simp only: subset_iff)
  moreover have "\<forall>k \<in> slot_keys. \<exists>bs. chain (link_of (mem (snd st))) (slot_head (slot_at (fst st) k)) bs \<and> distinct bs \<and>
      slot_count (slot_at (fst st) k) = length bs \<and> length bs \<le> 32"
  proof
    fix k assume k: "k \<in> slot_keys"
    have "slots_ok fs (fst st) (mem (snd st))" using rep by (simp add: cache_rep_def)
    then have "chain (link_of (mem (snd st))) (slot_head (slot_at (fst st) k)) (fs k)"
      "slot_count (slot_at (fst st) k) = length (fs k)" "length (fs k) \<le> 32" using k by (simp_all add: slots_ok_def)
    then show "\<exists>bs. chain (link_of (mem (snd st))) (slot_head (slot_at (fst st) k)) bs \<and> distinct bs \<and>
      slot_count (slot_at (fst st) k) = length bs \<and> length bs \<le> 32" using chain_distinct by (intro exI conjI)
  qed
  ultimately show ?thesis
    using cache_live_exclusive [OF i] kernel.Cache_drop_ok [OF assms(1) rep] by (intro conjI)
qed

lemmas cache_eval = Cache_alloc_def Cache_dealloc_def get_slot_def SizeClass_classify_def round_up_pow2_def leading_zeros_def
  bit_len.simps is_power_of_two_def count_ones.simps trailing_zeros_def ctz.simps TINY_CLASSES_def SMALL_CLASSES_def CACHE_SIZE_def
  ThreadLocalCache_new_def CacheSlot_new_def slot_at_def put_slot_def size_for_index_def wshl_def div_ceil_def PAGE_SIZE_def
  wadd_def wsub_def Let_def

theorem cache_run_sound_witness:
  "\<exists>L st st'. L = {#(8192, 100)#} \<and> exclusive (extents L) \<and> Cache_drop (first_fit 4) st = Some st' \<and>
    mapped (snd st') = mapped (pages_to 0 (\<lambda>_. 0)) \<union> \<Union> (pext ` held ` set_mset L)"
proof -
  let ?K = "first_fit 4" and ?s = "pages_to 0 (\<lambda>_. 0)"
  have P: "PageAllocator_alloc ?K (Suc 0) ?s = (Some 4096, pages_to (Suc 0) (\<lambda>_. 0))"
    "PageAllocator_alloc ?K (Suc 0) (pages_to (Suc 0) (\<lambda>_. 0)) = (Some 8192, pages_to (Suc (Suc 0)) (\<lambda>_. 0))"
    using PageAllocator_pages_to [of 0 4 1 "\<lambda>_. 0"] PageAllocator_pages_to [of 1 4 1 "\<lambda>_. 0"] by simp_all
  have "\<exists>st. heap_exec (\<lambda>_. True) (\<lambda>n. n) (Cache_alloc ?K) (\<lambda>_. True) (\<lambda>_::unit. \<lambda>(p, n). Cache_dealloc ?K p n) cache_poke
    [Alloc 100, Alloc 100, Free () 4096 100] ({#}, ThreadLocalCache_new, ?s) = Some ({#(8192, 100)#}, st)"
    using P by (simp add: cache_eval)
  then obtain st where "cache_run ?K ({#}, ThreadLocalCache_new, ?s) [Alloc 100, Alloc 100, Free () 4096 100] ({#(8192, 100)#}, st)"
    using heap_execI by blast
  from cache_run_sound [OF ff.kernel_axioms this] have "exclusive (extents {#(8192, 100 :: nat)#})"
    and "\<exists>st'. Cache_drop ?K st = Some st' \<and> mapped (snd st') = mapped ?s \<union> \<Union> (pext ` held ` set_mset {#(8192, 100)#})"
    by (iprover dest: conjunct1 conjunct2)+
  then show ?thesis by iprover
qed

lemma put_slot_same: "put_slot k (slot_at self k) (put_slot k slot self) = self"
  by (cases self) (auto simp: put_slot_def slot_at_def)

text \<open>
  The cache works as a stack per slot: unless the slot is full, releasing a block and asking for any size of the same slot
  returns that block, and the cache is then exactly what it was before the release.
\<close>

theorem cache_reuse:
  assumes "cache_inv M (add_mset (p, n) L) st" and "get_slot n = Some k" and "get_slot n' = Some k"
    and "slot_count (slot_at (fst st) k) < CACHE_SIZE"
  shows "\<exists>s'. Cache_alloc K n' (Cache_dealloc K p n st) = (Some p, fst st, s') \<and> mapped s' = mapped (snd st)"
proof -
  obtain self s where st: "st = (self, s)" by (cases st)
  from assms(1) obtain fs where rep: "cache_rep M fs (add_mset (p, n) L) (self, s)" by (auto simp: cache_inv_def st)
  have k: "k \<in> slot_keys" by (rule get_slot_SomeD(1) [OF assms(2)])
  let ?h = "slot_head (slot_at self k)" and ?c = "slot_count (slot_at self k)"
  let ?self = "put_slot k \<lparr>slot_head = p, slot_count = wadd ?c 1\<rparr> self" and ?s = "s\<lparr>mem := write_usize ?h p (mem s)\<rparr>"
  have so: "slots_ok fs self (mem s)" using rep by (simp add: cache_rep_def)
  have d: "Cache_dealloc K p n st = (?self, ?s)" using assms(2,4) by (simp add: Cache_dealloc_def st Let_def)
  have c32: "?c < 32" using assms(4) by (simp add: CACHE_SIZE_def st)
  have "cache_rep M (fs(k := p # fs k)) L (?self, ?s)" by (rule cache_push(1) [OF rep assms(2) c32])
  then have "chain (link_of (mem ?s)) p (p # fs k)" using k so by (auto simp: cache_rep_def slots_ok_def)
  moreover have "chain (link_of (mem s)) ?h (fs k)" using so k by (simp add: slots_ok_def)
  ultimately have p: "0 < p" and nx: "link_of (mem ?s) p = ?h" by (cases "fs k"; auto)+
  have w: "wsub (wadd ?c 1) 1 = ?c" using c32 by (simp add: wadd_def wsub_in_range)
  have sl: "slot_at ?self k = \<lparr>slot_head = p, slot_count = wadd ?c 1\<rparr>" using so k by (simp add: slots_ok_def)
  have "Cache_alloc K n' (?self, ?s) = (Some p, put_slot k \<lparr>slot_head = ?h, slot_count = ?c\<rparr> ?self, ?s)"
    using assms(3) p nx w unfolding Cache_alloc_def fst_conv by (simp only: sl Let_def option.case CacheSlot.simps snd_conv) simp
  moreover have "put_slot k \<lparr>slot_head = ?h, slot_count = ?c\<rparr> ?self = self"
    using put_slot_same [of k self] by (cases "slot_at self k") simp
  ultimately show ?thesis unfolding d by (intro exI [of _ ?s]) (simp add: st)
qed

theorem cache_reuse_witness:
  "\<exists>st s'. Cache_alloc (first_fit 4) 100 (ThreadLocalCache_new, pages_to 0 (\<lambda>_. 0)) = (Some 4096, st) \<and>
    Cache_alloc (first_fit 4) 128 (Cache_dealloc (first_fit 4) 4096 100 st) = (Some 4096, fst st, s')"
proof -
  let ?K = "first_fit 4" and ?s = "pages_to 0 (\<lambda>_. 0)"
  have P: "PageAllocator_alloc ?K (Suc 0) ?s = (Some 4096, pages_to (Suc 0) (\<lambda>_. 0))"
    using PageAllocator_pages_to [of 0 4 1 "\<lambda>_. 0"] by simp
  have g: "get_slot 100 = Some (True, 3)" "get_slot 128 = Some (True, 3)" by (simp_all add: cache_eval)
  have al: "Cache_alloc ?K 100 (ThreadLocalCache_new, ?s) = (Some 4096, ThreadLocalCache_new, pages_to (Suc 0) (\<lambda>_. 0))"
    using P by (simp add: cache_eval)
  from ff.Cache_alloc_cases [OF cache_inv_new al]
  have "cache_inv (mapped ?s) {#(4096, 100)#} (ThreadLocalCache_new, pages_to (Suc 0) (\<lambda>_. 0))" by simp
  from cache_reuse [OF this g, of ?K] al show ?thesis by (auto simp: cache_eval)
qed

lemma trailing_zeros_div: "n \<le> i \<Longrightarrow> trailing_zeros (2 ^ i div 2 ^ n) = i - n"
  by (simp flip: power_diff)

lemma round_up_tiny:
  assumes "sz \<le> 128"
  obtains j where "round_up_pow2 sz = 2 ^ j" and "j \<le> 7"
proof (cases "sz = 0")
  case True
  then show ?thesis using that [of 0] by (simp add: round_up_pow2_def)
next
  case False
  from round_up_pow2_exp [of sz] False assms obtain j where
    j: "round_up_pow2 sz = 2 ^ j" "\<And>i. sz \<le> 2 ^ i \<Longrightarrow> j \<le> i" by auto
  have "sz \<le> 2 ^ 7" using assms by simp
  from j(2) [OF this] j(1) that show ?thesis by blast
qed

lemma round_up_small:
  assumes "128 < sz" and "sz \<le> 8192"
  obtains j where "round_up_pow2 sz = 2 ^ j" and "8 \<le> j" and "j \<le> 13"
proof -
  from round_up_pow2_exp [of sz] assms obtain j where
    j: "round_up_pow2 sz = 2 ^ j" "sz \<le> 2 ^ j" "\<And>i. sz \<le> 2 ^ i \<Longrightarrow> j \<le> i" by auto
  have "8 \<le> j"
  proof (rule ccontr)
    assume "\<not> 8 \<le> j"
    then have "(2::nat) ^ j \<le> 2 ^ 7" by (intro power_increasing) auto
    then show False using j(2) assms(1) by simp
  qed
  moreover have "j \<le> 13" using j(3) [of 13] assms(2) by simp
  ultimately show ?thesis using that j(1) by blast
qed

lemma get_slot_tiny:
  assumes "sz \<le> 128"
  shows "get_slot sz \<noteq> None"
proof
  assume none: "get_slot sz = None"
  obtain j where j: "round_up_pow2 sz = 2 ^ j" "j \<le> 7" by (rule round_up_tiny [OF assms])
  define i where "i = max 4 j"
  have m: "max (2 ^ j) 16 = (2::nat) ^ i"
    using power_increasing_iff [of "2::nat" 4 j] by (auto simp: i_def max_def)
  have "(2::nat) ^ i \<le> 2 ^ 7" using j(2) by (intro power_increasing) (auto simp: i_def)
  then show False using none assms trailing_zeros_div [of 4 i] j(2) unfolding get_slot_def j(1) m
    by (auto simp: SizeClass_classify_def TINY_CLASSES_def Let_def i_def split: if_splits)
qed

lemma get_slot_small:
  assumes "128 < sz" and "sz \<le> 8192"
  shows "get_slot sz \<noteq> None"
proof
  assume none: "get_slot sz = None"
  obtain j where j: "round_up_pow2 sz = 2 ^ j" "8 \<le> j" "j \<le> 13" by (rule round_up_small [OF assms])
  have "(2::nat) ^ 8 \<le> 2 ^ j" "(2::nat) ^ j \<le> 2 ^ 13" using j(2,3) by (intro power_increasing; simp)+
  then show False using none assms trailing_zeros_div [of 8 j] j(2,3) unfolding get_slot_def j(1)
    by (auto simp: SizeClass_classify_def SMALL_CLASSES_def Let_def split: if_splits)
qed

text \<open>
  Two ways to compute the size of a block agree: for every request up to 8 KiB the slot chosen by the thread-local cache
  has blocks of exactly the size that \<open>SizeClass::alloc_size\<close> assigns to the request, and larger requests have no slot.
\<close>

theorem get_slot_alloc_size:
  assumes "sz < 2 ^ 64"
  shows "(case get_slot sz of None \<Rightarrow> 8192 < sz
    | Some k \<Rightarrow> sz \<le> 8192 \<and> size_for_index k = SizeClass_alloc_size (SizeClass_classify sz) sz)"
proof (cases "get_slot sz")
  case (Some k)
  then have "sz \<le> 8192" by (auto simp: get_slot_def SizeClass_classify_def split: if_splits)
  moreover have "size_for_index k = max 16 (round_up_pow2 sz)" by (rule get_slot_SomeD(4) [OF Some])
  moreover have "16 \<le> round_up_pow2 sz" if "128 < sz" "sz \<le> 8192" using round_up_pow2_ge [of sz] that by simp
  ultimately show ?thesis
    using Some by (auto simp: SizeClass_alloc_size_def SizeClass_classify_def round_up_pow2_def [of 0] max_def Let_def)
next
  case None
  then show ?thesis using get_slot_tiny [of sz] get_slot_small [of sz] by fastforce
qed

theorem get_slot_alloc_size_witness:
  "case get_slot 300 of None \<Rightarrow> False | Some k \<Rightarrow> size_for_index k = SizeClass_alloc_size (SizeClass_classify 300) 300"
  using get_slot_alloc_size [of 300] by (cases "get_slot 300") simp_all

end
