(* ===== verification/Treiber.thy ===== *)
theory Treiber
  imports Stack_Contract Queue_Contract
begin

text \<open>
  The lock-free stack that \<open>GlobalSlabPool\<close> (\<open>aethalloc-core/src/global_pool.rs\<close>) and the full and empty stacks of
  \<open>GlobalMagazinePool\<close> (\<open>aethalloc-core/src/magazine.rs\<close>) are built on, executed by any number of threads one
  shared access at a time: the load of the head, the store or load of a node's \<open>next\<close> field, and the
  \<open>compare_exchange_weak\<close>, which may also fail for no reason. \<open>reload\<close> distinguishes the two versions of the loop:
  \<open>global_pool.rs\<close> loads the head again after a failure, \<open>magazine.rs\<close> takes the value the failed exchange
  returned. Memory is sequentially consistent here; the code's acquire and release orderings are not weakened.

  A node that has been popped belongs to the program, which may write its \<open>next\<close> field (\<open>Scribble\<close>); with \<open>reuse\<close> it may
  push the node again.
\<close>

datatype pc =
    Idle
  | PushLoad addr
  | PushLink addr addr
  | PushCas addr addr
  | PopLoad
  | PopRead addr
  | PopCas addr addr

record treiber =
  st_head :: addr
  st_next :: "addr \<Rightarrow> addr"
  st_pc :: "nat \<Rightarrow> pc"
  st_used :: "addr set"
  st_popped :: "addr set"

datatype action = BeginPush addr | BeginPop | Advance | CasFail | Scribble addr addr

text \<open>What \<open>pop\<close> does with a value of the head: null ends the call, a node is read next.\<close>

definition saw_head :: "nat \<Rightarrow> addr \<Rightarrow> treiber \<Rightarrow> addr queue_label \<times> treiber" where
  "saw_head t h s =
     (if h = 0 then (Pop_empty, s\<lparr>st_pc := (st_pc s)(t := Idle)\<rparr>) else (Tau, s\<lparr>st_pc := (st_pc s)(t := PopRead h)\<rparr>))"

fun advance :: "nat \<Rightarrow> pc \<Rightarrow> treiber \<Rightarrow> (addr queue_label \<times> treiber) option" where
  "advance t Idle s = None"
| "advance t (PushLoad p) s = Some (Tau, s\<lparr>st_pc := (st_pc s)(t := PushLink p (st_head s))\<rparr>)"
| "advance t (PushLink p old) s =
     Some (Tau, s\<lparr>st_next := (st_next s)(p := old), st_pc := (st_pc s)(t := PushCas p old)\<rparr>)"
| "advance t (PushCas p old) s =
     (if st_head s = old then Some (Pushed p, s\<lparr>st_head := p, st_pc := (st_pc s)(t := Idle)\<rparr>) else None)"
| "advance t PopLoad s = Some (saw_head t (st_head s) s)"
| "advance t (PopRead h) s = Some (Tau, s\<lparr>st_pc := (st_pc s)(t := PopCas h (st_next s h))\<rparr>)"
| "advance t (PopCas h n) s =
     (if st_head s = h
      then Some (Popped h, s\<lparr>st_head := n, st_pc := (st_pc s)(t := Idle), st_popped := insert h (st_popped s)\<rparr>)
      else None)"

fun cas_fail :: "bool \<Rightarrow> nat \<Rightarrow> pc \<Rightarrow> treiber \<Rightarrow> (addr queue_label \<times> treiber) option" where
  "cas_fail reload t (PushCas p old) s =
     Some (Tau, s\<lparr>st_pc := (st_pc s)(t := if reload then PushLoad p else PushLink p (st_head s))\<rparr>)"
| "cas_fail reload t (PopCas h n) s =
     Some (if reload then (Tau, s\<lparr>st_pc := (st_pc s)(t := PopLoad)\<rparr>) else saw_head t (st_head s) s)"
| "cas_fail reload t _ s = None"

fun treiber_step :: "bool \<Rightarrow> bool \<Rightarrow> nat \<Rightarrow> action \<Rightarrow> treiber \<Rightarrow> (addr queue_label \<times> treiber) option" where
  "treiber_step reload reuse t (BeginPush p) s =
     (if st_pc s t = Idle \<and> 0 < p \<and> (p \<notin> st_used s \<or> reuse \<and> p \<in> st_popped s)
      then Some (Tau, s\<lparr>st_pc := (st_pc s)(t := PushLoad p), st_used := insert p (st_used s), st_popped := st_popped s - {p}\<rparr>)
      else None)"
| "treiber_step reload reuse t BeginPop s =
     (if st_pc s t = Idle then Some (Tau, s\<lparr>st_pc := (st_pc s)(t := PopLoad)\<rparr>) else None)"
| "treiber_step reload reuse t Advance s = advance t (st_pc s t) s"
| "treiber_step reload reuse t CasFail s = cas_fail reload t (st_pc s t) s"
| "treiber_step reload reuse t (Scribble x v) s =
     (if x \<in> st_popped s then Some (Tau, s\<lparr>st_next := (st_next s)(x := v)\<rparr>) else None)"

definition treiber_new :: treiber where
  "treiber_new = \<lparr>st_head = 0, st_next = (\<lambda>_. 0), st_pc = (\<lambda>_. Idle), st_used = {}, st_popped = {}\<rparr>"

inductive treiber_run :: "bool \<Rightarrow> bool \<Rightarrow> treiber \<Rightarrow> addr queue_label list \<Rightarrow> treiber \<Rightarrow> bool" for reload reuse where
  tr_nil: "treiber_run reload reuse s [] s"
| tr_snoc: "treiber_run reload reuse s ls s' \<Longrightarrow> treiber_step reload reuse t a s' = Some (l, s'') \<Longrightarrow>
    treiber_run reload reuse s (ls @ [l]) s''"

text \<open>The run of a schedule.\<close>

fun treiber_exec :: "bool \<Rightarrow> bool \<Rightarrow> (nat \<times> action) list \<Rightarrow> treiber \<Rightarrow> (addr queue_label list \<times> treiber) option" where
  "treiber_exec reload reuse [] s = Some ([], s)"
| "treiber_exec reload reuse ((t, a) # as) s =
     (case treiber_step reload reuse t a s of
        None \<Rightarrow> None
      | Some (l, s') \<Rightarrow> (case treiber_exec reload reuse as s' of None \<Rightarrow> None | Some (ls, s'') \<Rightarrow> Some (l # ls, s'')))"

lemma treiber_exec_run:
  assumes "treiber_run reload reuse s0 ls0 s" and "treiber_exec reload reuse as s = Some (ls, s')"
  shows "treiber_run reload reuse s0 (ls0 @ ls) s'"
  using assms
proof (induction as arbitrary: ls0 s ls)
  case (Cons ta as)
  obtain t a where ta: "ta = (t, a)" by (cases ta)
  from Cons.prems(2) obtain l s1 ls1 where 1: "treiber_step reload reuse t a s = Some (l, s1)"
    "treiber_exec reload reuse as s1 = Some (ls1, s')" "ls = l # ls1" by (auto simp: ta split: option.splits)
  from Cons.IH [OF tr_snoc [OF Cons.prems(1) 1(1)] 1(2)] 1(3) show ?case by simp
qed simp

lemmas treiber_execI = treiber_exec_run [OF tr_nil, simplified]

subsection \<open>The abstract stack\<close>

inductive stack_step :: "'a list \<Rightarrow> 'a queue_label \<Rightarrow> 'a list \<Rightarrow> bool" where
  s_tau: "stack_step xs Tau xs"
| s_push: "stack_step xs (Pushed x) (x # xs)"
| s_pop: "stack_step (x # xs) (Popped x) xs"
| s_empty: "stack_step [] Pop_empty []"

inductive stack_run :: "'a list \<Rightarrow> 'a queue_label list \<Rightarrow> 'a list \<Rightarrow> bool" where
  sr_nil: "stack_run xs [] xs"
| sr_snoc: "stack_run xs ls ys \<Longrightarrow> stack_step ys l zs \<Longrightarrow> stack_run xs (ls @ [l]) zs"

lemma stack_run_balance: "stack_run xs ls ys \<Longrightarrow> mset xs + mset (pushed_of ls) = mset (popped_of ls) + mset ys"
proof (induction rule: stack_run.induct)
  case (sr_snoc xs ls ys l zs)
  from sr_snoc.hyps(2) sr_snoc.IH show ?case by cases simp_all
qed simp

subsection \<open>Refinement for nodes that are pushed once\<close>

primrec pending :: "pc \<Rightarrow> addr option" where
  "pending Idle = None"
| "pending (PushLoad p) = Some p"
| "pending (PushLink p old) = Some p"
| "pending (PushCas p old) = Some p"
| "pending PopLoad = None"
| "pending (PopRead h) = None"
| "pending (PopCas h n) = None"

text \<open>What a control point knows, in a stack that holds \<open>xs\<close>.\<close>

primrec pc_ok :: "pc \<Rightarrow> addr list \<Rightarrow> treiber \<Rightarrow> bool" where
  "pc_ok Idle xs s \<longleftrightarrow> True"
| "pc_ok (PushLoad p) xs s \<longleftrightarrow> True"
| "pc_ok (PushLink p old) xs s \<longleftrightarrow> True"
| "pc_ok (PushCas p old) xs s \<longleftrightarrow> st_next s p = old"
| "pc_ok PopLoad xs s \<longleftrightarrow> True"
| "pc_ok (PopRead h) xs s \<longleftrightarrow> 0 < h \<and> h \<in> set xs \<union> st_popped s"
| "pc_ok (PopCas h n) xs s \<longleftrightarrow> 0 < h \<and> h \<in> set xs \<union> st_popped s \<and> (h \<in> set xs \<longrightarrow> st_next s h = n)"

definition treiber_inv :: "addr list \<Rightarrow> treiber \<Rightarrow> bool" where
  "treiber_inv xs s \<longleftrightarrow>
     chain (st_next s) (st_head s) xs \<and> distinct xs \<and>
     set xs \<union> st_popped s \<subseteq> st_used s \<and> set xs \<inter> st_popped s = {} \<and>
     (\<forall>t p. pending (st_pc s t) = Some p \<longrightarrow> 0 < p \<and> p \<in> st_used s \<and> p \<notin> set xs \<union> st_popped s) \<and>
     (\<forall>t u p. pending (st_pc s t) = Some p \<longrightarrow> pending (st_pc s u) = Some p \<longrightarrow> t = u) \<and>
     (\<forall>t. pc_ok (st_pc s t) xs s)"

lemma treiber_inv_new: "treiber_inv [] treiber_new"
  by (simp add: treiber_inv_def treiber_new_def)

text \<open>Only the control point of one thread changes.\<close>

lemma inv_local:
  assumes inv: "treiber_inv xs s" and "pending c = pending (st_pc s t)" and "pc_ok c xs s"
  shows "treiber_inv xs (s\<lparr>st_pc := (st_pc s)(t := c)\<rparr>)"
proof -
  have "pc_ok d xs (s\<lparr>st_pc := f\<rparr>) = pc_ok d xs s" for d f by (cases d) simp_all
  then show ?thesis using assms by (auto simp: treiber_inv_def split: if_splits)
qed

lemma inv_idle:
  assumes inv: "treiber_inv xs s" and "pending c = None" and "pc_ok c xs s"
  shows "treiber_inv xs (s\<lparr>st_pc := (st_pc s)(t := c)\<rparr>)"
proof -
  have "pc_ok d xs (s\<lparr>st_pc := f\<rparr>) = pc_ok d xs s" for d f by (cases d) simp_all
  then show ?thesis using assms by (auto simp: treiber_inv_def split: if_splits)
qed

lemma inv_saw_head:
  assumes inv: "treiber_inv xs s" and "saw_head t (st_head s) s = (l, s')"
  shows "stack_step xs l xs \<and> treiber_inv xs s'"
proof (cases "st_head s = 0")
  case True
  then have "xs = []" using inv by (simp add: treiber_inv_def)
  then show ?thesis using True assms inv_idle [OF inv, of Idle t] by (auto simp: saw_head_def intro: s_empty)
next
  case False
  then have "st_head s \<in> set xs" using inv by (cases xs) (auto simp: treiber_inv_def)
  then show ?thesis using False assms inv_idle [OF inv, of "PopRead (st_head s)" t]
    by (auto simp: saw_head_def intro: s_tau)
qed

lemma inv_begin_push:
  assumes inv: "treiber_inv xs s" and "0 < p" and "p \<notin> st_used s"
  shows "treiber_inv xs (s\<lparr>st_pc := (st_pc s)(t := PushLoad p), st_used := insert p (st_used s), st_popped := st_popped s - {p}\<rparr>)"
proof -
  have np: "st_popped s - {p} = st_popped s" using assms(3) inv by (auto simp: treiber_inv_def)
  have "pc_ok d xs (s\<lparr>st_pc := f, st_used := U\<rparr>) = pc_ok d xs s" for d f U by (cases d) simp_all
  moreover have "pending (st_pc s u) \<noteq> Some p" for u using inv assms(3) by (auto simp: treiber_inv_def)
  ultimately show ?thesis using assms unfolding np by (auto simp: treiber_inv_def split: if_splits)
qed

lemma inv_link:
  assumes inv: "treiber_inv xs s" and "st_pc s t = PushLink p old"
  shows "treiber_inv xs (s\<lparr>st_next := (st_next s)(p := old), st_pc := (st_pc s)(t := PushCas p old)\<rparr>)" (is "treiber_inv xs ?s")
proof -
  have own: "pending (st_pc s t) = Some p" using assms(2) by simp
  then have p: "p \<notin> set xs" "p \<notin> st_popped s" using inv by (auto simp: treiber_inv_def)
  have "pc_ok (st_pc ?s u) xs ?s" for u
  proof (cases "u = t")
    case False
    have ok: "pc_ok (st_pc s u) xs s" using inv by (simp add: treiber_inv_def)
    have "pending (st_pc s u) \<noteq> Some p" using inv own False by (auto simp: treiber_inv_def)
    then show ?thesis using ok False p by (cases "st_pc s u") auto
  qed simp
  moreover have "pending (st_pc ?s u) = pending (st_pc s u)" for u using assms(2) by simp
  ultimately show ?thesis using inv p unfolding treiber_inv_def by simp
qed

lemma inv_push:
  assumes inv: "treiber_inv xs s" and "st_pc s t = PushCas p (st_head s)"
  shows "treiber_inv (p # xs) (s\<lparr>st_head := p, st_pc := (st_pc s)(t := Idle)\<rparr>)" (is "treiber_inv _ ?s")
proof -
  have own: "pending (st_pc s t) = Some p" using assms(2) by simp
  then have p: "p \<notin> set xs" "p \<notin> st_popped s" "0 < p" "p \<in> st_used s" using inv by (auto simp: treiber_inv_def)
  have nx: "st_next s p = st_head s" using inv assms(2) unfolding treiber_inv_def by (metis pc_ok.simps(4))
  have "pc_ok (st_pc ?s u) (p # xs) ?s" for u
  proof (cases "u = t")
    case False
    have "pc_ok (st_pc s u) xs s" using inv by (simp add: treiber_inv_def)
    then show ?thesis using False p by (cases "st_pc s u") auto
  qed simp
  moreover have "pending (st_pc s u) \<noteq> Some p" if "u \<noteq> t" for u using inv own that by (auto simp: treiber_inv_def)
  ultimately show ?thesis using inv p nx unfolding treiber_inv_def by auto
qed

lemma inv_pop:
  assumes inv: "treiber_inv xs s" and "st_pc s t = PopCas (st_head s) n"
  shows "\<exists>ys. xs = st_head s # ys \<and>
    treiber_inv ys (s\<lparr>st_head := n, st_pc := (st_pc s)(t := Idle), st_popped := insert (st_head s) (st_popped s)\<rparr>)"
proof -
  let ?s = "s\<lparr>st_head := n, st_pc := (st_pc s)(t := Idle), st_popped := insert (st_head s) (st_popped s)\<rparr>"
  have ok: "pc_ok (PopCas (st_head s) n) xs s" using inv assms(2) unfolding treiber_inv_def by metis
  then have h: "0 < st_head s" by simp
  have "chain (st_next s) (st_head s) xs" using inv by (simp add: treiber_inv_def)
  from chain_nonnull [OF h this] obtain ys where ys: "xs = st_head s # ys" "chain (st_next s) (st_next s (st_head s)) ys" by blast
  have nx: "st_next s (st_head s) = n" using ok ys(1) by simp
  have "pc_ok (st_pc ?s u) ys ?s" for u
  proof (cases "u = t")
    case False
    have "pc_ok (st_pc s u) xs s" using inv by (simp add: treiber_inv_def)
    then show ?thesis using False ys(1) by (cases "st_pc s u") auto
  qed simp
  then have "treiber_inv ys ?s" using inv ys nx unfolding treiber_inv_def by auto
  then show ?thesis using ys(1) by blast
qed

lemma inv_scribble:
  assumes inv: "treiber_inv xs s" and x: "x \<in> st_popped s"
  shows "treiber_inv xs (s\<lparr>st_next := (st_next s)(x := v)\<rparr>)" (is "treiber_inv xs ?s")
proof -
  have nx: "x \<notin> set xs" using inv x by (auto simp: treiber_inv_def)
  have "pc_ok (st_pc s u) xs ?s" for u
  proof -
    have "pc_ok (st_pc s u) xs s" using inv by (simp add: treiber_inv_def)
    moreover have "pending (st_pc s u) \<noteq> Some x" using inv x by (auto simp: treiber_inv_def)
    ultimately show ?thesis using nx by (cases "st_pc s u") auto
  qed
  then show ?thesis using inv nx unfolding treiber_inv_def by simp
qed

lemma advance_refines:
  assumes inv: "treiber_inv xs s" and st: "advance t (st_pc s t) s = Some (l, s')"
  shows "\<exists>ys. stack_step xs l ys \<and> treiber_inv ys s'"
proof (cases "st_pc s t")
  case (PushLoad p)
  then show ?thesis using st inv_local [OF inv, of "PushLink p (st_head s)" t] by (auto intro: s_tau)
next
  case (PushLink p old)
  then show ?thesis using st inv_link [OF inv PushLink] by (auto intro: s_tau)
next
  case (PushCas p old)
  then have old: "old = st_head s" using st by (auto split: if_splits)
  then show ?thesis using st PushCas inv_push [OF inv, of t p] by (auto intro: s_push)
next
  case PopLoad
  then show ?thesis using st inv_saw_head [OF inv, of t l s'] by auto
next
  case (PopRead h)
  then have "pc_ok (PopRead h) xs s" using inv unfolding treiber_inv_def by metis
  then show ?thesis using st PopRead inv_local [OF inv, of "PopCas h (st_next s h)" t] by (auto intro: s_tau)
next
  case (PopCas h n)
  then have h: "h = st_head s" using st by (auto split: if_splits)
  then obtain ys where "xs = h # ys"
    "treiber_inv ys (s\<lparr>st_head := n, st_pc := (st_pc s)(t := Idle), st_popped := insert h (st_popped s)\<rparr>)"
    using inv_pop [OF inv, of t n] PopCas by auto
  then show ?thesis using st PopCas h by (auto intro: s_pop)
qed (use st in simp)

lemma cas_fail_refines:
  assumes inv: "treiber_inv xs s" and st: "cas_fail reload t (st_pc s t) s = Some (l, s')"
  shows "\<exists>ys. stack_step xs l ys \<and> treiber_inv ys s'"
proof (cases "st_pc s t")
  case (PushCas p old)
  then show ?thesis
    using st inv_local [OF inv, of "if reload then PushLoad p else PushLink p (st_head s)" t] by (auto intro: s_tau)
next
  case (PopCas h n)
  show ?thesis
  proof (cases reload)
    case True
    then show ?thesis using st PopCas inv_local [OF inv, of PopLoad t] by (auto intro: s_tau)
  next
    case False
    then show ?thesis using st PopCas inv_saw_head [OF inv, of t l s'] by auto
  qed
qed (use st in simp_all)

lemma treiber_step_refines:
  assumes inv: "treiber_inv xs s" and st: "treiber_step reload False t a s = Some (l, s')"
  shows "\<exists>ys. stack_step xs l ys \<and> treiber_inv ys s'"
proof (cases a)
  case (BeginPush p)
  then show ?thesis using st inv_begin_push [OF inv, of p t] by (auto split: if_splits intro: s_tau)
next
  case BeginPop
  then show ?thesis using st inv_local [OF inv, of PopLoad t] by (auto split: if_splits intro: s_tau)
next
  case Advance
  then show ?thesis using st advance_refines [OF inv] by simp
next
  case CasFail
  then show ?thesis using st cas_fail_refines [OF inv] by simp
next
  case (Scribble x v)
  then show ?thesis using st inv_scribble [OF inv, of x v] by (auto split: if_splits intro: s_tau)
qed

lemma treiber_run_refines:
  "treiber_run reload False s ls s' \<Longrightarrow> treiber_inv xs s \<Longrightarrow> \<exists>ys. stack_run xs ls ys \<and> treiber_inv ys s'"
proof (induction rule: treiber_run.induct)
  case (tr_nil s)
  then show ?case by (blast intro: sr_nil)
next
  case (tr_snoc s ls s' t a l s'')
  then obtain ys where "stack_run xs ls ys" "treiber_inv ys s'" by blast
  with treiber_step_refines [OF _ tr_snoc.hyps(2)] show ?case by (blast intro: sr_snoc)
qed

text \<open>The set of popped nodes grows with the pops.\<close>

lemma treiber_step_popped:
  assumes inv: "treiber_inv xs s" and st: "treiber_step reload False t a s = Some (l, s')"
  shows "st_popped s' = st_popped s \<union> set (popped_of [l])"
proof -
  have sh: "saw_head t h s = (l, s') \<Longrightarrow> st_popped s' = st_popped s \<union> set (popped_of [l])" for h
    by (auto simp: saw_head_def split: if_splits)
  show ?thesis
  proof (cases a)
    case (BeginPush p)
    then show ?thesis using inv st by (auto simp: treiber_inv_def split: if_splits)
  next
    case Advance
    then show ?thesis using st sh by (cases "st_pc s t") (auto split: if_splits)
  next
    case CasFail
    then show ?thesis using st sh by (cases "st_pc s t"; cases reload) auto
  qed (use st in \<open>auto split: if_splits\<close>)
qed

lemma treiber_popped:
  "treiber_run reload False s ls s' \<Longrightarrow> treiber_inv xs s \<Longrightarrow>
    distinct (popped_of ls) \<and> set (popped_of ls) \<inter> st_popped s = {} \<and> st_popped s' = st_popped s \<union> set (popped_of ls)"
proof (induction rule: treiber_run.induct)
  case (tr_snoc s ls s' t a l s'')
  then obtain ys where ys: "treiber_inv ys s'" using treiber_run_refines by blast
  obtain zs where zs: "stack_step ys l zs" using treiber_step_refines [OF ys tr_snoc.hyps(2)] by blast
  have "set ys \<inter> st_popped s' = {}" using ys by (simp add: treiber_inv_def)
  with zs have "set (popped_of [l]) \<inter> st_popped s' = {} \<and> distinct (popped_of [l])" by cases auto
  then show ?case using tr_snoc.IH [OF tr_snoc.prems] treiber_step_popped [OF ys tr_snoc.hyps(2)] by auto
qed simp

subsection \<open>Properties\<close>

text \<open>
  C25. The lock-free stack refines a stack under every interleaving of any number of threads, in both versions of the loop, if
  no node is pushed a second time (as with the magazine nodes, which \<open>dealloc\<close> takes fresh from the metadata
  allocator): the completed calls are a run of the abstract stack, a pop reports empty only
  when the stack is empty, and the nodes pushed are the nodes popped and the nodes left, none lost or duplicated, whatever the
  program writes into nodes it has popped.
\<close>

theorem treiber_refines_stack:
  assumes "treiber_run reload False treiber_new ls s"
  shows "\<exists>xs. stack_run [] ls xs \<and> chain (st_next s) (st_head s) xs \<and>
    mset (pushed_of ls) = mset (popped_of ls) + mset xs \<and> distinct (popped_of ls @ xs)"
proof -
  obtain xs where xs: "stack_run [] ls xs" "treiber_inv xs s"
    using treiber_run_refines [OF assms treiber_inv_new] by blast
  have "distinct (popped_of ls @ xs)"
    using treiber_popped [OF assms treiber_inv_new] xs(2) by (auto simp: treiber_inv_def treiber_new_def)
  then show ?thesis using xs stack_run_balance [OF xs(1)] by (auto simp: treiber_inv_def)
qed

lemmas treiber_eval = treiber_new_def saw_head_def

theorem treiber_refines_stack_witness:
  "\<exists>ls s xs. treiber_run False False treiber_new ls s \<and> pushed_of ls = [1, 2] \<and> popped_of ls = [2] \<and>
    stack_run [] ls xs \<and> mset xs = {#1#}"
proof -
  have "\<exists>s. treiber_exec False False [(0, BeginPush 1), (1, BeginPush 2), (0, Advance), (1, Advance), (0, Advance), (0, Advance),
      (1, Advance), (1, CasFail), (1, Advance), (1, Advance), (0, BeginPop), (0, Advance), (0, Advance), (0, Advance)] treiber_new =
    Some ([Tau, Tau, Tau, Tau, Tau, Pushed 1, Tau, Tau, Tau, Pushed 2, Tau, Tau, Tau, Popped 2], s)" (is "\<exists>s. _ = Some (?ls, s)")
    by (simp add: treiber_eval)
  then obtain s where run: "treiber_run False False treiber_new ?ls s" using treiber_execI by blast
  from treiber_refines_stack [OF this] obtain xs where "stack_run [] ?ls xs" "mset (pushed_of ?ls) = mset (popped_of ?ls) + mset xs"
    by blast
  with run show ?thesis by (intro exI [of _ ?ls] exI [of _ s] exI [of _ xs]) (simp add: add_mset_commute)
qed

text \<open>
  C26. With blocks that are pushed again after they were popped, as slabs are, the stack is not safe. Thread 0 reads the head 1 and its successor
  2; thread 1 then pops 1 and 2 and pushes 1 back; the exchange of thread 0 succeeds because the head
  is 1 again and installs 2, which the program holds. Block 2 is handed out twice although it was pushed once.
\<close>

theorem treiber_aba:
  "\<exists>ls s. treiber_run True True treiber_new ls s \<and> pushed_of ls = [2, 1, 1] \<and> popped_of ls = [1, 2, 1, 2] \<and>
    \<not> (\<exists>xs. stack_run [] ls xs)"
proof -
  let ?push = "\<lambda>t p. [(t, BeginPush p), (t, Advance), (t, Advance), (t, Advance)]"
  let ?pop = "\<lambda>t. [(t, BeginPop), (t, Advance), (t, Advance), (t, Advance)]"
  have "\<exists>s. treiber_exec True True (?push 0 2 @ ?push 0 1 @ [(0, BeginPop), (0, Advance), (0, Advance)] @
      ?pop 1 @ ?pop 1 @ ?push 1 1 @ [(0, Advance)] @ ?pop 1) treiber_new =
    Some ([Tau, Tau, Tau, Pushed 2, Tau, Tau, Tau, Pushed 1, Tau, Tau, Tau, Tau, Tau, Tau, Popped 1, Tau, Tau, Tau, Popped 2,
      Tau, Tau, Tau, Pushed 1, Popped 1, Tau, Tau, Tau, Popped 2], s)" (is "\<exists>s. _ = Some (?ls, s)")
    by (simp add: treiber_eval)
  then obtain s where run: "treiber_run True True treiber_new ?ls s" using treiber_execI by blast
  have "\<not> (\<exists>xs. stack_run [] ?ls xs)"
  proof
    assume "\<exists>xs. stack_run [] ?ls xs"
    then obtain xs where "stack_run [] ?ls xs" by blast
    from arg_cong [where f = size, OF stack_run_balance [OF this]] show False by simp
  qed
  with run show ?thesis by (intro exI [of _ ?ls] exI [of _ s]) simp
qed

end
