(* ===== verification/NodeRace.thy ===== *)
theory NodeRace
  imports HeapPools
begin

text \<open>
  \<open>MetadataAllocator::alloc_node\<close> (\<open>aethalloc-core/src/magazine.rs\<close>) run by any number of threads, one shared access at a time: the loads of
  \<open>offset\<close> and \<open>current_page\<close>, the two \<open>compare_exchange_weak\<close>, which may fail for no reason, the store that resets the offset, and the
  system calls. The call takes the offset and the page in two accesses, and installs a page and its offset in two accesses. While
  no page is installed, all nodes that are handed out are disjoint; around the installation of a page they need not be.
\<close>

definition dealloc_metadata_page :: "syscalls \<Rightarrow> addr \<Rightarrow> os \<Rightarrow> os" where
  "dealloc_metadata_page K p s = snd (sys_munmap K s p PAGE_SIZE)"

text \<open>
  The points of a call: before the load of \<open>offset\<close>, before its exchange, before the load of \<open>current_page\<close>, before the mapping of a page, before the load and the
  exchange of \<open>current_page\<close>, before the reset of \<open>offset\<close>, before the release of a page that was not installed.
\<close>

datatype npc =
    NIdle
  | NOffset
  | NBump usize usize
  | NPage usize
  | NMap
  | NLoad addr
  | NInstall addr addr
  | NReset addr
  | NDrop addr

record node_state =
  md :: MetadataAllocator
  nspace :: os
  npc_of :: "nat \<Rightarrow> npc"
  handed :: "addr list"

definition goto :: "nat \<Rightarrow> npc \<Rightarrow> node_state \<Rightarrow> node_state" where
  "goto t c s = s\<lparr>npc_of := (npc_of s)(t := c)\<rparr>"

definition hand_out :: "nat \<Rightarrow> addr \<Rightarrow> node_state \<Rightarrow> node_state" where
  "hand_out t n s = goto t NIdle (s\<lparr>handed := n # handed s\<rparr>)"

definition align_node :: "usize \<Rightarrow> usize" where
  "align_node off = wsub (wadd off NODE_ALIGN) 1 AND wnot (NODE_ALIGN - 1)"

text \<open>One access of thread \<open>t\<close>; \<open>spurious\<close> says whether a weak exchange fails although the values agree.\<close>

definition node_step :: "syscalls \<Rightarrow> nat \<Rightarrow> bool \<Rightarrow> node_state \<Rightarrow> node_state" where
  "node_step K t spurious s = (case npc_of s t of
       NIdle \<Rightarrow> goto t NOffset s
     | NOffset \<Rightarrow>
         let off = offset (md s); aligned = align_node off
         in goto t (if wadd aligned NODE_SIZE \<le> PAGE_SIZE then NBump off aligned else NMap) s
     | NBump off aligned \<Rightarrow>
         if spurious \<or> offset (md s) \<noteq> off then goto t NOffset s
         else goto t (NPage aligned) (s\<lparr>md := (md s)\<lparr>offset := wadd aligned NODE_SIZE\<rparr>\<rparr>)
     | NPage aligned \<Rightarrow> hand_out t (current_page (md s) + aligned) s
     | NMap \<Rightarrow> (case alloc_metadata_page K (nspace s) of (new_page, s') \<Rightarrow>
         goto t (if new_page = 0 then NIdle else NLoad new_page) (s\<lparr>nspace := s'\<rparr>))
     | NLoad new_page \<Rightarrow> goto t (NInstall new_page (current_page (md s))) s
     | NInstall new_page old \<Rightarrow>
         if spurious \<or> current_page (md s) \<noteq> old then goto t (NDrop new_page) s
         else goto t (NReset new_page) (s\<lparr>md := (md s)\<lparr>current_page := new_page\<rparr>\<rparr>)
     | NReset new_page \<Rightarrow> hand_out t new_page (s\<lparr>md := (md s)\<lparr>offset := NODE_SIZE\<rparr>\<rparr>)
     | NDrop new_page \<Rightarrow> goto t NOffset (s\<lparr>nspace := dealloc_metadata_page K new_page (nspace s)\<rparr>))"

primrec node_exec :: "syscalls \<Rightarrow> (nat \<times> bool) list \<Rightarrow> node_state \<Rightarrow> node_state" where
  "node_exec K [] s = s"
| "node_exec K (a # as) s = node_exec K as (node_step K (fst a) (snd a) s)"

definition node_start :: "MetadataAllocator \<Rightarrow> os \<Rightarrow> node_state" where
  "node_start m s = \<lparr>md = m, nspace = s, npc_of = (\<lambda>_. NIdle), handed = []\<rparr>"

lemma goto_simps [simp]:
  "md (goto t c s) = md s" "nspace (goto t c s) = nspace s" "handed (goto t c s) = handed s"
  "npc_of (goto t c s) = (npc_of s)(t := c)"
  by (simp_all add: goto_def)

lemma hand_out_simps [simp]:
  "md (hand_out t n s) = md s" "nspace (hand_out t n s) = nspace s" "handed (hand_out t n s) = n # handed s"
  "npc_of (hand_out t n s) = (npc_of s)(t := NIdle)"
  by (simp_all add: hand_out_def)

subsection \<open>A call without interference\<close>

text \<open>What a call does when its thread is the only one that takes steps: the whole call of the sequential model.\<close>

lemma alloc_node_eq:
  "alloc_node K (m, s) = (if wadd (align_node (offset m)) NODE_SIZE \<le> PAGE_SIZE
     then (current_page m + align_node (offset m), m\<lparr>offset := wadd (align_node (offset m)) NODE_SIZE\<rparr>, s)
     else case alloc_metadata_page K s of
       (p, s') \<Rightarrow> if p = 0 then (0, m, s') else (p, m\<lparr>current_page := p, offset := NODE_SIZE\<rparr>, s'))"
  unfolding alloc_node_def prod.case Let_def align_node_def [symmetric] ..

lemma node_call_alone:
  assumes "npc_of s t = NIdle" and "alloc_node K (md s, nspace s) = (r, m, sp)" and "0 < current_page (md s)"
  shows "\<exists>n. node_exec K (replicate n (t, False)) s = s\<lparr>md := m, nspace := sp, handed := (if r = 0 then [] else [r]) @ handed s\<rparr>"
proof -
  have idle: "(npc_of s)(t := NIdle) = npc_of s" using assms(1) by (simp add: fun_upd_idem)
  show ?thesis
  proof (cases "wadd (align_node (offset (md s))) NODE_SIZE \<le> PAGE_SIZE")
    case True
    then show ?thesis using assms idle
      by (intro exI [of _ "Suc (Suc (Suc (Suc 0)))"]) (auto simp: node_step_def Let_def alloc_node_eq goto_def hand_out_def)
  next
    case False
    obtain q s1 where q: "alloc_metadata_page K (nspace s) = (q, s1)" by fastforce
    show ?thesis
    proof (cases "q = 0")
      case True
      then show ?thesis using assms False q idle
        by (intro exI [of _ "Suc (Suc (Suc 0))"]) (auto simp: node_step_def Let_def alloc_node_eq goto_def)
    next
      case q0: False
      then show ?thesis using assms False q idle
        by (intro exI [of _ "Suc (Suc (Suc (Suc (Suc (Suc 0)))))"])
          (auto simp: node_step_def Let_def alloc_node_eq goto_def hand_out_def)
    qed
  qed
qed

subsection \<open>While no page is installed\<close>

text \<open>
  \<open>k\<close> nodes of the page at \<open>p\<close> have been taken, from offset \<open>o0\<close> on; a thread before its load of the page owns the offset it took.
\<close>

definition node_inv :: "addr \<Rightarrow> usize \<Rightarrow> nat \<Rightarrow> node_state \<Rightarrow> bool" where
  "node_inv p o0 k s \<longleftrightarrow> meta_ok (md s) \<and> current_page (md s) = p \<and> offset (md s) = o0 + k * NODE_SIZE \<and>
     distinct (handed s) \<and> (\<forall>n \<in> set (handed s). \<exists>i < k. n = p + o0 + i * NODE_SIZE) \<and>
     (\<forall>t a. npc_of s t = NPage a \<longrightarrow> (\<exists>i < k. a = o0 + i * NODE_SIZE) \<and> p + a \<notin> set (handed s)) \<and>
     (\<forall>t u a. npc_of s t = NPage a \<and> npc_of s u = NPage a \<longrightarrow> t = u) \<and>
     (\<forall>t off a. npc_of s t = NBump off a \<longrightarrow> a = align_node off \<and> a + NODE_SIZE \<le> PAGE_SIZE)"

lemma node_step_inv:
  assumes inv: "node_inv p o0 k s" and quiet: "\<And>u q. npc_of (node_step K t b s) u \<noteq> NReset q" "\<And>u q. npc_of s u \<noteq> NReset q"
  shows "\<exists>k'. node_inv p o0 k' (node_step K t b s)"
proof -
  note ok = inv [unfolded node_inv_def]
  have keep: "\<exists>k'. node_inv p o0 k' s'"
    if "md s' = md s" "handed s' = handed s" "npc_of s' = (npc_of s)(t := c)" "\<And>a. c \<noteq> NPage a"
      "\<And>off a. c = NBump off a \<Longrightarrow> a = align_node off \<and> a + NODE_SIZE \<le> PAGE_SIZE" for s' c
    using ok that by (intro exI [of _ k]) (auto simp: node_inv_def split: if_splits)
  show ?thesis
  proof (cases "npc_of s t")
    case (NBump off a)
    show ?thesis
    proof (cases "b \<or> offset (md s) \<noteq> off")
      case True
      then show ?thesis using NBump by (intro keep [of _ NOffset]) (simp_all add: node_step_def)
    next
      case False
      have "align_node (offset (md s)) = offset (md s)" using bump_offset(1) [of "md s"] ok by (simp add: align_node_def)
      then have a: "a = o0 + k * NODE_SIZE" "wadd a NODE_SIZE = a + NODE_SIZE" "a + NODE_SIZE \<le> PAGE_SIZE"
        using ok NBump False bump_offset(2) [of "md s"] by auto
      let ?s = "node_step K t b s"
      have s': "md ?s = (md s)\<lparr>offset := a + NODE_SIZE\<rparr>" "handed ?s = handed s" "npc_of ?s = (npc_of s)(t := NPage a)"
        using NBump False a by (simp_all add: node_step_def)
      have new: "p + a \<notin> set (handed s)" "npc_of s u \<noteq> NPage a" for u
        using ok a(1) by (force simp: NODE_SIZE_def)+
      have "meta_ok (md ?s)" using ok a s' by (auto simp: meta_ok_def PAGE_SIZE_def NODE_SIZE_def)
      moreover have "\<exists>i < Suc k. n = p + o0 + i * NODE_SIZE" if "n \<in> set (handed s)" for n
        using ok that by (meson less_SucI)
      moreover have "\<exists>i < Suc k. x = o0 + i * NODE_SIZE" if "npc_of s u = NPage x" for u x
        using ok that by (meson less_SucI)
      ultimately have "node_inv p o0 (Suc k) ?s" using ok s' a new unfolding node_inv_def by auto
      then show ?thesis ..
    qed
  next
    case (NPage a)
    let ?s = "node_step K t b s"
    have s': "md ?s = md s" "handed ?s = (p + a) # handed s" "npc_of ?s = (npc_of s)(t := NIdle)"
      using NPage ok by (simp_all add: node_step_def)
    have "node_inv p o0 k ?s" using ok s' NPage unfolding node_inv_def by (auto split: if_splits)
    then show ?thesis ..
  next
    case (NInstall q old)
    then have "b \<or> current_page (md s) \<noteq> old" using quiet(1) [of t q] by (auto simp: node_step_def split: if_splits)
    then show ?thesis using NInstall by (intro keep [of _ "NDrop q"]) (simp_all add: node_step_def)
  next
    case NOffset
    have "align_node (offset (md s)) = offset (md s)" "wadd (offset (md s)) NODE_SIZE = offset (md s) + NODE_SIZE"
      using bump_offset [of "md s"] ok by (simp_all add: align_node_def)
    then show ?thesis using NOffset by (intro keep [of _ "npc_of (node_step K t b s) t"]) (auto simp: node_step_def Let_def split: if_splits)
  next
    case NMap
    obtain q s1 where "alloc_metadata_page K (nspace s) = (q, s1)" by fastforce
    then show ?thesis using NMap by (intro keep [of _ "npc_of (node_step K t b s) t"]) (auto simp: node_step_def split: if_splits)
  next
    case NIdle
    then show ?thesis by (intro keep [of _ NOffset]) (simp_all add: node_step_def)
  next
    case (NLoad q)
    then show ?thesis by (intro keep [of _ "NInstall q (current_page (md s))"]) (simp_all add: node_step_def)
  next
    case (NDrop q)
    then show ?thesis by (intro keep [of _ NOffset]) (simp_all add: node_step_def)
  qed (use quiet(2) in simp)
qed

lemma node_exec_snoc: "node_exec K (as @ [a]) s = node_step K (fst a) (snd a) (node_exec K as s)"
  by (induction as arbitrary: s) simp_all

text \<open>No thread has installed a page during the schedule.\<close>

definition page_stays :: "syscalls \<Rightarrow> (nat \<times> bool) list \<Rightarrow> node_state \<Rightarrow> bool" where
  "page_stays K as s \<longleftrightarrow> (\<forall>j \<le> length as. \<forall>u q. npc_of (node_exec K (take j as) s) u \<noteq> NReset q)"

lemma node_exec_inv:
  assumes "node_inv p o0 k s" and "page_stays K as s"
  shows "\<exists>k'. node_inv p o0 k' (node_exec K as s)"
  using assms
proof (induction as rule: rev_induct)
  case (snoc a as)
  have st: "npc_of (node_exec K (take j (as @ [a])) s) u \<noteq> NReset q" if "j \<le> Suc (length as)" for j u q
    using snoc.prems(2) that by (simp add: page_stays_def)
  have "page_stays K as s" unfolding page_stays_def
  proof (intro allI impI)
    fix j u q assume "j \<le> length as"
    then show "npc_of (node_exec K (take j as) s) u \<noteq> NReset q" using st [of j u q] by simp
  qed
  with snoc obtain k1 where k1: "node_inv p o0 k1 (node_exec K as s)" by blast
  show ?case unfolding node_exec_snoc
    by (rule node_step_inv [OF k1]) (use st [of "Suc (length as)"] st [of "length as"] in \<open>simp_all add: node_exec_snoc\<close>)
qed auto

lemma exclusive_nodes:
  assumes "distinct ns" and "\<And>n. n \<in> set ns \<Longrightarrow> \<exists>i. n = b + i * NODE_SIZE"
  shows "exclusive (node_ext ns)"
  using assms
proof (induction ns)
  case (Cons n ns)
  have "{n..<n + NODE_SIZE} \<inter> {m..<m + NODE_SIZE} = {}" if m: "m \<in> set ns" for m
  proof -
    obtain i j where ij: "n = b + i * NODE_SIZE" "m = b + j * NODE_SIZE" using Cons.prems(2) [of n] Cons.prems(2) [of m] m by auto
    then have "i \<noteq> j" using Cons.prems(1) m by auto
    then have "Suc i * NODE_SIZE \<le> j * NODE_SIZE \<or> Suc j * NODE_SIZE \<le> i * NODE_SIZE"
      by (metis Suc_leI linorder_neqE_nat mult_le_mono1)
    then show ?thesis unfolding ij by auto
  qed
  then show ?case using Cons by (auto simp: node_ext_def exclusive_add_iff)
qed (simp add: node_ext_def)

text \<open>
  C27. Nodes of one page. Any number of threads call \<open>alloc_node\<close> at the same time, in any interleaving of their accesses and with any spurious
  failures. As long as none of them installs a new page, the nodes they get are disjoint and lie behind the offset at which they started, inside the
  page.
\<close>

theorem node_page_safe:
  assumes "meta_ok m" and "page_stays K as (node_start m sp)"
  shows "exclusive (node_ext (handed (node_exec K as (node_start m sp)))) \<and>
    (\<forall>n \<in> set (handed (node_exec K as (node_start m sp))).
      {n..<n + NODE_SIZE} \<subseteq> {current_page m + offset m..<current_page m + PAGE_SIZE})"
proof -
  let ?s = "node_exec K as (node_start m sp)"
  have "node_inv (current_page m) (offset m) 0 (node_start m sp)" using assms(1) by (simp add: node_inv_def node_start_def)
  from node_exec_inv [OF this assms(2)] obtain k where k: "node_inv (current_page m) (offset m) k ?s" by blast
  note ok = k [unfolded node_inv_def]
  have "\<exists>i. n = (current_page m + offset m) + i * NODE_SIZE" if "n \<in> set (handed ?s)" for n using ok that by blast
  then have ex: "exclusive (node_ext (handed ?s))" using ok by (intro exclusive_nodes) auto
  have sub: "{n..<n + NODE_SIZE} \<subseteq> {current_page m + offset m..<current_page m + PAGE_SIZE}" if n: "n \<in> set (handed ?s)" for n
  proof -
    obtain i where i: "i < k" "n = current_page m + offset m + i * NODE_SIZE" using ok n by blast
    have "Suc i * NODE_SIZE \<le> k * NODE_SIZE" using i(1) by (intro mult_le_mono1) simp
    moreover have "offset m + k * NODE_SIZE \<le> PAGE_SIZE" using ok by (auto simp: meta_ok_def PAGE_SIZE_def)
    ultimately show ?thesis using i(2) by auto
  qed
  show ?thesis using ex sub by blast
qed

text \<open>Two threads that take one node each, access by access in turn; the second has to try again.\<close>

definition demo_meta :: MetadataAllocator where
  "demo_meta = \<lparr>current_page = 4096, offset = 528\<rparr>"

definition demo_turns :: "(nat \<times> bool) list" where
  "demo_turns = [(0, False), (1, False), (0, False), (1, False), (0, False), (1, False), (0, False), (1, False), (1, False), (1, False)]"

lemma align_node_eval: "x mod 8 = 0 \<Longrightarrow> x \<le> 4096 \<Longrightarrow> align_node x = x"
  using bump_offset(1) [of "\<lparr>current_page = 1, offset = x\<rparr>"] by (simp add: meta_ok_def align_node_def)

lemmas node_eval = node_step_def goto_def hand_out_def node_start_def align_node_eval NODE_SIZE_def PAGE_SIZE_def wadd_def Let_def

lemma demo_turns_handed: "handed (node_exec K demo_turns (node_start demo_meta sp)) = [5152, 4624]"
  by (simp add: demo_turns_def demo_meta_def node_eval)

lemma all_le_Suc: "(\<forall>j \<le> Suc n. P j) \<longleftrightarrow> P (Suc n) \<and> (\<forall>j \<le> n. P j)"
  by (auto simp: le_Suc_eq)

lemma demo_turns_stay: "page_stays K demo_turns (node_start demo_meta sp)"
  by (simp add: page_stays_def demo_turns_def demo_meta_def node_eval all_le_Suc)

theorem node_page_safe_witness: "exclusive (node_ext [5152, 4624])"
proof -
  have "meta_ok demo_meta" by (simp add: meta_ok_def demo_meta_def)
  from node_page_safe [OF this demo_turns_stay] show ?thesis unfolding demo_turns_handed by blast
qed

subsection \<open>While a page is installed\<close>

text \<open>
  C28. The installation of a page is not atomic. Two threads call \<open>alloc_node\<close> on a new allocator; thread 0 is delayed between the exchange
  that installs its page and the store of the offset. Thread 1 installs another page, takes the first and the second node of it, and after the
  late store of thread 0 gets the second node again: two nodes that are handed out are the same.
\<close>

definition demo_delay :: "(nat \<times> bool) list" where
  "demo_delay = map (\<lambda>t. (t, False)) [0, 0, 0, 0, 0, 1, 1, 1, 1, 1, 1, 1, 1, 1, 1, 0, 1, 1, 1, 1]"

lemma metadata_pages_to:
  assumes "k < n" "4096 * Suc k + 4096 \<le> 2 ^ 63"
  shows "alloc_metadata_page (first_fit n) (pages_to k m) =
    (4096 * Suc k, pages_to (Suc k) (\<lambda>a. if 4096 * Suc k \<le> a \<and> a < 4096 * Suc k + 4096 then 0 else m a))"
  using PageAllocator_pages_to [of k n 1 m] assms
  by (auto simp: PageAllocator_alloc_def alloc_metadata_page_def wmul_def PAGE_SIZE_def Let_def split: option.splits prod.splits if_splits)

definition race_state :: node_state where
  "race_state = node_exec (first_fit 9) demo_delay (node_start MetadataAllocator_new (pages_to 0 (\<lambda>_. 0)))"

theorem node_race: "handed race_state = [8720, 4096, 8720, 8192] \<and> \<not> exclusive (node_ext (handed race_state))"
proof -
  have h: "handed race_state = [8720, 4096, 8720, 8192]"
    by (simp add: race_state_def demo_delay_def node_eval metadata_pages_to MetadataAllocator_new_def)
  have "\<not> exclusive (node_ext [8720, 4096, 8720, 8192])" by (simp add: node_ext_def exclusive_add_iff NODE_SIZE_def)
  then show ?thesis using h by simp
qed

end
