(* ===== verification/GlobalPool.thy ===== *)
theory GlobalPool
  imports Links Stack_Contract
begin

text \<open>
  The global slab pools, \<open>aethalloc-core/src/global_pool.rs\<close>: one stack of slabs per size class, linked through the first
  word of each slab. Here \<open>push\<close> and \<open>pop\<close> run uninterrupted on the bytes of memory; their
  interleaved execution is the subject of \<open>Treiber\<close>.
\<close>

definition NUM_POOLS :: usize where
  "NUM_POOLS = 16"

record GlobalSlabPool =
  pool_head :: addr

definition GlobalSlabPool_new :: GlobalSlabPool where
  "GlobalSlabPool_new = \<lparr>pool_head = 0\<rparr>"

definition GlobalSlabPool_push :: "addr \<Rightarrow> GlobalSlabPool \<times> mem \<Rightarrow> GlobalSlabPool \<times> mem" where
  "GlobalSlabPool_push ptr = (\<lambda>(self, m).
     let link = ptr; old_head = pool_head self; m' = write_usize old_head link m
     in (self\<lparr>pool_head := link\<rparr>, m'))"

definition GlobalSlabPool_pop :: "GlobalSlabPool \<times> mem \<Rightarrow> addr option \<times> GlobalSlabPool \<times> mem" where
  "GlobalSlabPool_pop = (\<lambda>(self, m).
     let head = pool_head self
     in if head = 0 then (None, self, m)
        else let next = read_usize m head in (Some head, self\<lparr>pool_head := next\<rparr>, m))"

type_synonym GlobalPools = "GlobalSlabPool list"

definition GlobalPools_new :: GlobalPools where
  "GlobalPools_new = replicate NUM_POOLS GlobalSlabPool_new"

definition get_pool :: "GlobalPools \<Rightarrow> nat \<Rightarrow> GlobalSlabPool option" where
  "get_pool pools i = (if i < length pools then Some (pools ! i) else None)"

definition GlobalPools_push :: "nat \<Rightarrow> addr \<Rightarrow> GlobalPools \<times> mem \<Rightarrow> GlobalPools \<times> mem" where
  "GlobalPools_push i ptr = (\<lambda>(pools, m).
     case get_pool pools i of
       None \<Rightarrow> (pools, m)
     | Some pool \<Rightarrow> (case GlobalSlabPool_push ptr (pool, m) of (pool', m') \<Rightarrow> (pools[i := pool'], m')))"

definition GlobalPools_pop :: "nat \<Rightarrow> GlobalPools \<times> mem \<Rightarrow> addr option \<times> GlobalPools \<times> mem" where
  "GlobalPools_pop i = (\<lambda>(pools, m).
     case get_pool pools i of
       None \<Rightarrow> (None, pools, m)
     | Some pool \<Rightarrow> (case GlobalSlabPool_pop (pool, m) of (r, pool', m') \<Rightarrow> (r, pools[i := pool'], m')))"

subsection \<open>A pool is a stack\<close>

text \<open>Slabs whose first words do not overlap.\<close>

definition apart :: "addr \<Rightarrow> addr \<Rightarrow> bool" where
  "apart b c \<longleftrightarrow> b + 8 \<le> c \<or> c + 8 \<le> b"

definition slab_ok :: "addr \<Rightarrow> bool" where
  "slab_ok b \<longleftrightarrow> 0 < b \<and> b < 2 ^ 64"

definition pool_rep :: "GlobalSlabPool \<times> mem \<Rightarrow> addr list \<Rightarrow> bool" where
  "pool_rep st xs \<longleftrightarrow> chain (link_of (snd st)) (pool_head (fst st)) xs \<and> (\<forall>x \<in> set xs. slab_ok x)"

definition pool_accepts :: "addr \<Rightarrow> addr list \<Rightarrow> bool" where
  "pool_accepts x xs \<longleftrightarrow> slab_ok x \<and> (\<forall>c \<in> set xs. apart x c)"

lemma pool_head_less: "pool_rep st xs \<Longrightarrow> pool_head (fst st) < 2 ^ 64"
  using chain_head_in [of "link_of (snd st)" "pool_head (fst st)" xs] by (auto simp: pool_rep_def slab_ok_def)

interpretation pool: lifo pool_rep pool_accepts GlobalSlabPool_push GlobalSlabPool_pop
proof (unfold_locales, goal_cases)
  case (1 st xs x)
  have "chain (link_of (write_usize (pool_head (fst st)) x (snd st))) x (x # xs)"
    using 1 pool_head_less [OF 1(1)] by (intro link_chain_push) (auto simp: pool_rep_def pool_accepts_def slab_ok_def apart_def)
  then show ?case using 1 by (auto simp: pool_rep_def pool_accepts_def GlobalSlabPool_push_def Let_def split: prod.splits)
next
  case (2 st)
  then show ?case by (auto simp: pool_rep_def GlobalSlabPool_pop_def Let_def split: prod.splits)
next
  case (3 st x xs)
  then show ?case by (auto simp: pool_rep_def GlobalSlabPool_pop_def Let_def split: prod.splits)
qed

subsection \<open>The array of pools\<close>

definition pools_rep :: "GlobalPools \<times> mem \<Rightarrow> (nat \<Rightarrow> addr list) \<Rightarrow> bool" where
  "pools_rep st xss \<longleftrightarrow> length (fst st) = NUM_POOLS \<and> (\<forall>i < NUM_POOLS. pool_rep (fst st ! i, snd st) (xss i))"

definition pools_accept :: "addr \<Rightarrow> (nat \<Rightarrow> addr list) \<Rightarrow> bool" where
  "pools_accept x xss \<longleftrightarrow> (\<forall>i < NUM_POOLS. pool_accepts x (xss i))"

lemma pools_rep_new: "pools_rep (GlobalPools_new, m) (\<lambda>_. [])"
  by (simp add: pools_rep_def GlobalPools_new_def pool_rep_def GlobalSlabPool_new_def)

lemma pools_push:
  assumes "pools_rep st xss" and "i < NUM_POOLS" and "pools_accept x xss"
  shows "pools_rep (GlobalPools_push i x st) (xss(i := x # xss i))"
proof -
  obtain pools m where st: "st = (pools, m)" by (cases st)
  let ?h = "pool_head (pools ! i)" let ?m = "write_usize ?h x m"
  have i: "i < length pools" using assms(1,2) by (simp add: pools_rep_def st)
  have e: "GlobalPools_push i x st = (pools[i := (pools ! i)\<lparr>pool_head := x\<rparr>], ?m)"
    using i by (simp add: GlobalPools_push_def get_pool_def GlobalSlabPool_push_def st Let_def)
  have "pool_rep ((pools ! i)\<lparr>pool_head := x\<rparr>, ?m) (x # xss i)"
    using pool.push_rep [of "(pools ! i, m)" "xss i" x] assms
    by (simp add: pools_rep_def pools_accept_def st GlobalSlabPool_push_def Let_def)
  moreover have "pool_rep (pools ! j, ?m) (xss j)" if "j < NUM_POOLS" for j
  proof -
    have r: "pool_rep (pools ! j, m) (xss j)" and a: "pool_accepts x (xss j)"
      using assms that by (simp_all add: pools_rep_def pools_accept_def st)
    have "?m y = m y" if b: "b \<in> set (xss j)" "b \<le> y" "y < b + 8" for b y
    proof (rule write_le_other)
      have "apart x b" using a b(1) by (simp add: pool_accepts_def)
      then show "y < x \<or> x + 8 \<le> y" using b(2,3) by (auto simp: apart_def)
    qed
    then have "chain (link_of ?m) (pool_head (pools ! j)) (xss j)"
      by (rule link_chain_frame [rotated]) (use r in \<open>simp_all add: pool_rep_def\<close>)
    then show ?thesis using r by (simp add: pool_rep_def)
  qed
  ultimately show ?thesis using assms(1) i unfolding e by (simp add: pools_rep_def st nth_list_update)
qed

lemma pools_pop:
  assumes "pools_rep st xss" and "i < NUM_POOLS"
  shows "\<exists>st'. GlobalPools_pop i st = ((case xss i of [] \<Rightarrow> None | x # _ \<Rightarrow> Some x), st') \<and> pools_rep st' (xss(i := tl (xss i)))"
proof -
  obtain pools m where st: "st = (pools, m)" by (cases st)
  have i: "i < length pools" and r: "pool_rep (pools ! i, m) (xss i)" using assms by (simp_all add: pools_rep_def st)
  show ?thesis
  proof (cases "xss i")
    case Nil
    with r have "GlobalSlabPool_pop (pools ! i, m) = (None, pools ! i, m)" using pool.pop_nil by simp
    then show ?thesis using Nil i assms(1) by (simp add: GlobalPools_pop_def get_pool_def st fun_upd_idem)
  next
    case (Cons x xs)
    then have h: "pool_head (pools ! i) = x" "0 < x" using r by (auto simp: pool_rep_def)
    then have e: "GlobalPools_pop i st = (Some x, pools[i := (pools ! i)\<lparr>pool_head := read_usize m x\<rparr>], m)"
      using i by (simp add: GlobalPools_pop_def get_pool_def GlobalSlabPool_pop_def st Let_def)
    have "pool_rep ((pools ! i)\<lparr>pool_head := read_usize m x\<rparr>, m) xs"
      using r Cons h by (auto simp: pool_rep_def)
    then have "pools_rep (pools[i := (pools ! i)\<lparr>pool_head := read_usize m x\<rparr>], m) (xss(i := xs))"
      using assms(1) i by (simp add: pools_rep_def st nth_list_update)
    then show ?thesis using e Cons by simp
  qed
qed

text \<open>
  The pools keep one independent stack per size class: a slab pushed to a class below 16 is what the next pop
  of that class returns and leaves every class as it was before; the other classes never see it; and an index of 16 or more has no pool,
  so that its slab is dropped without effect and its pop returns nothing.
\<close>

theorem pools_spec:
  assumes "pools_rep st xss" and "pools_accept x xss" and "i < NUM_POOLS"
  shows "(\<exists>st'. GlobalPools_pop i (GlobalPools_push i x st) = (Some x, st') \<and> pools_rep st' xss) \<and>
    (\<forall>j < NUM_POOLS. j \<noteq> i \<longrightarrow> fst (GlobalPools_pop j (GlobalPools_push i x st)) = fst (GlobalPools_pop j st)) \<and>
    (\<forall>j \<ge> NUM_POOLS. GlobalPools_push j x st = st \<and> GlobalPools_pop j st = (None, st))"
proof -
  note p = pools_push [OF assms(1,3,2)]
  have "(xss(i := x # xss i))(i := xss i) = xss" by simp
  then have 1: "\<exists>st'. GlobalPools_pop i (GlobalPools_push i x st) = (Some x, st') \<and> pools_rep st' xss"
    using pools_pop [OF p assms(3)] by simp
  have 2: "fst (GlobalPools_pop j (GlobalPools_push i x st)) = fst (GlobalPools_pop j st)" if "j < NUM_POOLS" "j \<noteq> i" for j
    using pools_pop [OF p that(1)] pools_pop [OF assms(1) that(1)] that(2) by auto
  have 3: "GlobalPools_push j x st = st \<and> GlobalPools_pop j st = (None, st)" if "j \<ge> NUM_POOLS" for j
    using assms(1) that by (auto simp: GlobalPools_push_def GlobalPools_pop_def get_pool_def pools_rep_def split: prod.splits)
  from 1 2 3 show ?thesis by blast
qed

theorem pools_spec_witness:
  "\<exists>st'. GlobalPools_pop 3 (GlobalPools_push 3 4096 (GlobalPools_new, (\<lambda>_. 0))) = (Some 4096, st')"
  using pools_spec [OF pools_rep_new [of "\<lambda>_. 0"], of 4096 3] by (auto simp: NUM_POOLS_def pools_accept_def pool_accepts_def slab_ok_def)

end
