(* ===== verification/Tag_Contract.thy ===== *)
theory Tag_Contract
  imports Prelude
begin

text \<open>
  The interface of the tag managers (\<open>aethalloc-hess/src/tag_manager.rs\<close>, trait \<open>TagManager\<close>): the
  tags and errors, the contract of allocating and freeing tags (locale \<open>tag_manager\<close>), the contract of tagging pointers
  (locale \<open>pointer_tags\<close>), and the round-robin search that three of the four managers share (locale \<open>round_robin\<close>).
\<close>

type_synonym Tag = "16 word"
type_synonym ptr64 = "64 word"

definition MAX_TAG :: Tag where "MAX_TAG = 15"
definition MIN_TAG :: Tag where "MIN_TAG = 1"

datatype TagError = OutOfTags | InvalidTag | HardwareNotSupported | AlignmentError

text \<open>\<open>1 << tag\<close> on \<open>u16\<close>: the release profile takes the shift amount modulo 16.\<close>

definition tag_bit :: "Tag \<Rightarrow> 16 word" where
  "tag_bit t = push_bit (unat t mod 16) 1"

text \<open>The set of tags recorded in a bitmap.\<close>

definition tags_in :: "16 word \<Rightarrow> Tag set" where
  "tags_in w = {t \<in> {1..15}. bit w (unat t)}"

lemma tag_range: "t \<in> {1..15} \<longleftrightarrow> 1 \<le> unat t \<and> unat t \<le> 15" for t :: Tag
  by (simp add: word_le_nat_alt)

lemma tag_bit_small: "unat t < 16 \<Longrightarrow> bit (tag_bit t) n \<longleftrightarrow> n = unat t"
  by (auto simp: tag_bit_def bit_simps)

lemma tag_bit_test: "unat t < 16 \<Longrightarrow> w AND tag_bit t = 0 \<longleftrightarrow> \<not> bit w (unat t)"
  by (simp add: tag_bit_def bit_iff_and_push_bit_not_eq_0 [of w])

lemma tags_in_zero [simp]: "tags_in 0 = {}"
  by (simp add: tags_in_def)

lemma tag_below: "t \<in> {1..15} \<Longrightarrow> unat t < 16" for t :: Tag
  unfolding tag_range by simp

lemma tag_eqI: "unat t = unat u \<Longrightarrow> t = u" for t u :: Tag
  by (simp add: word_unat_eq_iff)

lemma tags_in_set: "t \<in> {1..15} \<Longrightarrow> tags_in (w OR tag_bit t) = insert t (tags_in w)"
  using tag_bit_small [OF tag_below, of t] by (auto simp: tags_in_def bit_or_iff intro: tag_eqI)

lemma tags_in_reset: "t \<in> {1..15} \<Longrightarrow> tags_in (w AND NOT (tag_bit t)) = tags_in w - {t}"
  using tag_bit_small [OF tag_below, of t] tag_below
  by (fastforce simp: tags_in_def bit_and_iff bit_not_iff_eq intro: tag_eqI)

lemma card_tags: "card {1..15 :: Tag} = 15"
proof -
  have "unat ` {1..15 :: Tag} = {1..15}"
  proof
    show "unat ` {1..15 :: Tag} \<subseteq> {1..15}" by (auto simp: word_le_nat_alt)
    show "{1..15} \<subseteq> unat ` {1..15 :: Tag}"
    proof
      fix n :: nat assume "n \<in> {1..15}"
      then have "unat (word_of_nat n :: Tag) = n" "n \<in> {1..15}" by (simp_all add: unat_of_nat)
      then show "n \<in> unat ` {1..15 :: Tag}" by (intro image_eqI [of _ _ "word_of_nat n"]) (simp_all add: word_le_nat_alt)
    qed
  qed
  moreover have "inj_on unat {1..15 :: Tag}" by (intro inj_onI tag_eqI)
  ultimately show ?thesis using card_image [of unat "{1..15 :: Tag}"] by simp
qed

subsection \<open>Allocating and freeing tags\<close>

datatype tag_op = Take | Give Tag

text \<open>A program that takes and gives back tags; it remembers the tags it was given and has not given back.\<close>

fun tag_exec :: "('s \<Rightarrow> (TagError + Tag) \<times> 's) \<Rightarrow> (Tag \<Rightarrow> 's \<Rightarrow> (TagError + unit) \<times> 's) \<Rightarrow> tag_op list
    \<Rightarrow> Tag list \<times> 's \<Rightarrow> Tag list \<times> 's" where
  "tag_exec tk gv [] hm = hm"
| "tag_exec tk gv (Take # ops) (H, m) =
     (case tk m of (Inr t, m') \<Rightarrow> tag_exec tk gv ops (t # H, m') | (Inl _, m') \<Rightarrow> tag_exec tk gv ops (H, m'))"
| "tag_exec tk gv (Give t # ops) (H, m) =
     (case gv t m of (Inr _, m') \<Rightarrow> tag_exec tk gv ops (remove1 t H, m') | (Inl _, m') \<Rightarrow> tag_exec tk gv ops (H, m'))"

text \<open>What a manager promises a program that holds the tags \<open>H\<close>, when \<open>w\<close> is its bitmap and \<open>r\<close> the result of the next
  allocation: the tags held are distinct and are those recorded, the next one is fresh and in range, and the manager is out of
  tags only when all fifteen are held.\<close>

definition unique_tags :: "Tag list \<Rightarrow> 16 word \<Rightarrow> TagError + Tag \<Rightarrow> bool" where
  "unique_tags H w r \<longleftrightarrow> distinct H \<and> set H = tags_in w \<and>
    (case r of Inr t \<Rightarrow> t \<in> {1..15} - set H | Inl e \<Rightarrow> e = OutOfTags \<and> length H = 15)"

locale tag_manager =
  fixes ok :: "'s \<Rightarrow> bool"
    and used :: "'s \<Rightarrow> 16 word"
    and allocate_tag :: "'s \<Rightarrow> (TagError + Tag) \<times> 's"
    and free_tag :: "Tag \<Rightarrow> 's \<Rightarrow> (TagError + unit) \<times> 's"
  assumes take_some: "ok m \<Longrightarrow> allocate_tag m = (Inr t, m') \<Longrightarrow>
      ok m' \<and> t \<in> {1..15} \<and> t \<notin> tags_in (used m) \<and> tags_in (used m') = insert t (tags_in (used m))"
    and take_none: "ok m \<Longrightarrow> allocate_tag m = (Inl e, m') \<Longrightarrow>
      ok m' \<and> e = OutOfTags \<and> tags_in (used m) = {1..15} \<and> tags_in (used m') = tags_in (used m)"
    and give_ok: "ok m \<Longrightarrow> t \<in> {1..15} \<Longrightarrow>
      \<exists>m'. free_tag t m = (Inr (), m') \<and> ok m' \<and> tags_in (used m') = tags_in (used m) - {t}"
    and give_bad: "ok m \<Longrightarrow> t \<notin> {1..15} \<Longrightarrow> free_tag t m = (Inl InvalidTag, m)"
begin

definition tag_inv :: "Tag list \<times> 's \<Rightarrow> bool" where
  "tag_inv = (\<lambda>(H, m). ok m \<and> distinct H \<and> set H = tags_in (used m))"

lemma tag_exec_inv: "tag_inv hm \<Longrightarrow> tag_inv (tag_exec allocate_tag free_tag ops hm)"
proof (induction ops arbitrary: hm)
  case (Cons op ops)
  obtain H m where hm: "hm = (H, m)" by (cases hm)
  show ?case
  proof (cases op)
    case Take
    obtain r m' where r: "allocate_tag m = (r, m')" by (cases "allocate_tag m")
    then have "tag_inv (case r of Inr t \<Rightarrow> (t # H, m') | Inl _ \<Rightarrow> (H, m'))"
      using Cons.prems take_some [of m _ m'] take_none [of m _ m'] by (auto simp: tag_inv_def hm split: sum.split)
    then show ?thesis using Cons.IH r by (cases r) (auto simp: hm Take)
  next
    case (Give t)
    obtain r m' where r: "free_tag t m = (r, m')" by (cases "free_tag t m")
    then have "tag_inv (case r of Inr _ \<Rightarrow> (remove1 t H, m') | Inl _ \<Rightarrow> (H, m'))"
      using Cons.prems give_ok [of m t] give_bad [of m t]
      by (cases "t \<in> {1..15}") (auto simp: tag_inv_def hm simp del: atLeastAtMost_iff)
    then show ?thesis using Cons.IH r by (cases r) (auto simp: hm Give)
  qed
qed simp

lemma tags_unique:
  assumes "ok m0" and "used m0 = 0"
  shows "case tag_exec allocate_tag free_tag ops ([], m0) of (H, m) \<Rightarrow> unique_tags H (used m) (fst (allocate_tag m))"
proof -
  obtain H m where e: "tag_exec allocate_tag free_tag ops ([], m0) = (H, m)" by fastforce
  have "tag_inv ([], m0)" using assms by (simp add: tag_inv_def)
  from tag_exec_inv [OF this, of ops] have inv: "ok m" "distinct H" "set H = tags_in (used m)"
    by (auto simp: e tag_inv_def)
  moreover have "length H = card (set H)" using inv(2) by (simp add: distinct_card)
  moreover obtain r m' where "allocate_tag m = (r, m')" by fastforce
  ultimately show ?thesis
    using card_tags by (cases r) (auto simp: e unique_tags_def dest: take_some take_none)
qed

text \<open>A manager with a free tag never fails.\<close>

lemma take_available:
  assumes "ok m" and "tags_in (used m) \<noteq> {1..15}"
  obtains t m' where "allocate_tag m = (Inr t, m')"
  using take_none [OF assms(1)] assms(2) by (metis old.prod.exhaust old.sum.exhaust)

end

subsection \<open>Tags in pointers\<close>

text \<open>\<open>plain p\<close> says that the pointer \<open>p\<close> leaves the bits of the tag free.\<close>

locale pointer_tags =
  fixes plain :: "ptr64 \<Rightarrow> bool"
    and tag :: "ptr64 \<Rightarrow> Tag \<Rightarrow> ptr64"
    and untag :: "ptr64 \<Rightarrow> ptr64"
    and get :: "ptr64 \<Rightarrow> Tag"
  assumes get_tag: "plain p \<Longrightarrow> t \<le> 15 \<Longrightarrow> get (tag p t) = t"
    and untag_tag: "plain p \<Longrightarrow> t \<le> 15 \<Longrightarrow> untag (tag p t) = p"
    and retag: "plain p \<Longrightarrow> t \<le> 15 \<Longrightarrow> u \<le> 15 \<Longrightarrow> tag (tag p t) u = tag p u"
    and tag_zero: "plain p \<Longrightarrow> tag p 0 = p"
    and plain_untag: "plain (untag p)"
begin

lemma tag_inj: "plain p \<Longrightarrow> plain q \<Longrightarrow> t \<le> 15 \<Longrightarrow> u \<le> 15 \<Longrightarrow> tag p t = tag q u \<longleftrightarrow> p = q \<and> t = u"
  by (metis get_tag untag_tag)

lemma untag_plain: "plain p \<Longrightarrow> untag p = p"
  using untag_tag [of p 0] tag_zero [of p] by simp

lemma untag_idem: "untag (untag p) = untag p"
  by (rule untag_plain [OF plain_untag])

lemma tag_untag: "plain p \<Longrightarrow> t \<le> 15 \<Longrightarrow> tag (untag (tag p t)) t = tag p t"
  by (simp add: untag_tag)

end

text \<open>A tag in the four bits from \<open>n\<close> on.\<close>

lemma small_tag_bits: "t \<le> 15 \<Longrightarrow> bit t i \<Longrightarrow> i < 4" for t :: Tag
proof -
  assume t: "t \<le> 15" and b: "bit t i"
  have "unat t < 2 ^ 4" using t by (simp add: word_le_nat_alt)
  then have "take_bit 4 (unat t) = unat t" by (simp add: take_bit_nat_eq_self_iff)
  then have "take_bit 4 t = t" by (metis unsigned_take_bit_eq word_unat_eq_iff)
  then show "i < 4" using b by (metis bit_take_bit_iff)
qed

lemma low_mask_15: "(0xF :: 'a :: len word) = mask 4"
  by (simp add: mask_eq_exp_minus_1)

lemma field_get:
  fixes p :: ptr64 and t :: Tag
  assumes "n + 4 \<le> 64" and "t \<le> 15" and "\<And>i. n \<le> i \<Longrightarrow> i < n + 4 \<Longrightarrow> \<not> bit p i"
  shows "ucast (drop_bit n (p OR push_bit n (ucast t)) AND 0xF) = t"
  unfolding low_mask_15
proof (rule bit_eqI)
  fix i
  show "bit (ucast (drop_bit n (p OR push_bit n (ucast t)) AND mask 4) :: Tag) i = bit t i"
    using assms(1) assms(3) [of "n + i"] small_tag_bits [OF assms(2), of i]
    by (auto simp: bit_simps)
qed

subsection \<open>The round-robin search\<close>

text \<open>The successor of a tag in the search: after 15 comes 1 again.\<close>

definition succ_tag :: "Tag \<Rightarrow> Tag" where
  "succ_tag t = (if MAX_TAG \<le> t then MIN_TAG else t + 1)"

lemma unat_succ_tag:
  assumes "t \<in> {1..15}"
  shows "unat (succ_tag t) = unat t mod 15 + 1" and "succ_tag t \<in> {1..15}"
proof -
  have "unat t \<le> 15" "1 \<le> unat t" using assms unfolding tag_range by simp_all
  then show "unat (succ_tag t) = unat t mod 15 + 1"
    by (cases "unat t = 15") (auto simp: succ_tag_def MAX_TAG_def MIN_TAG_def word_le_nat_alt unat_word_ariths)
  then show "succ_tag t \<in> {1..15}" using mod_less_divisor [of 15 "unat t"] unfolding tag_range by simp
qed

lemma unat_succ_pow:
  assumes "t \<in> {1..15}"
  shows "unat ((succ_tag ^^ i) t) = (unat t - 1 + i) mod 15 + 1 \<and> (succ_tag ^^ i) t \<in> {1..15}"
proof (induction i)
  case 0
  have "1 \<le> unat t" "unat t - 1 < 15" using assms unfolding tag_range by auto
  then show ?case using assms by simp
next
  case (Suc i)
  then have "unat ((succ_tag ^^ Suc i) t) = ((unat t - 1 + i) mod 15 + 1) mod 15 + 1" by (simp add: unat_succ_tag)
  also have "\<dots> = (unat t - 1 + Suc i) mod 15 + 1" by (simp add: mod_simps)
  finally show ?case using Suc unat_succ_tag(2) by simp
qed

lemma succ_pow_all:
  assumes "t \<in> {1..15}" and "u \<in> {1..15}"
  shows "\<exists>i<15. (succ_tag ^^ i) t = u"
proof -
  define i where "i = (unat u + 15 - unat t) mod 15"
  have r: "1 \<le> unat t" "unat t \<le> 15" "1 \<le> unat u" "unat u \<le> 15" using assms unfolding tag_range by simp_all
  have "(unat t - 1 + i) mod 15 = (unat t - 1 + (unat u + 15 - unat t)) mod 15"
    unfolding i_def by (simp add: mod_simps)
  also have "unat t - 1 + (unat u + 15 - unat t) = unat u - 1 + 15" using r by simp
  also have "\<dots> mod 15 = unat u - 1" using r by (simp only: mod_add_self2) simp
  finally have "(unat t - 1 + i) mod 15 = unat u - 1" .
  then have "unat ((succ_tag ^^ i) t) = unat u" using unat_succ_pow [OF assms(1), of i] r by simp
  moreover have "i < 15" by (simp add: i_def)
  ultimately show ?thesis by (metis word_unat_eq_iff)
qed

locale round_robin =
  fixes cursor :: "'s \<Rightarrow> Tag"
    and used :: "'s \<Rightarrow> 16 word"
    and search :: "nat \<Rightarrow> 's \<Rightarrow> (TagError + Tag) \<times> 's"
    and skip :: "'s \<Rightarrow> 's"
    and claim :: "Tag \<Rightarrow> 's \<Rightarrow> 's"
    and free_tag :: "Tag \<Rightarrow> 's \<Rightarrow> (TagError + unit) \<times> 's"
  assumes search_0: "search 0 m = (Inl OutOfTags, m)"
    and search_Suc: "search (Suc n) m =
      (if used m AND tag_bit (cursor m) = 0 then (Inr (cursor m), claim (cursor m) (skip m)) else search n (skip m))"
    and skip_next: "cursor (skip m) = succ_tag (cursor m)"
    and skip_used: "used (skip m) = used m"
    and claim_next: "cursor (claim t m) = cursor m"
    and claim_used: "used (claim t m) = used m OR tag_bit t"
    and free_good: "t \<in> {1..15} \<Longrightarrow>
      \<exists>m'. free_tag t m = (Inr (), m') \<and> cursor m' = cursor m \<and> used m' = used m AND NOT (tag_bit t)"
    and free_bad: "t \<notin> {1..15} \<Longrightarrow> free_tag t m = (Inl InvalidTag, m)"
begin

lemma search_found:
  "cursor m \<in> {1..15} \<Longrightarrow> search n m = (Inr t, m') \<Longrightarrow>
    cursor m' \<in> {1..15} \<and> t \<in> {1..15} \<and> t \<notin> tags_in (used m) \<and> used m' = used m OR tag_bit t"
proof (induction n arbitrary: m)
  case (Suc n)
  then show ?case
    using Suc.IH [of "skip m"] unat_succ_tag(2) [of "cursor m"] tag_bit_test [OF tag_below, of "cursor m" "used m"]
    by (auto simp: search_Suc skip_next skip_used claim_next claim_used tags_in_def split: if_splits)
qed (simp add: search_0)

lemma search_exhausted:
  "cursor m \<in> {1..15} \<Longrightarrow> search n m = (Inl e, m') \<Longrightarrow>
    e = OutOfTags \<and> used m' = used m \<and> cursor m' = (succ_tag ^^ n) (cursor m) \<and> (\<forall>i<n. (succ_tag ^^ i) (cursor m) \<in> tags_in (used m))"
proof (induction n arbitrary: m)
  case (Suc n)
  have n: "cursor m \<in> tags_in (used m)" "search n (skip m) = (Inl e, m')"
    using Suc.prems tag_bit_test [OF tag_below, of "cursor m" "used m"]
    by (auto simp: search_Suc tags_in_def split: if_splits)
  from Suc.IH [OF _ n(2)] Suc.prems(1) have IH: "e = OutOfTags \<and> used m' = used m \<and>
      cursor m' = (succ_tag ^^ n) (succ_tag (cursor m)) \<and> (\<forall>i<n. (succ_tag ^^ i) (succ_tag (cursor m)) \<in> tags_in (used m))"
    using unat_succ_tag(2) by (simp add: skip_next skip_used)
  moreover have "(succ_tag ^^ i) (cursor m) \<in> tags_in (used m)" if "i < Suc n" for i
    using that IH n(1) by (cases i) (auto simp: funpow_swap1)
  ultimately show ?case by (simp add: funpow_swap1)
qed (simp add: search_0)

end

sublocale round_robin \<subseteq> tm: tag_manager "\<lambda>m. cursor m \<in> {1..15}" used "search 15" free_tag
proof
  fix m m' t e
  assume ok: "cursor m \<in> {1..15}"
  show "search 15 m = (Inr t, m') \<Longrightarrow> cursor m' \<in> {1..15} \<and> t \<in> {1..15} \<and> t \<notin> tags_in (used m) \<and>
      tags_in (used m') = insert t (tags_in (used m))"
    using search_found [OF ok] tags_in_set by metis
  show "search 15 m = (Inl e, m') \<Longrightarrow> cursor m' \<in> {1..15} \<and> e = OutOfTags \<and> tags_in (used m) = {1..15} \<and>
      tags_in (used m') = tags_in (used m)"
  proof -
    assume "search 15 m = (Inl e, m')"
    from search_exhausted [OF ok this] have s: "e = OutOfTags" "used m' = used m" "cursor m' = (succ_tag ^^ 15) (cursor m)"
      "\<forall>i<15. (succ_tag ^^ i) (cursor m) \<in> tags_in (used m)" by auto
    have "{1..15} \<subseteq> tags_in (used m)" using succ_pow_all [OF ok] s(4) by blast
    moreover have "tags_in (used m) \<subseteq> {1..15}" by (auto simp: tags_in_def)
    ultimately show ?thesis using s(1-3) unat_succ_pow [OF ok, of 15] by auto
  qed
  show "t \<in> {1..15} \<Longrightarrow> \<exists>m'. free_tag t m = (Inr (), m') \<and> cursor m' \<in> {1..15} \<and> tags_in (used m') = tags_in (used m) - {t}"
    using free_good [of t m] ok tags_in_reset by metis
  show "t \<notin> {1..15} \<Longrightarrow> free_tag t m = (Inl InvalidTag, m)" by (rule free_bad)
qed

end
