(* ===== verification/Tags.thy ===== *)
theory Tags
  imports Tag_Contract
begin

text \<open>
  The software tag manager (\<open>aethalloc-hess/src/tag_manager.rs\<close>) and the x86-64 tag manager
  (\<open>aethalloc-hess/src/x86.rs\<close>). Both hand out the tags 1 to 15 with a bitmap and a cursor, and keep the tag of a pointer in
  its upper bits. The \<open>cpuid\<close> instruction is a parameter of the feature detection. A call of a method with \<open>&mut self\<close> is a function
  from the manager to the result and the manager after the call.
\<close>

subsection \<open>SoftwareTagManager\<close>

record SoftwareTagManager =
  sw_next_tag :: Tag
  sw_used_tags :: "16 word"

definition SoftwareTagManager_new :: SoftwareTagManager where
  "SoftwareTagManager_new = \<lparr>sw_next_tag = MIN_TAG, sw_used_tags = 0\<rparr>"

definition Software_is_tag_used :: "Tag \<Rightarrow> SoftwareTagManager \<Rightarrow> bool" where
  "Software_is_tag_used t m \<longleftrightarrow> sw_used_tags m AND tag_bit t \<noteq> 0"

definition Software_mark_tag_used :: "Tag \<Rightarrow> SoftwareTagManager \<Rightarrow> SoftwareTagManager" where
  "Software_mark_tag_used t m = m\<lparr>sw_used_tags := sw_used_tags m OR tag_bit t\<rparr>"

definition Software_mark_tag_free :: "Tag \<Rightarrow> SoftwareTagManager \<Rightarrow> SoftwareTagManager" where
  "Software_mark_tag_free t m = m\<lparr>sw_used_tags := sw_used_tags m AND NOT (tag_bit t)\<rparr>"

text \<open>The \<open>for\<close> loop of \<open>allocate_tag\<close> with the number of rounds left.\<close>

primrec Software_allocate_loop :: "nat \<Rightarrow> SoftwareTagManager \<Rightarrow> (TagError + Tag) \<times> SoftwareTagManager" where
  "Software_allocate_loop 0 m = (Inl OutOfTags, m)"
| "Software_allocate_loop (Suc n) m =
    (let t = sw_next_tag m;
         m' = m\<lparr>sw_next_tag := (if MAX_TAG \<le> sw_next_tag m then MIN_TAG else sw_next_tag m + 1)\<rparr>
     in if \<not> Software_is_tag_used t m' then (Inr t, Software_mark_tag_used t m')
        else Software_allocate_loop n m')"

definition Software_allocate_tag :: "SoftwareTagManager \<Rightarrow> (TagError + Tag) \<times> SoftwareTagManager" where
  "Software_allocate_tag = Software_allocate_loop (unat MAX_TAG - unat MIN_TAG + 1)"

definition Software_free_tag :: "Tag \<Rightarrow> SoftwareTagManager \<Rightarrow> (TagError + unit) \<times> SoftwareTagManager" where
  "Software_free_tag t m =
    (if \<not> (MIN_TAG \<le> t \<and> t \<le> MAX_TAG) then (Inl InvalidTag, m) else (Inr (), Software_mark_tag_free t m))"

definition Software_tag_pointer :: "ptr64 \<Rightarrow> Tag \<Rightarrow> TagError + ptr64" where
  "Software_tag_pointer p t =
    (if MAX_TAG < t then Inl InvalidTag
     else Inr ((p AND NOT 0x0F00000000000000) OR push_bit 56 (ucast t)))"

definition Software_untag_pointer :: "ptr64 \<Rightarrow> ptr64" where
  "Software_untag_pointer p = p AND NOT 0x0F00000000000000"

definition Software_get_tag :: "ptr64 \<Rightarrow> Tag" where
  "Software_get_tag p = ucast (drop_bit 56 p AND 0xF)"

definition Software_store_tag :: "ptr64 \<Rightarrow> Tag \<Rightarrow> TagError + unit" where
  "Software_store_tag p t = Inr ()"

definition Software_load_tag :: "ptr64 \<Rightarrow> Tag" where
  "Software_load_tag p = 0"

subsection \<open>X86FeatureFlags\<close>

text \<open>The registers that \<open>__cpuid\<close> returns for a leaf.\<close>

record CpuidResult =
  eax :: "32 word"
  ebx :: "32 word"
  ecx :: "32 word"
  edx :: "32 word"

record X86FeatureFlags =
  has_intel_lam :: bool
  has_amd_uai :: bool
  has_la57 :: bool

definition reg_bytes :: "32 word \<Rightarrow> byte list" where
  "reg_bytes r = [ucast (r AND 0xFF), ucast (drop_bit 8 r AND 0xFF), ucast (drop_bit 16 r AND 0xFF), ucast (drop_bit 24 r AND 0xFF)]"

definition vendor_bytes :: "CpuidResult \<Rightarrow> byte list" where
  "vendor_bytes v = reg_bytes (ebx v) @ reg_bytes (edx v) @ reg_bytes (ecx v)"

definition ascii :: "string \<Rightarrow> byte list" where
  "ascii = List.map of_char"

definition X86FeatureFlags_detect :: "(32 word \<Rightarrow> CpuidResult) \<Rightarrow> X86FeatureFlags" where
  "X86FeatureFlags_detect cpuid =
    (let flags = \<lparr>has_intel_lam = False, has_amd_uai = False, has_la57 = False\<rparr>;
         vendor = cpuid 0;
         is_intel = (vendor_bytes vendor = ascii ''GenuineIntel'');
         is_amd = (vendor_bytes vendor = ascii ''AuthenticAMD'')
     in if is_intel \<and> 7 \<le> eax vendor then
          (let leaf7 = cpuid 0x07;
               flags = (if edx leaf7 AND push_bit 26 1 \<noteq> 0 then flags\<lparr>has_intel_lam := True\<rparr> else flags)
           in if ecx leaf7 AND push_bit 16 1 \<noteq> 0 then flags\<lparr>has_la57 := True\<rparr> else flags)
        else if is_amd \<and> 0x80000000 \<le> eax vendor then
          (let max_ext = cpuid 0x80000000
           in if 0x80000001 \<le> eax max_ext then
                (let ext = cpuid 0x80000001
                 in if ecx ext AND push_bit 6 1 \<noteq> 0 then flags\<lparr>has_amd_uai := True\<rparr> else flags)
              else flags)
        else flags)"

definition has_hardware_tagging :: "X86FeatureFlags \<Rightarrow> bool" where
  "has_hardware_tagging f \<longleftrightarrow> has_intel_lam f \<or> has_amd_uai f"

subsection \<open>X86TagManager\<close>

record X86TagManager =
  x86_features :: X86FeatureFlags
  x86_next_tag :: Tag
  x86_used_tags :: "16 word"

definition X86TagManager_new :: "(32 word \<Rightarrow> CpuidResult) \<Rightarrow> X86TagManager" where
  "X86TagManager_new cpuid = \<lparr>x86_features = X86FeatureFlags_detect cpuid, x86_next_tag = 1, x86_used_tags = 0\<rparr>"

primrec X86_allocate_loop :: "nat \<Rightarrow> X86TagManager \<Rightarrow> (TagError + Tag) \<times> X86TagManager" where
  "X86_allocate_loop 0 m = (Inl OutOfTags, m)"
| "X86_allocate_loop (Suc n) m =
    (let t = x86_next_tag m;
         m' = m\<lparr>x86_next_tag := (if 15 \<le> x86_next_tag m then 1 else x86_next_tag m + 1)\<rparr>
     in if x86_used_tags m' AND tag_bit t = 0 then (Inr t, m'\<lparr>x86_used_tags := x86_used_tags m' OR tag_bit t\<rparr>)
        else X86_allocate_loop n m')"

definition X86_allocate_tag :: "X86TagManager \<Rightarrow> (TagError + Tag) \<times> X86TagManager" where
  "X86_allocate_tag = X86_allocate_loop 15"

definition X86_free_tag :: "Tag \<Rightarrow> X86TagManager \<Rightarrow> (TagError + unit) \<times> X86TagManager" where
  "X86_free_tag t m =
    (if t = 0 \<or> 15 < t then (Inl InvalidTag, m)
     else (Inr (), m\<lparr>x86_used_tags := x86_used_tags m AND NOT (tag_bit t)\<rparr>))"

definition X86_tag_pointer :: "X86TagManager \<Rightarrow> ptr64 \<Rightarrow> Tag \<Rightarrow> ptr64" where
  "X86_tag_pointer m p t =
    (if 15 < t then p
     else if has_hardware_tagging (x86_features m) then (p AND 0x00FFFFFFFFFFFFFF) OR push_bit 56 (ucast t)
     else (p AND 0x0000FFFFFFFFFFFF) OR push_bit 48 (ucast t))"

definition X86_untag_pointer :: "X86TagManager \<Rightarrow> ptr64 \<Rightarrow> ptr64" where
  "X86_untag_pointer m p =
    (if has_hardware_tagging (x86_features m) then p AND 0x00FFFFFFFFFFFFFF else p AND 0x0000FFFFFFFFFFFF)"

definition X86_get_tag :: "X86TagManager \<Rightarrow> ptr64 \<Rightarrow> Tag" where
  "X86_get_tag m p =
    (if has_hardware_tagging (x86_features m) then ucast (drop_bit 56 p AND 0xF) else ucast (drop_bit 48 p AND 0xF))"

subsection \<open>The managers keep their contract\<close>

lemma free_range: "MIN_TAG \<le> t \<and> t \<le> MAX_TAG \<longleftrightarrow> t \<in> {1..15}"
  by (simp add: MIN_TAG_def MAX_TAG_def)

lemma x86_free_range: "t = 0 \<or> 15 < t \<longleftrightarrow> t \<notin> {1..15}" for t :: Tag
proof -
  have "t = 0 \<longleftrightarrow> \<not> 1 \<le> t" by (metis linorder_not_le word_less_1)
  then show ?thesis by auto
qed

lemma Software_allocate_search: "Software_allocate_tag = Software_allocate_loop 15"
  by (simp add: Software_allocate_tag_def MAX_TAG_def MIN_TAG_def)

interpretation sw: round_robin sw_next_tag sw_used_tags Software_allocate_loop
  "\<lambda>m. m\<lparr>sw_next_tag := succ_tag (sw_next_tag m)\<rparr>" Software_mark_tag_used Software_free_tag
  by unfold_locales
    (simp_all add: Let_def Software_is_tag_used_def Software_mark_tag_used_def succ_tag_def Software_free_tag_def
      Software_mark_tag_free_def free_range del: atLeastAtMost_iff)

interpretation x86: round_robin x86_next_tag x86_used_tags X86_allocate_loop
  "\<lambda>m. m\<lparr>x86_next_tag := succ_tag (x86_next_tag m)\<rparr>" "\<lambda>t m. m\<lparr>x86_used_tags := x86_used_tags m OR tag_bit t\<rparr>" X86_free_tag
  by unfold_locales
    (simp_all add: Let_def succ_tag_def MIN_TAG_def MAX_TAG_def X86_free_tag_def x86_free_range del: atLeastAtMost_iff)

subsection \<open>Tags in pointers\<close>

definition software_plain :: "ptr64 \<Rightarrow> bool" where
  "software_plain p \<longleftrightarrow> p AND 0x0F00000000000000 = 0"

definition software_tagged :: "ptr64 \<Rightarrow> Tag \<Rightarrow> ptr64" where
  "software_tagged p t = (case Software_tag_pointer p t of Inr q \<Rightarrow> q | Inl _ \<Rightarrow> p)"

definition tag_field :: ptr64 where
  "tag_field = 0x0F00000000000000"

lemma bit_tag_field: "bit tag_field i \<longleftrightarrow> 56 \<le> i \<and> i < 60"
proof -
  have "tag_field = push_bit 56 (mask 4)" by (simp add: tag_field_def mask_eq_exp_minus_1)
  moreover have "bit (push_bit 56 (mask 4) :: ptr64) i \<longleftrightarrow> 56 \<le> i \<and> i < 60" by (auto simp: bit_simps)
  ultimately show ?thesis by (simp only:)
qed

lemma low_56: "(0x00FFFFFFFFFFFFFF :: ptr64) = mask 56" and low_48: "(0x0000FFFFFFFFFFFF :: ptr64) = mask 48"
  by (simp_all add: mask_eq_exp_minus_1)

lemma software_plain_bits: "software_plain p \<longleftrightarrow> (\<forall>i. 56 \<le> i \<and> i < 60 \<longrightarrow> \<not> bit p i)"
proof -
  have lt: "i < 60 \<Longrightarrow> i < 64" for i :: nat by simp
  show ?thesis
    unfolding software_plain_def tag_field_def [symmetric] bit_eq_iff
    by (simp add: bit_and_iff bit_tag_field) (use lt in metis)
qed

lemma software_tagged_eq: "t \<le> 15 \<Longrightarrow> software_tagged p t = (p AND NOT tag_field) OR push_bit 56 (ucast t)"
  unfolding software_tagged_def Software_tag_pointer_def tag_field_def [symmetric] MAX_TAG_def by auto

lemma software_untag_eq: "Software_untag_pointer p = p AND NOT tag_field"
  unfolding Software_untag_pointer_def tag_field_def ..

lemma software_clear: "software_plain (p AND NOT tag_field)"
  by (auto simp: software_plain_bits bit_and_iff bit_not_iff_eq bit_tag_field)

lemma software_clear_plain: "software_plain p \<Longrightarrow> p AND NOT tag_field = p"
  unfolding software_plain_bits
  by (intro bit_eqI) (auto simp: bit_and_iff bit_not_iff_eq bit_tag_field dest: bit_imp_le_length)

lemma software_clear_tag: "t \<le> 15 \<Longrightarrow> (p OR push_bit 56 (ucast t)) AND NOT tag_field = p AND NOT tag_field" for t :: Tag
  by (intro bit_eqI) (auto simp: bit_simps bit_tag_field dest: small_tag_bits)

lemmas software_fields = software_tagged_eq software_untag_eq software_clear_plain software_clear_tag

interpretation swp: pointer_tags software_plain software_tagged Software_untag_pointer Software_get_tag
proof
  fix p q :: ptr64 and t u :: Tag
  assume p: "software_plain p"
  show "software_tagged p 0 = p" using p by (simp add: software_fields)
  assume t: "t \<le> 15"
  show "Software_get_tag (software_tagged p t) = t"
    unfolding Software_get_tag_def software_tagged_eq [OF t] software_clear_plain [OF p]
    by (rule field_get) (use p t in \<open>simp_all add: software_plain_bits\<close>)
  show "Software_untag_pointer (software_tagged p t) = p" using p t by (simp add: software_fields)
  show "u \<le> 15 \<Longrightarrow> software_tagged (software_tagged p t) u = software_tagged p u" using p t by (simp add: software_fields)
qed (simp add: software_untag_eq software_clear)

definition x86_plain :: "X86TagManager \<Rightarrow> ptr64 \<Rightarrow> bool" where
  "x86_plain m p \<longleftrightarrow> unat p < (if has_hardware_tagging (x86_features m) then 2 ^ 56 else 2 ^ 48)"

lemma below_mask: "unat p < 2 ^ n \<longleftrightarrow> p AND mask n = p" for p :: ptr64
proof -
  have "unat p < 2 ^ n \<longleftrightarrow> take_bit n (unat p) = unat p" by (simp add: take_bit_nat_eq_self_iff)
  also have "\<dots> \<longleftrightarrow> take_bit n p = p" by (metis unsigned_take_bit_eq word_unat_eq_iff)
  finally show ?thesis by (simp add: take_bit_eq_mask)
qed

lemma field_clear: "((p AND mask n) OR push_bit n t) AND mask n = p AND mask n" for p :: ptr64
  by (intro bit_eqI) (auto simp: bit_simps)

lemma x86_shape: "\<exists>n \<le> 60. (\<forall>p. x86_plain m p \<longleftrightarrow> p AND mask n = p) \<and>
  (\<forall>p t. t \<le> 15 \<longrightarrow> X86_tag_pointer m p t = (p AND mask n) OR push_bit n (ucast t)) \<and>
  (\<forall>p. X86_untag_pointer m p = p AND mask n) \<and> (\<forall>p. X86_get_tag m p = ucast (drop_bit n p AND 0xF))"
proof (cases "has_hardware_tagging (x86_features m)")
  case True
  then show ?thesis
    unfolding x86_plain_def below_mask [symmetric]
    by (intro exI [of _ 56]) (simp add: X86_tag_pointer_def X86_untag_pointer_def X86_get_tag_def low_56 linorder_not_less [symmetric] del: linorder_not_less)
next
  case False
  then show ?thesis
    unfolding x86_plain_def below_mask [symmetric]
    by (intro exI [of _ 48]) (simp add: X86_tag_pointer_def X86_untag_pointer_def X86_get_tag_def low_48 linorder_not_less [symmetric] del: linorder_not_less)
qed

interpretation x86p: pointer_tags "x86_plain m" "X86_tag_pointer m" "X86_untag_pointer m" "X86_get_tag m" for m
proof -
  obtain n where n: "n \<le> 60" "\<And>p. x86_plain m p \<longleftrightarrow> p AND mask n = p"
    "\<And>p t. t \<le> 15 \<Longrightarrow> X86_tag_pointer m p t = (p AND mask n) OR push_bit n (ucast t)"
    "\<And>p. X86_untag_pointer m p = p AND mask n" "\<And>p. X86_get_tag m p = ucast (drop_bit n p AND 0xF)"
    using x86_shape [of m] by blast
  have high: "\<not> bit (p AND mask n) i" if "n \<le> i" for p :: ptr64 and i using that by (simp add: bit_simps)
  show "pointer_tags (x86_plain m) (X86_tag_pointer m) (X86_untag_pointer m) (X86_get_tag m)"
  proof
    fix p :: ptr64 and t u :: Tag
    assume p: "x86_plain m p"
    show "X86_tag_pointer m p 0 = p" using p by (simp add: n)
    assume t: "t \<le> 15"
    show "X86_get_tag m (X86_tag_pointer m p t) = t"
      unfolding n(3) [OF t] n(5) by (rule field_get) (use n(1) t high in simp_all)
    show "X86_untag_pointer m (X86_tag_pointer m p t) = p"
      using p field_clear [of p n "ucast t"] unfolding n(2) n(3) [OF t] n(4) by simp
    show "u \<le> 15 \<Longrightarrow> X86_tag_pointer m (X86_tag_pointer m p t) u = X86_tag_pointer m p u"
      using t by (simp add: n field_clear)
  qed (simp add: n and.assoc)
qed

end
