(* ===== verification/HwTags.thy ===== *)
theory HwTags
  imports Tags
begin

text \<open>
  The tag managers for hardware tagging: ARM MTE (\<open>aethalloc-hess/src/mte.rs\<close>) and CHERI
  (\<open>aethalloc-hess/src/cheri.rs\<close>). The instructions that the inline assembly emits are parameters, collected in the records
  \<open>mte_isa\<close> and \<open>cheri_isa\<close>; what the architecture manuals say of them is stated as \<open>mte_laws\<close> and as a hypothesis of the CHERI property.
\<close>

subsection \<open>MteTagManager\<close>

record MteTagManager =
  mte_used_tags :: "16 word"
  mte_next_tag :: Tag

definition MteTagManager_new :: MteTagManager where
  "MteTagManager_new = \<lparr>mte_used_tags = 0, mte_next_tag = MIN_TAG\<rparr>"

definition Mte_is_tag_used :: "Tag \<Rightarrow> MteTagManager \<Rightarrow> bool" where
  "Mte_is_tag_used t m \<longleftrightarrow> mte_used_tags m AND tag_bit t \<noteq> 0"

definition Mte_mark_tag_used :: "Tag \<Rightarrow> MteTagManager \<Rightarrow> MteTagManager" where
  "Mte_mark_tag_used t m = m\<lparr>mte_used_tags := mte_used_tags m OR tag_bit t\<rparr>"

definition Mte_mark_tag_free :: "Tag \<Rightarrow> MteTagManager \<Rightarrow> MteTagManager" where
  "Mte_mark_tag_free t m = m\<lparr>mte_used_tags := mte_used_tags m AND NOT (tag_bit t)\<rparr>"

primrec Mte_allocate_loop :: "nat \<Rightarrow> MteTagManager \<Rightarrow> (TagError + Tag) \<times> MteTagManager" where
  "Mte_allocate_loop 0 m = (Inl OutOfTags, m)"
| "Mte_allocate_loop (Suc n) m =
    (let t = mte_next_tag m;
         m' = m\<lparr>mte_next_tag := (if MAX_TAG \<le> mte_next_tag m then MIN_TAG else mte_next_tag m + 1)\<rparr>
     in if \<not> Mte_is_tag_used t m' then (Inr t, Mte_mark_tag_used t m')
        else Mte_allocate_loop n m')"

definition Mte_allocate_tag :: "MteTagManager \<Rightarrow> (TagError + Tag) \<times> MteTagManager" where
  "Mte_allocate_tag = Mte_allocate_loop (unat MAX_TAG - unat MIN_TAG + 1)"

definition Mte_free_tag :: "Tag \<Rightarrow> MteTagManager \<Rightarrow> (TagError + unit) \<times> MteTagManager" where
  "Mte_free_tag t m = (if t < MIN_TAG \<or> MAX_TAG < t then (Inl InvalidTag, m) else (Inr (), Mte_mark_tag_free t m))"

text \<open>
  The instructions: \<open>ADDG\<close>, \<open>SUBP\<close> and \<open>GMI\<close> on registers, \<open>IRG\<close> on registers and the state of the generator of random tags, \<open>STG\<close> and
  \<open>STZG\<close> on the tag memory, \<open>LDG\<close> on the tag memory and the previous content of its destination register, and the feature
  register read by \<open>MRS\<close>.
\<close>

record 'm mte_isa =
  isa_addg :: "ptr64 \<Rightarrow> 64 word \<Rightarrow> ptr64"
  isa_subp :: "ptr64 \<Rightarrow> ptr64 \<Rightarrow> ptr64"
  isa_stg :: "ptr64 \<Rightarrow> 'm \<Rightarrow> 'm"
  isa_ldg :: "ptr64 \<Rightarrow> 64 word \<Rightarrow> 'm \<Rightarrow> ptr64"
  isa_irg :: "64 word \<Rightarrow> ptr64 \<Rightarrow> 64 word \<Rightarrow> ptr64"
  isa_gmi :: "ptr64 \<Rightarrow> 64 word \<Rightarrow> 64 word"
  isa_stzg :: "ptr64 \<Rightarrow> 'm \<Rightarrow> 'm"
  isa_id_aa64pfr1 :: "64 word"

text \<open>The random choice of \<open>IRG\<close> is determined by the state \<open>seed\<close> of the generator.\<close>

definition irg :: "'m mte_isa \<Rightarrow> 64 word \<Rightarrow> ptr64 \<Rightarrow> 64 word \<Rightarrow> ptr64" where
  "irg isa seed p m = isa_irg isa seed p m"





definition stzg :: "'m mte_isa \<Rightarrow> ptr64 \<Rightarrow> 'm \<Rightarrow> 'm" where
  "stzg isa p M = isa_stzg isa p M"

definition gmi :: "'m mte_isa \<Rightarrow> ptr64 \<Rightarrow> 64 word \<Rightarrow> 64 word" where
  "gmi isa p m = isa_gmi isa p m"







subsection \<open>CheriTagManager\<close>

record CheriTagManager =
  cheri_used_tags :: "16 word"

definition CheriTagManager_new :: CheriTagManager where
  "CheriTagManager_new = \<lparr>cheri_used_tags = 0\<rparr>"

text \<open>The loop over the tags \<open>1..=MAX_TAG\<close> with the tags left to try.\<close>

primrec Cheri_allocate_loop :: "Tag list \<Rightarrow> CheriTagManager \<Rightarrow> (TagError + Tag) \<times> CheriTagManager" where
  "Cheri_allocate_loop [] m = (Inl OutOfTags, m)"
| "Cheri_allocate_loop (t # ts) m =
    (if cheri_used_tags m AND tag_bit t = 0 then (Inr t, m\<lparr>cheri_used_tags := cheri_used_tags m OR tag_bit t\<rparr>)
     else Cheri_allocate_loop ts m)"

definition Cheri_allocate_tag :: "CheriTagManager \<Rightarrow> (TagError + Tag) \<times> CheriTagManager" where
  "Cheri_allocate_tag = Cheri_allocate_loop (List.map word_of_nat [1..<unat MAX_TAG + 1])"

definition Cheri_free_tag :: "Tag \<Rightarrow> CheriTagManager \<Rightarrow> (TagError + unit) \<times> CheriTagManager" where
  "Cheri_free_tag t m =
    (if t = 0 \<or> MAX_TAG < t then (Inl InvalidTag, m)
     else (Inr (), m\<lparr>cheri_used_tags := cheri_used_tags m AND NOT (tag_bit t)\<rparr>))"

definition Cheri_tag_pointer :: "'c \<Rightarrow> Tag \<Rightarrow> TagError + 'c" where
  "Cheri_tag_pointer p t = Inr p"

definition Cheri_untag_pointer :: "'c \<Rightarrow> 'c" where
  "Cheri_untag_pointer p = p"

definition Cheri_get_tag :: "'c \<Rightarrow> Tag" where
  "Cheri_get_tag p = 0"

definition Cheri_store_tag :: "'c \<Rightarrow> Tag \<Rightarrow> TagError + unit" where
  "Cheri_store_tag p t = Inr ()"

definition Cheri_load_tag :: "'c \<Rightarrow> Tag" where
  "Cheri_load_tag p = 0"

subsection \<open>Capabilities\<close>

definition PERM_LOAD :: "32 word" where "PERM_LOAD = push_bit 0 1"
definition PERM_STORE :: "32 word" where "PERM_STORE = push_bit 1 1"
definition PERM_EXECUTE :: "32 word" where "PERM_EXECUTE = push_bit 2 1"
definition PERM_LOAD_CAP :: "32 word" where "PERM_LOAD_CAP = push_bit 3 1"
definition PERM_STORE_CAP :: "32 word" where "PERM_STORE_CAP = push_bit 4 1"
definition PERM_LOAD_MUTABLE :: "32 word" where "PERM_LOAD_MUTABLE = push_bit 5 1"
definition PERM_STORE_LOCAL :: "32 word" where "PERM_STORE_LOCAL = push_bit 6 1"
definition PERM_SEAL :: "32 word" where "PERM_SEAL = push_bit 7 1"
definition PERM_ALL :: "32 word" where "PERM_ALL = 0xFF"
definition PERM_READ_WRITE :: "32 word" where "PERM_READ_WRITE = PERM_LOAD OR PERM_STORE OR PERM_LOAD_CAP OR PERM_STORE_CAP"

text \<open>The targets that the conditional compilation tells apart, and the instructions of a capability machine.\<close>

datatype target = Riscv64 | Aarch64 | Other_target

record 'c cheri_isa =
  cgetlen :: "'c \<Rightarrow> 64 word"
  cgetbase :: "'c \<Rightarrow> 64 word"
  cgetoffset :: "'c \<Rightarrow> 64 word"
  cgettag :: "'c \<Rightarrow> 64 word"
  cgetperm :: "'c \<Rightarrow> 64 word"
  csetboundsexact :: "'c \<Rightarrow> 64 word \<Rightarrow> 'c"
  csetbound :: "'c \<Rightarrow> 64 word \<Rightarrow> 'c"
  csetaddr :: "'c \<Rightarrow> 64 word \<Rightarrow> 'c"

record CapabilityMeta =
  meta_base :: "64 word"
  meta_length :: "64 word"
  meta_offset :: "64 word"
  meta_permissions :: "32 word"
  meta_tag :: bool

fun cheri_cap_get_length :: "target \<Rightarrow> 'c cheri_isa \<Rightarrow> 'c \<Rightarrow> 64 word" where
  "cheri_cap_get_length Riscv64 isa c = cgetlen isa c"
| "cheri_cap_get_length Aarch64 isa c = cgetlen isa c"
| "cheri_cap_get_length Other_target isa c = 0"

fun cheri_cap_get_base :: "target \<Rightarrow> 'c cheri_isa \<Rightarrow> 'c \<Rightarrow> 64 word" where
  "cheri_cap_get_base Riscv64 isa c = cgetbase isa c"
| "cheri_cap_get_base Aarch64 isa c = cgetbase isa c"
| "cheri_cap_get_base Other_target isa c = 0"

fun cheri_cap_get_offset :: "target \<Rightarrow> 'c cheri_isa \<Rightarrow> 'c \<Rightarrow> 64 word" where
  "cheri_cap_get_offset Riscv64 isa c = cgetoffset isa c"
| "cheri_cap_get_offset Aarch64 isa c = cgetoffset isa c"
| "cheri_cap_get_offset Other_target isa c = 0"

fun cheri_cap_get_tag :: "target \<Rightarrow> 'c cheri_isa \<Rightarrow> 'c \<Rightarrow> bool" where
  "cheri_cap_get_tag Riscv64 isa c \<longleftrightarrow> cgettag isa c \<noteq> 0"
| "cheri_cap_get_tag Aarch64 isa c \<longleftrightarrow> cgettag isa c \<noteq> 0"
| "cheri_cap_get_tag Other_target isa c \<longleftrightarrow> False"

fun cheri_cap_get_perms :: "target \<Rightarrow> 'c cheri_isa \<Rightarrow> 'c \<Rightarrow> 32 word" where
  "cheri_cap_get_perms Riscv64 isa c = ucast (cgetperm isa c)"
| "cheri_cap_get_perms Aarch64 isa c = ucast (cgetperm isa c)"
| "cheri_cap_get_perms Other_target isa c = 0"

fun cheri_cap_bounds_set :: "target \<Rightarrow> 'c cheri_isa \<Rightarrow> 'c \<Rightarrow> 64 word \<Rightarrow> 64 word \<Rightarrow> 'c" where
  "cheri_cap_bounds_set Riscv64 isa c base len = csetaddr isa (csetboundsexact isa c len) base"
| "cheri_cap_bounds_set Aarch64 isa c base len = csetbound isa c len"
| "cheri_cap_bounds_set Other_target isa c base len = c"

definition get_capability_meta :: "target \<Rightarrow> 'c cheri_isa \<Rightarrow> 'c \<Rightarrow> CapabilityMeta" where
  "get_capability_meta tgt isa c = \<lparr>meta_base = cheri_cap_get_base tgt isa c, meta_length = cheri_cap_get_length tgt isa c,
     meta_offset = cheri_cap_get_offset tgt isa c, meta_permissions = cheri_cap_get_perms tgt isa c,
     meta_tag = cheri_cap_get_tag tgt isa c\<rparr>"

definition create_bounded_capability :: "target \<Rightarrow> 'c cheri_isa \<Rightarrow> 'c \<Rightarrow> 64 word \<Rightarrow> 32 word \<Rightarrow> 'c option" where
  "create_bounded_capability tgt isa base len perms =
    (let cap = cheri_cap_bounds_set tgt isa base 0 len;
         actual_perms = cheri_cap_get_perms tgt isa cap
     in if actual_perms AND perms \<noteq> perms then None
        else if \<not> cheri_cap_get_tag tgt isa cap then None
        else Some cap)"

subsection \<open>The managers keep their contract\<close>

lemma mte_free_range: "t < MIN_TAG \<or> MAX_TAG < t \<longleftrightarrow> t \<notin> {1..15}"
  unfolding MIN_TAG_def MAX_TAG_def atLeastAtMost_iff by (metis linorder_not_le)

interpretation mte: round_robin mte_next_tag mte_used_tags Mte_allocate_loop
  "\<lambda>m. m\<lparr>mte_next_tag := succ_tag (mte_next_tag m)\<rparr>" Mte_mark_tag_used Mte_free_tag
  by unfold_locales
    (simp_all add: Let_def Mte_is_tag_used_def Mte_mark_tag_used_def succ_tag_def Mte_free_tag_def Mte_mark_tag_free_def
      mte_free_range del: atLeastAtMost_iff)

lemma Mte_allocate_search: "Mte_allocate_tag = Mte_allocate_loop 15"
  by (simp add: Mte_allocate_tag_def MAX_TAG_def MIN_TAG_def)

lemma Cheri_loop_found:
  "set ts \<subseteq> {1..15} \<Longrightarrow> Cheri_allocate_loop ts m = (Inr t, m') \<Longrightarrow>
    t \<in> {1..15} \<and> t \<notin> tags_in (cheri_used_tags m) \<and> cheri_used_tags m' = cheri_used_tags m OR tag_bit t"
  by (induction ts)
    (auto split: if_splits simp: tag_bit_test [OF tag_below] tags_in_def)

lemma Cheri_loop_exhausted:
  "set ts \<subseteq> {1..15} \<Longrightarrow> Cheri_allocate_loop ts m = (Inl e, m') \<Longrightarrow>
    e = OutOfTags \<and> m' = m \<and> set ts \<subseteq> tags_in (cheri_used_tags m)"
  by (induction ts)
    (auto split: if_splits simp: tag_bit_test [OF tag_below] tags_in_def)

lemma Cheri_tags: "set (List.map word_of_nat [1..<unat MAX_TAG + 1]) = {1..15 :: Tag}"
proof -
  have "t \<in> word_of_nat ` {1..15}" if "t \<in> {1..15}" for t :: Tag
    using that unfolding tag_range by (intro image_eqI [of _ _ "unat t"]) simp_all
  moreover have "word_of_nat n \<in> {1..15 :: Tag}" if "n \<in> {1..15}" for n
    using that unfolding tag_range by (simp add: unat_of_nat)
  moreover have "set [1..<unat MAX_TAG + 1] = {1..15}" by (auto simp: MAX_TAG_def)
  ultimately show ?thesis by (auto simp only: set_map)
qed

interpretation cheri: tag_manager "\<lambda>m. True" cheri_used_tags Cheri_allocate_tag Cheri_free_tag
proof
  fix m m' t e
  show "Cheri_allocate_tag m = (Inr t, m') \<Longrightarrow> True \<and> t \<in> {1..15} \<and> t \<notin> tags_in (cheri_used_tags m) \<and>
      tags_in (cheri_used_tags m') = insert t (tags_in (cheri_used_tags m))"
    using Cheri_loop_found [of "List.map word_of_nat [1..<unat MAX_TAG + 1]" m t m'] tags_in_set
    unfolding Cheri_allocate_tag_def Cheri_tags by auto
  show "Cheri_allocate_tag m = (Inl e, m') \<Longrightarrow> True \<and> e = OutOfTags \<and> tags_in (cheri_used_tags m) = {1..15} \<and>
      tags_in (cheri_used_tags m') = tags_in (cheri_used_tags m)"
    using Cheri_loop_exhausted [of "List.map word_of_nat [1..<unat MAX_TAG + 1]" m e m']
    unfolding Cheri_allocate_tag_def Cheri_tags by (auto simp: tags_in_def)
qed (auto simp: Cheri_free_tag_def tags_in_reset x86_free_range MAX_TAG_def simp del: atLeastAtMost_iff)

subsection \<open>Properties of the tag managers\<close>

text \<open>
  C30. Unique tags. Whatever sequence of allocations and releases (valid or not) a program makes with one of the four tag managers, the tags it
  holds are pairwise distinct and exactly those the bitmap records; the next allocation gives a tag between 1 and 15 that it does
  not hold, and fails, with \<open>OutOfTags\<close>, only if it holds all fifteen.
\<close>

theorem tag_managers_unique:
  "(case tag_exec Software_allocate_tag Software_free_tag ops ([], SoftwareTagManager_new) of (H, m) \<Rightarrow>
      unique_tags H (sw_used_tags m) (fst (Software_allocate_tag m))) \<and>
   (case tag_exec X86_allocate_tag X86_free_tag ops ([], X86TagManager_new cpuid) of (H, m) \<Rightarrow>
      unique_tags H (x86_used_tags m) (fst (X86_allocate_tag m))) \<and>
   (case tag_exec Mte_allocate_tag Mte_free_tag ops ([], MteTagManager_new) of (H, m) \<Rightarrow>
      unique_tags H (mte_used_tags m) (fst (Mte_allocate_tag m))) \<and>
   (case tag_exec Cheri_allocate_tag Cheri_free_tag ops ([], CheriTagManager_new) of (H, m) \<Rightarrow>
      unique_tags H (cheri_used_tags m) (fst (Cheri_allocate_tag m)))"
proof (intro conjI)
  show "case tag_exec Software_allocate_tag Software_free_tag ops ([], SoftwareTagManager_new) of (H, m) \<Rightarrow>
      unique_tags H (sw_used_tags m) (fst (Software_allocate_tag m))"
    unfolding Software_allocate_search by (rule sw.tm.tags_unique) (simp_all add: SoftwareTagManager_new_def MIN_TAG_def)
  show "case tag_exec X86_allocate_tag X86_free_tag ops ([], X86TagManager_new cpuid) of (H, m) \<Rightarrow>
      unique_tags H (x86_used_tags m) (fst (X86_allocate_tag m))"
    unfolding X86_allocate_tag_def by (rule x86.tm.tags_unique) (simp_all add: X86TagManager_new_def MIN_TAG_def)
  show "case tag_exec Mte_allocate_tag Mte_free_tag ops ([], MteTagManager_new) of (H, m) \<Rightarrow>
      unique_tags H (mte_used_tags m) (fst (Mte_allocate_tag m))"
    unfolding Mte_allocate_search by (rule mte.tm.tags_unique) (simp_all add: MteTagManager_new_def MIN_TAG_def)
  show "case tag_exec Cheri_allocate_tag Cheri_free_tag ops ([], CheriTagManager_new) of (H, m) \<Rightarrow>
      unique_tags H (cheri_used_tags m) (fst (Cheri_allocate_tag m))"
    by (rule cheri.tags_unique) (simp_all add: CheriTagManager_new_def)
qed

lemma x86_loop_software:
  "sw_next_tag s = x86_next_tag m \<Longrightarrow> sw_used_tags s = x86_used_tags m \<Longrightarrow>
    fst (Software_allocate_loop n s) = fst (X86_allocate_loop n m) \<and>
    sw_next_tag (snd (Software_allocate_loop n s)) = x86_next_tag (snd (X86_allocate_loop n m)) \<and>
    sw_used_tags (snd (Software_allocate_loop n s)) = x86_used_tags (snd (X86_allocate_loop n m))"
  by (induction n arbitrary: s m)
    (simp_all add: Let_def Software_is_tag_used_def Software_mark_tag_used_def MIN_TAG_def MAX_TAG_def)

lemma x86_exec_software:
  "sw_next_tag s = x86_next_tag m \<Longrightarrow> sw_used_tags s = x86_used_tags m \<Longrightarrow>
    fst (tag_exec Software_allocate_tag Software_free_tag ops (H, s)) = fst (tag_exec X86_allocate_tag X86_free_tag ops (H, m))"
proof (induction ops arbitrary: H s m)
  case (Cons op ops)
  show ?case
  proof (cases op)
    case Take
    show ?thesis
      using x86_loop_software [OF Cons.prems, of 15] Cons.IH
      by (cases "Software_allocate_loop 15 s"; cases "X86_allocate_loop 15 m"; cases "fst (X86_allocate_loop 15 m)")
        (auto simp: Take Software_allocate_search X86_allocate_tag_def)
  next
    case (Give t)
    then show ?thesis
      using Cons
      by (simp add: Software_free_tag_def X86_free_tag_def Software_mark_tag_free_def free_range x86_free_range del: atLeastAtMost_iff)
  qed
qed simp

text \<open>
  C31. The x86-64 manager, which repeats the search of the software manager with literal bounds and its own bitmap, is equivalent to it: for every sequence of
  allocations and releases both give the program exactly the same tags, whatever the processor reports.
\<close>

theorem x86_matches_software:
  "fst (tag_exec X86_allocate_tag X86_free_tag ops ([], X86TagManager_new cpuid)) =
   fst (tag_exec Software_allocate_tag Software_free_tag ops ([], SoftwareTagManager_new))"
  by (rule x86_exec_software [symmetric]) (simp_all add: SoftwareTagManager_new_def X86TagManager_new_def MIN_TAG_def)

text \<open>
  C32. Tagging a pointer and reading it back. For a pointer that leaves the tag bits free (bits 56 to 59 for the software manager; below \<open>2 ^ 56\<close> with
  hardware support and below \<open>2 ^ 48\<close> without it on x86-64) and a tag up to 15, the tag is read back, removing it gives the
  pointer, a second tag replaces the first, and different tags or pointers give different tagged pointers. A tag above 15 is an error in the software manager and
  leaves the pointer unchanged in the x86-64 manager.
\<close>

theorem tag_pointer_roundtrip:
  assumes "software_plain p" and "x86_plain m q" and "t \<le> 15" and "u \<le> 15" and "15 < bad"
  shows "(\<exists>p'. Software_tag_pointer p t = Inr p' \<and> Software_get_tag p' = t \<and> Software_untag_pointer p' = p \<and>
      Software_tag_pointer p' u = Software_tag_pointer p u \<and> (Software_tag_pointer p u = Inr p' \<longrightarrow> u = t)) \<and>
    X86_get_tag m (X86_tag_pointer m q t) = t \<and> X86_untag_pointer m (X86_tag_pointer m q t) = q \<and>
    X86_tag_pointer m (X86_tag_pointer m q t) u = X86_tag_pointer m q u \<and>
    (X86_tag_pointer m q u = X86_tag_pointer m q t \<longrightarrow> u = t) \<and>
    Software_tag_pointer p bad = Inl InvalidTag \<and> X86_tag_pointer m q bad = q"
proof -
  have tagged: "Software_tag_pointer r v = Inr (software_tagged r v)" if "v \<le> 15" for r v
    using that by (auto simp: Software_tag_pointer_def software_tagged_def MAX_TAG_def)
  show ?thesis
    unfolding tagged [OF assms(3)] tagged [OF assms(4)]
    using swp.get_tag [OF assms(1,3)] swp.untag_tag [OF assms(1,3)] swp.retag [OF assms(1,3,4)]
      swp.tag_inj [OF assms(1,1,4,3)] x86p.get_tag [OF assms(2,3)] x86p.untag_tag [OF assms(2,3)]
      x86p.retag [OF assms(2,3,4)] x86p.tag_inj [OF assms(2,2,4,3)] assms(5)
    by (auto simp: Software_tag_pointer_def X86_tag_pointer_def MAX_TAG_def)
qed

theorem tag_pointer_roundtrip_witness:
  "let m = X86TagManager_new (\<lambda>_. \<lparr>eax = 0, ebx = 0, ecx = 0, edx = 0\<rparr>) in
    Software_tag_pointer 0x1000 5 = Inr 0x0500000000001000 \<and> Software_get_tag 0x0500000000001000 = 5 \<and>
    X86_tag_pointer m 0x1000 5 = 0x0005000000001000 \<and> X86_untag_pointer m 0x0005000000001000 = 0x1000 \<and>
    X86_tag_pointer m 0x1000 20 = 0x1000"
proof -
  define m where "m = X86TagManager_new (\<lambda>_. \<lparr>eax = 0, ebx = 0, ecx = 0, edx = 0\<rparr>)"
  have flags: "\<not> has_hardware_tagging (x86_features m)"
    by (simp add: m_def X86TagManager_new_def X86FeatureFlags_detect_def has_hardware_tagging_def Let_def)
  have sw: "Software_tag_pointer 0x1000 5 = Inr 0x0500000000001000"
    by (simp add: Software_tag_pointer_def MAX_TAG_def push_bit_eq_mult)
  have x: "X86_tag_pointer m 0x1000 5 = 0x0005000000001000"
    using flags by (simp add: X86_tag_pointer_def push_bit_eq_mult)
  show ?thesis
    using tag_pointer_roundtrip [of "0x1000" m "0x1000" 5 6 20] sw x flags
    by (simp add: software_plain_def x86_plain_def flip: m_def)
qed

text \<open>
  Feature detection on x86-64. On a processor whose highest basic leaf, which \<open>cpuid\<close> reports in \<open>eax\<close> for leaf 0, is below
  \<open>0x80000000\<close> (every processor: the extended leaves start there), AMD's upper-address-ignore is never detected, so the manager uses hardware
  tagging exactly on Intel processors with leaf 7 and its \<open>LAM\<close> bit.
\<close>

theorem x86_detect_spec:
  assumes "eax (cpuid 0) < 0x80000000"
  shows "\<not> has_amd_uai (X86FeatureFlags_detect cpuid) \<and>
    (has_hardware_tagging (X86FeatureFlags_detect cpuid) \<longleftrightarrow>
      vendor_bytes (cpuid 0) = ascii ''GenuineIntel'' \<and> 7 \<le> eax (cpuid 0) \<and> bit (edx (cpuid 7)) 26)"
proof -
  have "\<not> 0x80000000 \<le> eax (cpuid 0)" using assms by simp
  moreover have "edx (cpuid 7) AND push_bit 26 1 \<noteq> 0 \<longleftrightarrow> bit (edx (cpuid 7)) 26"
    by (simp only: bit_iff_and_push_bit_not_eq_0)
  ultimately show ?thesis
    unfolding X86FeatureFlags_detect_def has_hardware_tagging_def Let_def by (auto split: if_split)
qed

theorem x86_detect_spec_witness:
  "let cpuid = (\<lambda>l :: 32 word. if l = 0 then \<lparr>eax = 16, ebx = 0x68747541, ecx = 0x444D4163, edx = 0x69746E65\<rparr>
      else \<lparr>eax = 0x80000020, ebx = 0, ecx = 0xFFFFFFFF, edx = 0xFFFFFFFF\<rparr>)
   in vendor_bytes (cpuid 0) = ascii ''AuthenticAMD'' \<and> \<not> has_hardware_tagging (X86FeatureFlags_detect cpuid)"
  using x86_detect_spec [of "\<lambda>l :: 32 word. if l = 0 then \<lparr>eax = 16, ebx = 0x68747541, ecx = 0x444D4163, edx = 0x69746E65\<rparr>
      else \<lparr>eax = 0x80000020, ebx = 0, ecx = 0xFFFFFFFF, edx = 0xFFFFFFFF\<rparr>"]
  by (simp add: vendor_bytes_def reg_bytes_def ascii_def drop_bit_eq_div of_char_def)

text \<open>
  The instructions as the Arm architecture describes them. \<open>tagged\<close> are the 16-byte granules of accessible memory that has allocation tags, one each, and
  \<open>excl\<close> the tags that the control register excludes from random choice. \<open>SUBP\<close> subtracts the sign-extended 56-bit addresses. \<open>STG\<close> and
  \<open>STZG\<close> store the logical tag of their address if it is a multiple of 16 (other addresses fault; nothing is said of them); \<open>LDG\<close> merges the tag of
  the granule into bits 56 to 59 of its destination register. \<open>GMI\<close> adds the logical tag to a set of tags, and \<open>IRG\<close> gives a pointer a tag that is
  neither in such a set nor excluded, if there is one. Of \<open>ADDG\<close> nothing is said: the instruction takes its tag offset as an immediate, and the register operand of
  the template has no encoding; \<open>isa_addg\<close> stands for whatever an assembler makes of it.
\<close>

definition granule :: "ptr64 \<Rightarrow> ptr64" where
  "granule p = drop_bit 4 (take_bit 56 p)"

definition granule_start :: "ptr64 \<Rightarrow> bool" where
  "granule_start p \<longleftrightarrow> take_bit 4 p = 0"

definition mte_laws :: "ptr64 set \<Rightarrow> 64 word \<Rightarrow> (ptr64 \<Rightarrow> Tag) mte_isa \<Rightarrow> bool" where
  "mte_laws tagged excl isa \<longleftrightarrow>
    (\<forall>p q. isa_subp isa p q = signed_take_bit 55 p - signed_take_bit 55 q) \<and>
    (\<forall>p M. granule_start p \<and> granule p \<in> tagged \<longrightarrow>
      isa_stg isa p M = M(granule p := Software_get_tag p) \<and> isa_stzg isa p M = M(granule p := Software_get_tag p)) \<and>
    (\<forall>p r M. granule p \<in> tagged \<longrightarrow> isa_ldg isa p r M = (r AND NOT tag_field) OR push_bit 56 (ucast (M (granule p) AND 0xF))) \<and>
    (\<forall>p m. isa_gmi isa p m = m OR push_bit (unat (Software_get_tag p)) 1) \<and>
    (\<forall>seed p m. (\<exists>t < 16. \<not> bit (m OR excl) t) \<longrightarrow>
      (\<exists>t < 16. \<not> bit (m OR excl) t \<and> isa_irg isa seed p m = (p AND NOT tag_field) OR push_bit 56 (word_of_nat t)))"

lemma tag_field_insert: "drop_bit 56 ((p AND NOT tag_field) OR push_bit 56 (x AND 0xF)) AND 0xF = x AND 0xF" for p x :: ptr64
  unfolding low_mask_15 by (intro bit_eqI) (auto simp: bit_simps bit_tag_field)





text \<open>
  The instructions that the library offers besides the manager give a block a new tag: a random tag chosen outside the set that \<open>GMI\<close> makes differs from
  the old one and from every tag in the set, on the same address, and after \<open>STZG\<close> through the new pointer the granule has the new tag, so that
  the old pointer no longer matches it.
\<close>

lemma mte_retag:
  assumes "mte_laws tagged excl isa" and "granule_start p" "granule p \<in> tagged"
    and "t < 16" "\<not> bit (m OR excl) t" "t \<noteq> unat (Software_get_tag p)"
    and q: "q = irg isa seed p (gmi isa p m)"
  shows "Software_get_tag q \<noteq> Software_get_tag p" "\<not> bit m (unat (Software_get_tag q))" "Software_untag_pointer q = Software_untag_pointer p"
    "stzg isa q M (granule p) = Software_get_tag q" "granule q = granule p"
proof -
  let ?m = "m OR push_bit (unat (Software_get_tag p)) 1"
  have g: "gmi isa p m = ?m" using assms(1) by (simp add: gmi_def mte_laws_def)
  have bm: "bit (?m OR excl) u \<longleftrightarrow> bit (m OR excl) u \<or> u = unat (Software_get_tag p)" if "u < 16" for u
    using that by (auto simp: bit_simps)
  have "\<exists>u < 16. \<not> bit (?m OR excl) u" using assms(4-6) bm by blast
  then obtain u where u: "u < 16" "\<not> bit (?m OR excl) u" "q = (p AND NOT tag_field) OR push_bit 56 (word_of_nat u)"
    using assms(1) unfolding q irg_def g mte_laws_def by meson
  have low: "(word_of_nat u :: ptr64) AND 0xF = word_of_nat u"
    using u(1) unfolding low_mask_15 take_bit_eq_mask [symmetric] by (simp add: take_bit_of_nat take_bit_nat_eq_self)
  have "take_bit 4 u = u" using u(1) by (simp add: take_bit_nat_eq_self)
  then have nib: "bit u i \<Longrightarrow> i < 4" for i by (metis bit_take_bit_iff)
  have "Software_get_tag q = ucast (word_of_nat u :: ptr64)"
    unfolding Software_get_tag_def u(3) using tag_field_insert [of p "word_of_nat u"] low by simp
  then have tag: "unat (Software_get_tag q) = u" using u(1) by (simp add: unsigned_ucast_eq unat_of_nat take_bit_nat_eq_self)
  then show "Software_get_tag q \<noteq> Software_get_tag p" "\<not> bit m (unat (Software_get_tag q))" using u(1,2) bm by (auto simp: bit_simps)
  show "Software_untag_pointer q = Software_untag_pointer p"
    unfolding software_untag_eq u(3) by (rule bit_eqI) (auto simp: bit_simps bit_tag_field dest: nib)
  show gr: "granule q = granule p"
    unfolding granule_def u(3) by (intro bit_eqI) (auto simp: bit_simps bit_tag_field)
  have "take_bit 4 q = take_bit 4 p" unfolding u(3) by (intro bit_eqI) (auto simp: bit_simps bit_tag_field)
  then have "granule_start q" using assms(2) by (simp add: granule_start_def)
  then show "stzg isa q M (granule p) = Software_get_tag q" using assms(1,3) gr by (simp add: stzg_def mte_laws_def)
qed

text \<open>
  C34. Bounded capabilities. A capability is only returned if it is valid and carries every requested permission, as the metadata query confirms; on
  AArch64 it is the given pointer with its bounds set. On a target without capabilities none is ever returned, and on RISC-V the address of the returned
  capability is 0 instead of the start of the block, because the code passes 0 as the new base; the hypothesis is the description of
  \<open>csetaddr\<close>: base plus offset of the result is the address that was set.
\<close>

theorem bounded_capability_spec:
  assumes "\<And>c a. cgetbase isa (csetaddr isa c a) + cgetoffset isa (csetaddr isa c a) = a"
    and "create_bounded_capability tgt isa p len perms = Some c"
  shows "tgt \<noteq> Other_target \<and> meta_tag (get_capability_meta tgt isa c) \<and>
    meta_permissions (get_capability_meta tgt isa c) AND perms = perms \<and>
    (tgt = Aarch64 \<longrightarrow> c = csetbound isa p len) \<and>
    (tgt = Riscv64 \<longrightarrow> meta_base (get_capability_meta tgt isa c) + meta_offset (get_capability_meta tgt isa c) = 0)"
  using assms by (cases tgt) (auto simp: create_bounded_capability_def get_capability_meta_def Let_def split: if_splits)

text \<open>A machine whose capabilities are a validity bit, permissions, base, length and address.\<close>

definition flat_isa :: "(bool \<times> 64 word \<times> 64 word \<times> 64 word \<times> 64 word) cheri_isa" where
  "flat_isa = \<lparr>cgetlen = (\<lambda>(v, pr, b, l, a). l), cgetbase = (\<lambda>(v, pr, b, l, a). b), cgetoffset = (\<lambda>(v, pr, b, l, a). a - b),
    cgettag = (\<lambda>(v, pr, b, l, a). if v then 1 else 0), cgetperm = (\<lambda>(v, pr, b, l, a). pr),
    csetboundsexact = (\<lambda>(v, pr, b, l, a) n. (v, pr, a, n, a)), csetbound = (\<lambda>(v, pr, b, l, a) n. (v, pr, a, n, a)),
    csetaddr = (\<lambda>(v, pr, b, l, a) x. (v, pr, b, l, x))\<rparr>"

theorem bounded_capability_spec_witness:
  "create_bounded_capability Riscv64 flat_isa (True, 0xFF, 0, 0x10000, 0x1000) 64 PERM_READ_WRITE = Some (True, 0xFF, 0x1000, 64, 0) \<and>
   meta_permissions (get_capability_meta Riscv64 flat_isa (True, 0xFF, 0x1000, 64, 0)) AND PERM_READ_WRITE = PERM_READ_WRITE"
proof -
  have c: "create_bounded_capability Riscv64 flat_isa (True, 0xFF, 0, 0x10000, 0x1000) 64 PERM_READ_WRITE = Some (True, 0xFF, 0x1000, 64, 0)"
    by (simp add: create_bounded_capability_def flat_isa_def PERM_READ_WRITE_def PERM_LOAD_def PERM_STORE_def PERM_LOAD_CAP_def
        PERM_STORE_CAP_def Let_def)
  have "cgetbase flat_isa (csetaddr flat_isa d a) + cgetoffset flat_isa (csetaddr flat_isa d a) = a" for d a
    by (cases d) (simp add: flat_isa_def)
  from bounded_capability_spec [OF this c] c show ?thesis by simp
qed

end
