(* ===== verification/RustText.thy ===== *)
theory RustText
  imports Prelude
begin

text \<open>
  The text operations of the Rust standard library that the metrics exporter uses: printing and parsing of decimal numbers,
  decoding of UTF-8, lines and words. A Rust string is the list of its bytes, as a \<open>string\<close>; decoded text is the
  list of its code points.
\<close>

subsection \<open>Decimal numbers\<close>

definition digit :: "nat \<Rightarrow> char" where
  "digit d = char_of (48 + d)"

definition digit_value :: "char \<Rightarrow> nat option" where
  "digit_value c = (let n = of_char c in if 48 \<le> n \<and> n \<le> 57 then Some (n - 48) else None)"

fun show_nat :: "nat \<Rightarrow> string" where
  "show_nat n = (if n < 10 then [digit n] else show_nat (n div 10) @ [digit (n mod 10)])"

declare show_nat.simps [simp del]

text \<open>\<open>from_str\<close> of an unsigned type with the largest value \<open>mx\<close>: an optional plus sign, then at least one digit, each step checked.\<close>

fun read_digits :: "nat \<Rightarrow> nat \<Rightarrow> string \<Rightarrow> nat option" where
  "read_digits mx acc [] = Some acc"
| "read_digits mx acc (c # cs) = (case digit_value c of None \<Rightarrow> None
     | Some d \<Rightarrow> if acc * 10 + d \<le> mx then read_digits mx (acc * 10 + d) cs else None)"

definition parse_uint :: "nat \<Rightarrow> string \<Rightarrow> nat option" where
  "parse_uint mx s = (let ds = (case s of c # cs \<Rightarrow> if c = CHR ''+'' then cs else s | [] \<Rightarrow> [])
     in if ds = [] then None else read_digits mx 0 ds)"

lemma digit_value_digit [simp]: "d < 10 \<Longrightarrow> digit_value (digit d) = Some d"
  by (simp add: digit_value_def digit_def)

lemma digit_neq: "d < 10 \<Longrightarrow> of_char c < (48 :: nat) \<Longrightarrow> digit d \<noteq> c"
  by (auto simp: digit_def)

lemma show_nat_digits: "c \<in> set (show_nat n) \<Longrightarrow> \<exists>d < 10. c = digit d"
proof (induction n rule: show_nat.induct)
  case (1 n)
  have m: "n mod 10 < 10" by simp
  show ?case
  proof (cases "n < 10")
    case True
    then show ?thesis using 1(2) show_nat.simps [of n] by auto
  next
    case False
    then have "c \<in> set (show_nat (n div 10)) \<or> c = digit (n mod 10)" using 1(2) show_nat.simps [of n] by auto
    then show ?thesis using 1(1) [OF False] m by blast
  qed
qed

lemma show_nat_nonempty [simp]: "show_nat n \<noteq> []"
  by (subst show_nat.simps) simp

lemma read_digits_append:
  "read_digits mx acc (xs @ ys) = (case read_digits mx acc xs of None \<Rightarrow> None | Some v \<Rightarrow> read_digits mx v ys)"
  by (induction mx acc xs rule: read_digits.induct) (auto split: option.split)

lemma read_digits_le: "read_digits mx acc xs = Some w \<Longrightarrow> acc \<le> mx \<Longrightarrow> w \<le> mx"
  by (induction mx acc xs rule: read_digits.induct) (auto split: option.splits if_splits)

lemma read_digits_mono: "read_digits mx acc xs = Some w \<Longrightarrow> mx \<le> mx' \<Longrightarrow> read_digits mx' acc xs = Some w"
  by (induction mx acc xs rule: read_digits.induct) (auto split: option.splits if_splits)

lemma read_show_nat: "n \<le> mx \<Longrightarrow> read_digits mx 0 (show_nat n) = Some n"
proof (induction n rule: show_nat.induct)
  case (1 n)
  show ?case
  proof (cases "n < 10")
    case False
    with 1 have "read_digits mx 0 (show_nat (n div 10)) = Some (n div 10)" by simp
    then show ?thesis using False 1(2) by (subst show_nat.simps) (simp add: read_digits_append mult.commute)
  qed (use 1(2) in \<open>subst show_nat.simps, simp\<close>)
qed

lemma show_nat_low: "of_char c < (48 :: nat) \<Longrightarrow> c \<notin> set (show_nat n)"
  using show_nat_digits [of c n] digit_neq by blast

text \<open>Parsing reads back what is printed, as long as it fits the type.\<close>

lemma parse_show_nat: "parse_uint mx (show_nat n) = (if n \<le> mx then Some n else None)"
proof -
  obtain c cs where s: "show_nat n = c # cs" by (cases "show_nat n") simp_all
  have "c \<noteq> CHR ''+''" using show_nat_low [of "CHR ''+''" n] s by auto
  then have e: "parse_uint mx (show_nat n) = read_digits mx 0 (show_nat n)" by (simp add: parse_uint_def s)
  show ?thesis
  proof (cases "n \<le> mx")
    case False
    have "read_digits mx 0 (show_nat n) = None"
    proof (rule ccontr)
      assume "read_digits mx 0 (show_nat n) \<noteq> None"
      then obtain v where v: "read_digits mx 0 (show_nat n) = Some v" by blast
      have "read_digits n 0 (show_nat n) = Some v" using read_digits_mono [OF v, of n] False by simp
      then have "v = n" using read_show_nat [of n n] by simp
      then show False using read_digits_le [OF v] False by simp
    qed
    then show ?thesis using e False by simp
  qed (use e read_show_nat in simp)
qed

subsection \<open>UTF-8\<close>

definition cont :: "nat \<Rightarrow> bool" where
  "cont b \<longleftrightarrow> 0x80 \<le> b \<and> b \<le> 0xBF"

text \<open>\<open>str::from_utf8\<close>: the well-formed sequences of the Unicode standard, without surrogates and overlong forms.\<close>

fun utf8_decode :: "nat list \<Rightarrow> nat list option" where
  "utf8_decode [] = Some []"
| "utf8_decode (b # bs) =
     (if b < 0x80 then map_option ((#) b) (utf8_decode bs)
      else if 0xC2 \<le> b \<and> b \<le> 0xDF
      then (case bs of c # r \<Rightarrow> if cont c then map_option ((#) (b mod 32 * 64 + c mod 64)) (utf8_decode r) else None | _ \<Rightarrow> None)
      else if 0xE0 \<le> b \<and> b \<le> 0xEF
      then (case bs of c # d # r \<Rightarrow>
              if cont c \<and> cont d \<and> (b = 0xE0 \<longrightarrow> 0xA0 \<le> c) \<and> (b = 0xED \<longrightarrow> c \<le> 0x9F)
              then map_option ((#) ((b mod 16 * 64 + c mod 64) * 64 + d mod 64)) (utf8_decode r) else None | _ \<Rightarrow> None)
      else if 0xF0 \<le> b \<and> b \<le> 0xF4
      then (case bs of c # d # e # r \<Rightarrow>
              if cont c \<and> cont d \<and> cont e \<and> (b = 0xF0 \<longrightarrow> 0x90 \<le> c) \<and> (b = 0xF4 \<longrightarrow> c \<le> 0x8F)
              then map_option ((#) (((b mod 8 * 64 + c mod 64) * 64 + d mod 64) * 64 + e mod 64)) (utf8_decode r) else None
            | _ \<Rightarrow> None)
      else None)"

abbreviation codes :: "string \<Rightarrow> nat list" where
  "codes s \<equiv> map of_char s"

lemma utf8_decode_ascii: "(\<And>b. b \<in> set bs \<Longrightarrow> b < 0x80) \<Longrightarrow> utf8_decode (bs @ r) = map_option ((@) bs) (utf8_decode r)"
proof (induction bs)
  case Nil
  show ?case by (cases "utf8_decode r") simp_all
next
  case (Cons b bs)
  then show ?case by (cases "utf8_decode r") simp_all
qed

subsection \<open>Lines and words\<close>

text \<open>\<open>lines().next()\<close>: the text before the first line feed, without a carriage return in front of that.\<close>

definition first_line :: "nat list \<Rightarrow> nat list option" where
  "first_line s = (if s = [] then None
     else let l = takeWhile (\<lambda>c. c \<noteq> 10) s
          in Some (if 10 \<in> set s \<and> l \<noteq> [] \<and> last l = 13 then butlast l else l))"

text \<open>\<open>char::is_whitespace\<close>: the code points with the property \<open>White_Space\<close>.\<close>

definition is_whitespace :: "nat \<Rightarrow> bool" where
  "is_whitespace c \<longleftrightarrow> 9 \<le> c \<and> c \<le> 13 \<or>
     c \<in> {0x20, 0x85, 0xA0, 0x1680, 0x2028, 0x2029, 0x202F, 0x205F, 0x3000} \<or> 0x2000 \<le> c \<and> c \<le> 0x200A"

function split_whitespace :: "nat list \<Rightarrow> nat list list" where
  "split_whitespace s = (let r = dropWhile is_whitespace s
     in if r = [] then []
        else takeWhile (\<lambda>c. \<not> is_whitespace c) r # split_whitespace (dropWhile (\<lambda>c. \<not> is_whitespace c) r))"
  by pat_completeness auto

termination
proof (relation "measure length")
  fix s r :: "nat list"
  assume r: "r = dropWhile is_whitespace s" "r \<noteq> []"
  have "\<not> is_whitespace (hd r)" using hd_dropWhile r by blast
  then obtain c cs where c: "r = c # cs" "\<not> is_whitespace c" using r(2) by (cases r) auto
  have "length (dropWhile (\<lambda>c. \<not> is_whitespace c) r) \<le> length cs" using c length_dropWhile_le [of _ cs] by simp
  also have "length cs < length r" using c by simp
  also have "length r \<le> length s" unfolding r(1) by (rule length_dropWhile_le)
  finally show "(dropWhile (\<lambda>c. \<not> is_whitespace c) r, s) \<in> measure length" by simp
qed simp

declare split_whitespace.simps [simp del]

text \<open>A word in front of a white space.\<close>

lemma split_whitespace_word:
  assumes "w \<noteq> []" and "\<And>c. c \<in> set w \<Longrightarrow> \<not> is_whitespace c" and "is_whitespace sp"
  shows "split_whitespace (w @ sp # r) = w # split_whitespace (sp # r)"
proof -
  have d: "dropWhile is_whitespace (w @ sp # r) = w @ sp # r" using assms(1,2) by (cases w) auto
  show ?thesis
    by (subst split_whitespace.simps) (use assms d in \<open>simp add: Let_def\<close>)
qed

lemma split_whitespace_skip: "is_whitespace c \<Longrightarrow> split_whitespace (c # s) = split_whitespace s"
  by (subst (1 2) split_whitespace.simps) simp

lemma split_whitespace_end:
  assumes "w \<noteq> []" and "\<And>c. c \<in> set w \<Longrightarrow> \<not> is_whitespace c"
  shows "split_whitespace w = [w]"
proof -
  have "dropWhile is_whitespace w = w" using assms by (cases w) auto
  moreover have e: "dropWhile (\<lambda>c. \<not> is_whitespace c) w = []" "takeWhile (\<lambda>c. \<not> is_whitespace c) w = w"
    using assms(2) by (simp_all add: dropWhile_eq_Nil_conv takeWhile_eq_all_conv)
  ultimately show ?thesis
    using assms(1) split_whitespace.simps [of w, unfolded Let_def] split_whitespace.simps [of "[]"] by (simp only: if_False e) simp
qed

end
