(* ===== verification/Float64.thy ===== *)
theory Float64
  imports RustText "HOL-Library.Log_Nat"
begin

text \<open>
  The part of floating-point arithmetic that the metrics exporter and the page utilization use: conversion of unsigned integers, division and
  multiplication of non-negative values, and the output format with two decimals. A finite \<open>f64\<close> or \<open>f32\<close> is the rational number it stands for; every operation
  rounds the exact result to 53 or 24 significant bits, to the nearest value and to the even one of two. The values that
  occur lie between \<open>2^-64\<close> and \<open>2^71\<close>, far from overflow and from the subnormal numbers of both formats.
\<close>

definition round_even :: "rat \<Rightarrow> int" where
  "round_even x = (let f = \<lfloor>x\<rfloor>; r = x - of_int f
     in if r < 1 / 2 then f else if 1 / 2 < r then f + 1 else if even f then f else f + 1)"

definition binary_exp :: "rat \<Rightarrow> int" where
  "binary_exp x = (case quotient_of x of (n, d) \<Rightarrow>
     let e = bitlen n - bitlen d in if 2 powi e \<le> x then e else e - 1)"

text \<open>A format with \<open>b\<close> fraction bits: 52 for \<open>f64\<close>, 23 for \<open>f32\<close>.\<close>

definition float_round :: "nat \<Rightarrow> rat \<Rightarrow> rat" where
  "float_round b x = (if x \<le> 0 then 0 else let u = 2 powi (binary_exp x - int b) in of_int (round_even (x / u)) * u)"

abbreviation f64_round :: "rat \<Rightarrow> rat" where
  "f64_round \<equiv> float_round 52"

abbreviation f32_round :: "rat \<Rightarrow> rat" where
  "f32_round \<equiv> float_round 23"

text \<open>\<open>{:.2}\<close>: the exact value in hundredths, rounded to the nearest.\<close>

definition hundredths :: "rat \<Rightarrow> nat" where
  "hundredths x = nat (round_even (x * 100))"

definition format_2 :: "rat \<Rightarrow> string" where
  "format_2 x = (let c = hundredths x in show_nat (c div 100) @ ''.'' @ [digit (c mod 100 div 10), digit (c mod 10)])"

subsection \<open>Rounding to integers\<close>

lemma round_even_bounds: "\<lfloor>x\<rfloor> \<le> round_even x" "round_even x \<le> \<lfloor>x\<rfloor> + 1"
  by (simp_all add: round_even_def Let_def)

lemma round_even_near: "\<bar>of_int (round_even x) - x\<bar> \<le> 1 / 2"
proof -
  obtain f where f: "\<lfloor>x\<rfloor> = f" "of_int f \<le> x" "x < of_int f + 1"
  proof (rule that [OF refl])
    show "of_int \<lfloor>x\<rfloor> \<le> x" "x < of_int \<lfloor>x\<rfloor> + 1" using floor_correct [of x] unfolding of_int_add of_int_1 by blast+
  qed
  then show ?thesis unfolding round_even_def Let_def f(1) by (auto simp: abs_if)
qed

lemma round_even_int [simp]: "round_even (of_int k) = k"
  by (simp add: round_even_def)

lemma round_even_mono: "x \<le> y \<Longrightarrow> round_even x \<le> round_even y"
proof (cases "\<lfloor>x\<rfloor> = \<lfloor>y\<rfloor>")
  case True
  assume "x \<le> y"
  then show ?thesis using True by (auto simp: round_even_def Let_def)
next
  case False
  assume "x \<le> y"
  then have "\<lfloor>x\<rfloor> \<le> \<lfloor>y\<rfloor>" by (rule floor_mono)
  then have "\<lfloor>x\<rfloor> + 1 \<le> \<lfloor>y\<rfloor>" using False by simp
  then show ?thesis using round_even_bounds(2) [of x] round_even_bounds(1) [of y] by linarith
qed

subsection \<open>Rounding to 53 bits\<close>

lemma powi_pos [simp]: "0 < (2 :: rat) powi e"
  by simp

lemma binary_exp_spec:
  assumes "0 < x"
  shows "2 powi binary_exp x \<le> x" and "x < 2 powi (binary_exp x + 1)"
proof -
  obtain n d where q: "quotient_of x = (n, d)" by fastforce
  have d: "0 < d" using quotient_of_denom_pos [OF q] .
  have x: "x = of_int n / of_int d" by (rule quotient_of_div [OF q])
  have n: "0 < n" using assms d by (simp add: x zero_less_divide_iff)
  define e where "e = bitlen n - bitlen d"
  have b: "2 powi (bitlen k - 1) \<le> (of_int k :: rat) \<and> of_int k < (2 :: rat) powi bitlen k" if "0 < k" for k
  proof -
    have l: "2 ^ nat (bitlen k - 1) \<le> k" "k < 2 ^ nat (bitlen k)" using bitlen_bounds [OF that] by simp_all
    have p: "0 < bitlen k" using bitlen_nonneg [of k] bitlen_eq_zero_iff [of k] that by linarith
    have "(of_int (2 ^ nat (bitlen k - 1)) :: rat) \<le> of_int k" "(of_int k :: rat) < of_int (2 ^ nat (bitlen k))"
      using l by (simp_all only: of_int_le_iff of_int_less_iff)
    then show ?thesis using p by (simp add: power_int_def)
  qed
  note bn = b [OF n] and bd = b [OF d]
  have dp: "0 < (of_int d :: rat)" using d by simp
  have "x < 2 powi bitlen n / 2 powi (bitlen d - 1)"
    unfolding x by (rule frac_less) (use bn bd n d in auto)
  also have "\<dots> = 2 powi (e + 1)" by (simp add: power_int_diff [symmetric] e_def algebra_simps)
  finally have hi: "x < 2 powi (e + 1)" .
  have "2 powi (e - 1) = (2 :: rat) powi (bitlen n - 1) / 2 powi bitlen d" by (simp add: power_int_diff [symmetric] e_def algebra_simps)
  also have "\<dots> \<le> x" unfolding x by (rule frac_le) (use bn bd n d in auto)
  finally have lo: "2 powi (e - 1) \<le> x" .
  have ex: "binary_exp x = (if 2 powi e \<le> x then e else e - 1)" by (simp add: binary_exp_def q e_def Let_def)
  show "2 powi binary_exp x \<le> x" "x < 2 powi (binary_exp x + 1)" using hi lo unfolding ex by simp_all
qed

lemma powi_less_exp: "(2 :: rat) powi a < 2 powi (b + 1) \<Longrightarrow> a \<le> b"
proof (rule ccontr)
  assume l: "(2 :: rat) powi a < 2 powi (b + 1)" and "\<not> a \<le> b"
  then have "(2 :: rat) powi (b + 1) \<le> 2 powi a" by (intro power_int_increasing) simp_all
  with l show False by simp
qed

lemma binary_exp_mono:
  assumes "0 < x" and "x \<le> y" shows "binary_exp x \<le> binary_exp y"
proof -
  have "(2 :: rat) powi binary_exp x < 2 powi (binary_exp y + 1)"
    using binary_exp_spec(1) [of x] binary_exp_spec(2) [of y] assms by linarith
  then show ?thesis by (rule powi_less_exp)
qed

lemma binary_exp_unique: "0 < x \<Longrightarrow> 2 powi e \<le> x \<Longrightarrow> x < 2 powi (e + 1) \<Longrightarrow> binary_exp x = e"
proof -
  assume x: "0 < x" "2 powi e \<le> x" "x < 2 powi (e + 1)"
  have "(2 :: rat) powi e < 2 powi (binary_exp x + 1)" "(2 :: rat) powi binary_exp x < 2 powi (e + 1)"
    using binary_exp_spec [OF x(1)] x by linarith+
  then show ?thesis using powi_less_exp by (intro antisym)
qed

lemma float_round_pos:
  assumes "0 < x"
  shows "float_round b x = of_int (round_even (x / 2 powi (binary_exp x - int b))) * 2 powi (binary_exp x - int b)"
  using assms by (simp add: float_round_def Let_def)

text \<open>The rounded value stays between the powers of two around the exact one, and its relative error is at most half a unit in the last place.\<close>

lemma powi_split: "(2 :: rat) powi e = 2 ^ b * 2 powi (e - int b)"
  by (simp add: power_int_diff)

lemma float_round_range:
  assumes "0 < x"
  shows "2 powi binary_exp x \<le> float_round b x" and "float_round b x \<le> 2 powi (binary_exp x + 1)"
proof -
  define u where "u = (2 :: rat) powi (binary_exp x - int b)"
  have u: "0 < u" by (simp add: u_def)
  have lo: "2 ^ b * u \<le> x" using binary_exp_spec(1) [OF assms] powi_split [of "binary_exp x"] by (simp add: u_def)
  have e1: "(2 :: rat) powi (binary_exp x + 1) = 2 ^ Suc b * u" by (simp add: u_def power_int_diff power_int_add)
  have hi: "x < 2 ^ Suc b * u" using binary_exp_spec(2) [OF assms] e1 by simp
  have "of_int (2 ^ b) \<le> x / u" "x / u \<le> of_int (2 ^ Suc b)" using lo hi u by (simp_all add: pos_le_divide_eq pos_divide_le_eq)
  then have "2 ^ b \<le> round_even (x / u)" "round_even (x / u) \<le> 2 ^ Suc b"
    using round_even_mono [of "of_int (2 ^ b)" "x / u"] round_even_mono [of "x / u" "of_int (2 ^ Suc b)"]
    unfolding round_even_int by blast+
  then have "(of_int (2 ^ b) :: rat) \<le> of_int (round_even (x / u))" "(of_int (round_even (x / u)) :: rat) \<le> of_int (2 ^ Suc b)"
    by (simp_all only: of_int_le_iff)
  then have "2 ^ b * u \<le> of_int (round_even (x / u)) * u" "of_int (round_even (x / u)) * u \<le> 2 ^ Suc b * u"
    using u by simp_all
  then show "2 powi binary_exp x \<le> float_round b x" "float_round b x \<le> 2 powi (binary_exp x + 1)"
    unfolding float_round_pos [OF assms] u_def [symmetric] e1 powi_split [of "binary_exp x" b] by simp_all
qed

lemma float_round_mono: "x \<le> y \<Longrightarrow> float_round b x \<le> float_round b y"
proof (cases "0 < x")
  case False
  assume "x \<le> y"
  show ?thesis
  proof (cases "0 < y")
    case True
    have "0 \<le> float_round b y" by (rule order_trans [OF _ float_round_range(1) [OF True]]) simp
    then show ?thesis using False by (simp add: float_round_def)
  qed (use False in \<open>simp add: float_round_def\<close>)
next
  case x: True
  assume le: "x \<le> y"
  then have y: "0 < y" using x by simp
  show ?thesis
  proof (cases "binary_exp x = binary_exp y")
    case True
    have "round_even (x / 2 powi (binary_exp y - int b)) \<le> round_even (y / 2 powi (binary_exp y - int b))"
      by (rule round_even_mono) (use le in \<open>simp add: divide_right_mono\<close>)
    then show ?thesis unfolding float_round_pos [OF x] float_round_pos [OF y] True by simp
  next
    case False
    then have "binary_exp x + 1 \<le> binary_exp y" using binary_exp_mono [OF x le] by simp
    then have "(2 :: rat) powi (binary_exp x + 1) \<le> 2 powi binary_exp y" by (intro power_int_increasing) simp_all
    then show ?thesis using float_round_range(2) [OF x, of b] float_round_range(1) [OF y, of b] by linarith
  qed
qed

lemma float_round_error:
  assumes "0 \<le> x" shows "\<bar>float_round b x - x\<bar> \<le> x / 2 ^ Suc b"
proof (cases "0 < x")
  case True
  define u where "u = (2 :: rat) powi (binary_exp x - int b)"
  have u: "0 < u" by (simp add: u_def)
  have lo: "2 ^ b * u \<le> x" using binary_exp_spec(1) [OF True] powi_split [of "binary_exp x"] by (simp add: u_def)
  have "float_round b x - x = (of_int (round_even (x / u)) - x / u) * u"
    unfolding float_round_pos [OF True] u_def [symmetric] using u by (simp add: algebra_simps)
  then have "\<bar>float_round b x - x\<bar> = \<bar>of_int (round_even (x / u)) - x / u\<bar> * u" using u by (simp add: abs_mult)
  also have "\<dots> \<le> 1 / 2 * u" by (rule mult_right_mono [OF round_even_near]) (use u in simp)
  also have "\<dots> \<le> x / 2 ^ Suc b" using lo by (simp add: pos_le_divide_eq mult.commute)
  finally show ?thesis .
qed (use assms in \<open>simp add: float_round_def\<close>)

lemma float_round_exact:
  assumes "0 < x" and "x = of_int k * 2 powi (binary_exp x - int b)" shows "float_round b x = x"
proof -
  have "x / 2 powi (binary_exp x - int b) = of_int k" using assms(2) by (simp add: field_simps)
  then show ?thesis unfolding float_round_pos [OF assms(1)] using assms(2) by simp
qed

text \<open>A number with at most \<open>b + 1\<close> significant bits is not changed.\<close>

lemma float_round_dyadic:
  assumes "0 < m" and "m \<le> 2 ^ Suc b" and "x = of_int m * 2 powi e"
  shows "float_round b x = x"
proof -
  have x: "0 < x" using assms(1,3) by simp
  let ?E = "binary_exp x"
  have "(of_int m :: rat) \<le> of_int (2 ^ Suc b)" using assms(2) by (simp only: of_int_le_iff)
  then have "x \<le> 2 ^ Suc b * 2 powi e" unfolding assms(3) by (intro mult_right_mono) simp_all
  also have "\<dots> = 2 powi (int (Suc b) + e)" using power_int_of_nat [of "2 :: rat" "Suc b"] by (simp add: power_int_add)
  finally have hi: "x \<le> 2 powi (int (Suc b) + e)" .
  have le: "?E \<le> int (Suc b) + e" using hi binary_exp_spec(1) [OF x] powi_less_exp [of ?E "int (Suc b) + e"]
      power_int_strict_increasing [of "int (Suc b) + e" "int (Suc b) + e + 1" "2 :: rat"] by linarith
  show ?thesis
  proof (cases "?E = int (Suc b) + e")
    case True
    then have "x = 2 powi ?E" using hi binary_exp_spec(1) [OF x] by simp
    then have "x = of_int (2 ^ b) * 2 powi (?E - int b)" using powi_split [of ?E b] by simp
    then show ?thesis by (rule float_round_exact [OF x])
  next
    case False
    define j where "j = nat (e - ?E + int b)"
    have "e = int j + (?E - int b)" using False le by (simp add: j_def)
    then have "x = of_int m * 2 powi (int j + (?E - int b))" using assms(3) by simp
    also have "\<dots> = of_int (m * 2 ^ j) * 2 powi (?E - int b)" by (simp add: power_int_add)
    finally show ?thesis by (rule float_round_exact [OF x])
  qed
qed

lemma float_round_0 [simp]: "float_round b 0 = 0"
  by (simp add: float_round_def)

lemma float_round_1 [simp]: "float_round b 1 = 1"
proof (rule float_round_dyadic [of 1 _ _ 0])
  show "1 \<le> (2 :: int) ^ Suc b" by (rule one_le_power) simp
qed simp_all

lemma f64_round_100 [simp]: "f64_round 100 = 100"
  by (rule float_round_dyadic [of 100 _ _ 0]) simp_all

end
