(* ===== verification/Vmpc.thy ===== *)
theory Vmpc
  imports Page Float64
begin

text \<open>
  Page tables and page compaction (\<open>aethalloc-vmpc/src/page_table.rs\<close> and \<open>compactor.rs\<close>). The file access to
  \<open>/proc/self/pagemap\<close> and the system calls of the compactor are parameters; a failing call sets \<open>errno\<close>, which the code reads
  back later. The locale \<open>vm_kernel\<close> states what the manual pages say of the calls, failures included. The floating-point
  type of the utilization threshold is a type parameter, as the compactor only stores it.
\<close>

subsection \<open>Entries of the page map\<close>

definition PAGEMAP_ENTRY_SIZE :: usize where
  "PAGEMAP_ENTRY_SIZE = 8"

record PageMapEntry =
  raw :: "64 word"

definition PageMapEntry_new :: "64 word \<Rightarrow> PageMapEntry" where
  "PageMapEntry_new r = \<lparr>raw = r\<rparr>"

definition is_present :: "PageMapEntry \<Rightarrow> bool" where
  "is_present e \<longleftrightarrow> drop_bit 63 (raw e) AND 1 = 1"

definition is_swapped :: "PageMapEntry \<Rightarrow> bool" where
  "is_swapped e \<longleftrightarrow> drop_bit 62 (raw e) AND 1 = 1"

definition is_file_mapped :: "PageMapEntry \<Rightarrow> bool" where
  "is_file_mapped e \<longleftrightarrow> drop_bit 61 (raw e) AND 1 = 1"

definition page_frame_number :: "PageMapEntry \<Rightarrow> 64 word" where
  "page_frame_number e = raw e AND (push_bit 55 1 - 1)"

text \<open>The product wraps in the release profile.\<close>

definition PageMapEntry_physical_address :: "PageMapEntry \<Rightarrow> 64 word option" where
  "PageMapEntry_physical_address e =
    (if is_present e \<and> \<not> is_swapped e then Some (page_frame_number e * word_of_nat PAGE_SIZE) else None)"

subsection \<open>PageTableTracker\<close>

text \<open>\<open>pread fd n off\<close> is the result of the call and the content of the eight-byte buffer after it.\<close>

type_synonym pread = "int \<Rightarrow> usize \<Rightarrow> int \<Rightarrow> int \<times> 64 word"

record PageTableTracker =
  pagemap_fd :: "int option"

text \<open>With the feature \<open>std\<close> the file is opened, and a failure is a panic (\<open>None\<close>).\<close>

definition open_pagemap :: "int \<Rightarrow> int option" where
  "open_pagemap fd = (if fd < 0 then None else Some fd)"

definition PageTableTracker_new :: "bool \<Rightarrow> int \<Rightarrow> PageTableTracker option" where
  "PageTableTracker_new std fd =
    (if std then map_option (\<lambda>fd. \<lparr>pagemap_fd = Some fd\<rparr>) (open_pagemap fd) else Some \<lparr>pagemap_fd = None\<rparr>)"

definition read_pagemap_entry :: "pread \<Rightarrow> int \<Rightarrow> usize \<Rightarrow> int + PageMapEntry" where
  "read_pagemap_entry pread fd addr =
    (let page_offset = int (addr div PAGE_SIZE);
         file_offset = page_offset * int PAGEMAP_ENTRY_SIZE;
         (n, entry) = pread fd 8 file_offset
     in if n \<noteq> 8 then Inl (-1) else Inr (PageMapEntry_new entry))"

definition query_page :: "bool \<Rightarrow> pread \<Rightarrow> PageTableTracker \<Rightarrow> usize \<Rightarrow> PageMapEntry option" where
  "query_page std pread t addr =
    (if std then
       (case pagemap_fd t of None \<Rightarrow> None
        | Some fd \<Rightarrow> (case read_pagemap_entry pread fd addr of Inl _ \<Rightarrow> None | Inr e \<Rightarrow> Some e))
     else None)"

definition same_physical_page :: "bool \<Rightarrow> pread \<Rightarrow> PageTableTracker \<Rightarrow> usize \<Rightarrow> usize \<Rightarrow> bool" where
  "same_physical_page std pread t addr1 addr2 \<longleftrightarrow>
    (case (query_page std pread t addr1, query_page std pread t addr2) of
       (Some e1, Some e2) \<Rightarrow> is_present e1 \<and> is_present e2 \<and> page_frame_number e1 = page_frame_number e2
     | _ \<Rightarrow> False)"

definition Tracker_physical_address :: "bool \<Rightarrow> pread \<Rightarrow> PageTableTracker \<Rightarrow> usize \<Rightarrow> 64 word option" where
  "Tracker_physical_address std pread t addr =
    (case query_page std pread t addr of None \<Rightarrow> None | Some e \<Rightarrow> PageMapEntry_physical_address e)"

text \<open>Dropping the tracker closes its file: the open descriptors after it.\<close>

definition PageTableTracker_drop :: "bool \<Rightarrow> PageTableTracker \<Rightarrow> int set \<Rightarrow> int set" where
  "PageTableTracker_drop std t fds = (if std then (case pagemap_fd t of Some fd \<Rightarrow> fds - {fd} | None \<Rightarrow> fds) else fds)"

lemma tracker_closes:
  assumes "PageTableTracker_new std fd = Some t" and "fd \<notin> fds"
  shows "PageTableTracker_drop std t (if std then insert fd fds else fds) = fds"
  using assms by (auto simp: PageTableTracker_new_def PageTableTracker_drop_def open_pagemap_def split: if_splits)

subsection \<open>Utilization of a page\<close>

record PageUtilization =
  page_addr :: usize
  allocated_bytes :: usize
  total_bytes :: usize

text \<open>In \<open>f32\<close> arithmetic; the threshold is a finite number.\<close>

definition utilization :: "PageUtilization \<Rightarrow> rat" where
  "utilization u = (if total_bytes u = 0 then 0
     else f32_round (f32_round (of_nat (allocated_bytes u)) / f32_round (of_nat (total_bytes u))))"

definition is_sparse :: "PageUtilization \<Rightarrow> rat \<Rightarrow> bool" where
  "is_sparse u threshold \<longleftrightarrow> utilization u < threshold"

lemma f32_small: "0 < n \<Longrightarrow> n \<le> 2 ^ 24 \<Longrightarrow> f32_round (of_nat n / 2 ^ k) = of_nat n / 2 ^ k"
  by (rule float_round_dyadic [of "int n" _ _ "- int k"]) (simp_all add: power_int_minus field_simps)

text \<open>For a page, or a range of up to \<open>2^24\<close> bytes whose size is a power of two, the three roundings are exact, and the comparison with the threshold decides for the exact ratio.\<close>

lemma utilization_exact:
  assumes "total_bytes u = 2 ^ k" and "allocated_bytes u \<le> 2 ^ 24" and "k \<le> 24"
  shows "utilization u = of_nat (allocated_bytes u) / 2 ^ k"
    and "is_sparse u threshold \<longleftrightarrow> of_nat (allocated_bytes u) < threshold * of_nat (total_bytes u)"
proof -
  have k: "(2 :: nat) ^ k \<le> 2 ^ 24" using assms(3) by (intro power_increasing) simp_all
  have t: "f32_round (of_nat (total_bytes u)) = 2 ^ k" using f32_small [of "2 ^ k" 0] k assms(1) by simp
  show e: "utilization u = of_nat (allocated_bytes u) / 2 ^ k"
  proof (cases "allocated_bytes u = 0")
    case False
    then have "f32_round (of_nat (allocated_bytes u)) = of_nat (allocated_bytes u)" using f32_small [of "allocated_bytes u" 0] assms(2) by simp
    then show ?thesis using f32_small [of "allocated_bytes u" k] t False assms(1,2) by (simp add: utilization_def)
  qed (simp add: utilization_def)
  show "is_sparse u threshold \<longleftrightarrow> of_nat (allocated_bytes u) < threshold * of_nat (total_bytes u)"
    unfolding is_sparse_def e assms(1) by (simp add: divide_less_eq)
qed

subsection \<open>System calls of the compactor\<close>

datatype CompactError = InvalidAddress | PermissionDenied | OutOfMemory | CrossProcessFailed | Unknown int

datatype CompactResult = Success | PartialSuccess usize | Failed CompactError | NoAction

text \<open>The addresses and lengths of a vector of buffers.\<close>

record iovec =
  iov_base :: addr
  iov_len :: usize

text \<open>
  Each call gives an error number (\<open>Inl\<close>) or a result (\<open>Inr\<close>), and the address space after it. \<open>vm_mmap\<close> maps private anonymous
  memory anywhere, \<open>vm_mmap_fixed\<close> at a given address with \<open>MAP_FIXED\<close>.
\<close>

record vm_calls =
  vm_mmap :: "usize \<Rightarrow> os \<Rightarrow> (int + addr) \<times> os"
  vm_mmap_fixed :: "addr \<Rightarrow> usize \<Rightarrow> os \<Rightarrow> (int + addr) \<times> os"
  vm_munmap :: "addr \<Rightarrow> usize \<Rightarrow> os \<Rightarrow> (int + unit) \<times> os"
  vm_mremap :: "addr \<Rightarrow> usize \<Rightarrow> usize \<Rightarrow> 32 word \<Rightarrow> addr \<Rightarrow> os \<Rightarrow> (int + addr) \<times> os"
  vm_process_writev :: "int \<Rightarrow> iovec list \<Rightarrow> iovec list \<Rightarrow> os \<Rightarrow> (int + usize) \<times> os"
  vm_process_readv :: "int \<Rightarrow> iovec list \<Rightarrow> iovec list \<Rightarrow> os \<Rightarrow> (int + usize) \<times> os"

record process =
  pr_os :: os
  pr_errno :: int

definition syscall :: "(os \<Rightarrow> (int + 'a) \<times> os) \<Rightarrow> process \<Rightarrow> 'a option \<times> process" where
  "syscall f w = (case f (pr_os w) of
     (Inl e, s) \<Rightarrow> (None, \<lparr>pr_os = s, pr_errno = e\<rparr>)
   | (Inr x, s) \<Rightarrow> (Some x, w\<lparr>pr_os := s\<rparr>))"

text \<open>The error numbers of Linux: \<open>EPERM\<close> 1, \<open>ENOMEM\<close> 12, \<open>EACCES\<close> 13, \<open>EFAULT\<close> 14, \<open>EINVAL\<close> 22.\<close>

definition CompactError_from_errno :: "process \<Rightarrow> CompactError" where
  "CompactError_from_errno w =
    (let errno = pr_errno w in
     if errno = 22 then InvalidAddress
     else if errno = 12 then OutOfMemory
     else if errno = 1 then PermissionDenied
     else if errno = 13 then PermissionDenied
     else if errno = 14 then InvalidAddress
     else Unknown errno)"

definition MREMAP_FIXED :: "32 word" where "MREMAP_FIXED = 2"

definition mremap_wrapper :: "vm_calls \<Rightarrow> addr \<Rightarrow> usize \<Rightarrow> usize \<Rightarrow> 32 word \<Rightarrow> addr option \<Rightarrow> process
    \<Rightarrow> (CompactError + addr) \<times> process" where
  "mremap_wrapper V old_addr old_size new_size flags new_addr w =
    (let (result, w') =
       (case new_addr of
          Some a \<Rightarrow> syscall (vm_mremap V old_addr old_size new_size (flags OR MREMAP_FIXED) a) w
        | None \<Rightarrow> syscall (vm_mremap V old_addr old_size new_size flags 0) w)
     in case result of None \<Rightarrow> (Inl (CompactError_from_errno w'), w') | Some p \<Rightarrow> (Inr p, w'))"

definition process_vm_writev :: "vm_calls \<Rightarrow> int \<Rightarrow> iovec list \<Rightarrow> iovec list \<Rightarrow> process \<Rightarrow> (CompactError + usize) \<times> process" where
  "process_vm_writev V pid local remote w =
    (case syscall (vm_process_writev V pid local remote) w of
       (None, w') \<Rightarrow> (Inl (CompactError_from_errno w'), w') | (Some n, w') \<Rightarrow> (Inr n, w'))"

definition process_vm_readv :: "vm_calls \<Rightarrow> int \<Rightarrow> iovec list \<Rightarrow> iovec list \<Rightarrow> process \<Rightarrow> (CompactError + usize) \<times> process" where
  "process_vm_readv V pid local remote w =
    (case syscall (vm_process_readv V pid local remote) w of
       (None, w') \<Rightarrow> (Inl (CompactError_from_errno w'), w') | (Some n, w') \<Rightarrow> (Inr n, w'))"

text \<open>A buffer is a slice: its address and length.\<close>

definition make_iovec :: "addr \<times> usize \<Rightarrow> iovec" where
  "make_iovec buf = \<lparr>iov_base = fst buf, iov_len = snd buf\<rparr>"

definition make_iovec_mut :: "addr \<times> usize \<Rightarrow> iovec" where
  "make_iovec_mut buf = \<lparr>iov_base = fst buf, iov_len = snd buf\<rparr>"

subsection \<open>Compactor\<close>

datatype CompactStrategy = InPlace | Relocate usize | Auto

record 'f CompactConfig =
  utilization_threshold :: 'f
  min_pages_to_compact :: usize
  max_pages_per_pass :: usize
  strategy :: CompactStrategy

text \<open>The literal \<open>0.5\<close> of the default is the argument.\<close>

definition CompactConfig_default :: "'f \<Rightarrow> 'f CompactConfig" where
  "CompactConfig_default half = \<lparr>utilization_threshold = half, min_pages_to_compact = 2, max_pages_per_pass = 256, strategy = Auto\<rparr>"

record 'f Compactor =
  config :: "'f CompactConfig"

definition Compactor_new :: "'f CompactConfig \<Rightarrow> 'f Compactor" where
  "Compactor_new c = \<lparr>config = c\<rparr>"

definition copy_to :: "addr \<Rightarrow> addr \<Rightarrow> usize \<Rightarrow> process \<Rightarrow> process" where
  "copy_to src dst n w = w\<lparr>pr_os := (pr_os w)\<lparr>mem := copy_nonoverlapping src dst n (mem (pr_os w))\<rparr>\<rparr>"

text \<open>Step 3 when \<open>munmap\<close> fails.\<close>

definition relocate_restore :: "vm_calls \<Rightarrow> addr \<Rightarrow> addr \<Rightarrow> usize \<Rightarrow> process \<Rightarrow> (CompactError + CompactResult) \<times> process" where
  "relocate_restore V src temp sz w =
    (let (restore, w1) = syscall (vm_mmap_fixed V src sz) w;
         w2 = (if restore \<noteq> None then copy_to temp src sz w1 else w1);
         (_, w3) = syscall (vm_munmap V temp sz) w2
     in (Inl (Unknown (pr_errno w3)), w3))"

text \<open>Steps 4 and 5, when the region is unmapped.\<close>

definition relocate_finish :: "vm_calls \<Rightarrow> addr \<Rightarrow> addr \<Rightarrow> usize \<Rightarrow> process \<Rightarrow> (CompactError + CompactResult) \<times> process" where
  "relocate_finish V src temp sz w =
    (case syscall (vm_mmap_fixed V src sz) w of
       (None, w1) \<Rightarrow> (let (_, w2) = syscall (vm_munmap V temp sz) w1 in (Inl (Unknown (pr_errno w2)), w2))
     | (Some _, w1) \<Rightarrow> (let (_, w2) = syscall (vm_munmap V temp sz) (copy_to temp src sz w1) in (Inr Success, w2)))"

definition try_relocate_page :: "vm_calls \<Rightarrow> addr \<Rightarrow> usize \<Rightarrow> process \<Rightarrow> (CompactError + CompactResult) \<times> process" where
  "try_relocate_page V src sz w =
    (if sz = 0 \<or> sz mod PAGE_SIZE \<noteq> 0 then (Inl InvalidAddress, w)
     else case syscall (vm_mmap V sz) w of
       (None, w1) \<Rightarrow> (Inl OutOfMemory, w1)
     | (Some temp, w1) \<Rightarrow>
         (case syscall (vm_munmap V src sz) (copy_to src temp sz w1) of
            (None, w2) \<Rightarrow> relocate_restore V src temp sz w2
          | (Some _, w2) \<Rightarrow> relocate_finish V src temp sz w2))"

definition compact_pages :: "vm_calls \<Rightarrow> addr \<Rightarrow> usize \<Rightarrow> process \<Rightarrow> (CompactError + CompactResult) \<times> process" where
  "compact_pages V src sz w = try_relocate_page V src sz w"

subsection \<open>The laws of the calls\<close>

text \<open>\<open>unharmed D s s'\<close>: the addresses \<open>D\<close> are mapped in \<open>s'\<close> with the bytes they have in \<open>s\<close>.\<close>

definition unharmed :: "addr set \<Rightarrow> os \<Rightarrow> os \<Rightarrow> bool" where
  "unharmed D s s' \<longleftrightarrow> D \<subseteq> mapped s' \<and> (\<forall>a \<in> D. mem s' a = mem s a)"

lemma unharmed_trans: "unharmed D s s' \<Longrightarrow> unharmed D s' s'' \<Longrightarrow> unharmed D s s''"
  by (auto simp: unharmed_def)

lemma unharmed_subset: "unharmed D s s' \<Longrightarrow> E \<subseteq> D \<Longrightarrow> unharmed E s s'"
  by (auto simp: unharmed_def)

lemma unharmed_refl: "D \<subseteq> mapped s \<Longrightarrow> unharmed D s s"
  by (simp add: unharmed_def)

text \<open>
  A failed \<open>mmap\<close> or \<open>munmap\<close> has no effect; a failed \<open>mmap\<close> with \<open>MAP_FIXED\<close> may have discarded what was mapped in the range.
\<close>

locale vm_kernel =
  fixes V :: vm_calls
  assumes vm_mmap_err: "vm_mmap V len s = (Inl e, s') \<Longrightarrow> s' = s"
    and vm_mmap_ok: "vm_mmap V len s = (Inr p, s') \<Longrightarrow> 0 < len \<Longrightarrow> len mod 4096 = 0 \<Longrightarrow> pages_granted (len div 4096) s p s'"
    and vm_fixed_err: "vm_mmap_fixed V p len s = (Inl e, s') \<Longrightarrow>
      mapped s' \<subseteq> mapped s \<and> unharmed (mapped s - {p..<p + len}) s s'"
    and vm_fixed_ok: "vm_mmap_fixed V p len s = (Inr q, s') \<Longrightarrow> len mod 4096 = 0 \<Longrightarrow>
      mapped s' = mapped s \<union> {p..<p + len} \<and> unharmed (mapped s - {p..<p + len}) s s'"
    and vm_munmap_err: "vm_munmap V p len s = (Inl e, s') \<Longrightarrow> s' = s"
    and vm_munmap_ok: "vm_munmap V p len s = (Inr u, s') \<Longrightarrow> len mod 4096 = 0 \<Longrightarrow>
      mapped s' = mapped s - {p..<p + len} \<and> unharmed (mapped s') s s'"
begin

text \<open>Whether a call to \<open>munmap\<close> succeeds or not, memory outside its range stays.\<close>

lemma munmap_any:
  assumes "syscall (vm_munmap V p len) w = (r, w')" and "len mod 4096 = 0"
    and "D \<subseteq> mapped (pr_os w)" and "D \<inter> {p..<p + len} = {}"
  shows "unharmed D (pr_os w) (pr_os w')"
proof -
  obtain x s' where x: "vm_munmap V p len (pr_os w) = (x, s')" by fastforce
  then have s': "pr_os w' = s'" using assms(1) by (cases x) (auto simp: syscall_def)
  show ?thesis
  proof (cases x)
    case (Inl e)
    then have "s' = pr_os w" using vm_munmap_err x by blast
    then show ?thesis using s' assms(3) by (simp add: unharmed_refl)
  next
    case (Inr u)
    then have "mapped s' = mapped (pr_os w) - {p..<p + len} \<and> unharmed (mapped s') (pr_os w) s'" using vm_munmap_ok [of p len "pr_os w" u s'] x assms(2) by metis
    then show ?thesis using s' assms(3,4) unharmed_subset by blast
  qed
qed

text \<open>After the copy back from \<open>temp\<close> into the freshly mapped region, the region has the bytes \<open>m\<close> that \<open>temp\<close> held.\<close>

lemma copy_back:
  assumes "mapped s' = mapped s \<union> {src..<src + sz} \<and> unharmed (mapped s - {src..<src + sz}) s s'"
    and "{temp..<temp + sz} \<subseteq> mapped s" and "{src..<src + sz} \<inter> {temp..<temp + sz} = {}"
    and "\<And>i. i < sz \<Longrightarrow> mem s (temp + i) = m (src + i)"
    and "D \<subseteq> mapped s" and "\<And>a. a \<in> D - {src..<src + sz} \<Longrightarrow> mem s a = m a"
  shows "unharmed (D \<union> {src..<src + sz}) \<lparr>mem = m, mapped = X\<rparr> (s'\<lparr>mem := copy_nonoverlapping temp src sz (mem s')\<rparr>)"
proof -
  have t: "mem s' (temp + i) = m (src + i)" if "i < sz" for i
  proof -
    have "temp + i \<in> mapped s - {src..<src + sz}" using assms(2,3) that by auto
    then show ?thesis using assms(1,4) that by (auto simp: unharmed_def)
  qed
  have "copy_nonoverlapping temp src sz (mem s') a = m a" if "a \<in> {src..<src + sz}" for a
    using that t [of "a - src"] by (auto simp: copy_nonoverlapping_def)
  moreover have "copy_nonoverlapping temp src sz (mem s') a = m a" if "a \<in> D - {src..<src + sz}" for a
    using that assms(1,5,6) by (auto simp: copy_nonoverlapping_def unharmed_def)
  ultimately show ?thesis using assms(1,5) by (auto simp: unharmed_def)
qed

text \<open>
  The situation after the copy into the temporary buffer: \<open>s\<close> is the address space at the call, \<open>w\<close> the process now; the buffer
  lies outside the memory mapped at the call and holds the bytes of the region.
\<close>

definition buffered :: "os \<Rightarrow> addr \<Rightarrow> addr \<Rightarrow> usize \<Rightarrow> process \<Rightarrow> bool" where
  "buffered s src temp sz w \<longleftrightarrow> sz mod 4096 = 0 \<and> {src..<src + sz} \<subseteq> mapped s \<and> {temp..<temp + sz} \<inter> mapped s = {} \<and>
    {temp..<temp + sz} \<subseteq> mapped (pr_os w) \<and> (\<forall>i. i < sz \<longrightarrow> mem (pr_os w) (temp + i) = mem s (src + i)) \<and>
    unharmed (mapped s - {src..<src + sz}) s (pr_os w)"

lemma buffered_restored:
  assumes "buffered s src temp sz w" and "syscall (vm_mmap_fixed V src sz) w = (Some q, w1)"
  shows "unharmed (mapped s) s (pr_os (copy_to temp src sz w1))"
proof -
  have f: "mapped (pr_os w1) = mapped (pr_os w) \<union> {src..<src + sz} \<and> unharmed (mapped (pr_os w) - {src..<src + sz}) (pr_os w) (pr_os w1)"
    using assms vm_fixed_ok [of src sz "pr_os w"] by (auto simp: syscall_def buffered_def split: prod.splits sum.splits)
  have "unharmed ((mapped s - {src..<src + sz}) \<union> {src..<src + sz}) \<lparr>mem = mem s, mapped = mapped s\<rparr>
      ((pr_os w1)\<lparr>mem := copy_nonoverlapping temp src sz (mem (pr_os w1))\<rparr>)"
    by (rule copy_back [OF f]) (use assms(1) [unfolded buffered_def unharmed_def] in blast)+
  then show ?thesis using assms(1) by (auto simp: copy_to_def unharmed_def buffered_def)
qed

lemma buffered_refused:
  assumes "buffered s src temp sz w" and "syscall (vm_mmap_fixed V src sz) w = (None, w1)"
  shows "unharmed (mapped s - {src..<src + sz}) s (pr_os w1)" and "mapped (pr_os w1) \<subseteq> mapped (pr_os w)"
proof -
  have f: "mapped (pr_os w1) \<subseteq> mapped (pr_os w) \<and> unharmed (mapped (pr_os w) - {src..<src + sz}) (pr_os w) (pr_os w1)"
    using assms vm_fixed_err [of src sz "pr_os w"] by (auto simp: syscall_def buffered_def split: prod.splits sum.splits)
  then show "mapped (pr_os w1) \<subseteq> mapped (pr_os w)" by blast
  show "unharmed (mapped s - {src..<src + sz}) s (pr_os w1)" using f assms(1) by (auto simp: buffered_def unharmed_def subset_iff)
qed

text \<open>The temporary buffer is given back whatever happened before.\<close>

lemma buffered_release:
  assumes "buffered s src temp sz w" and "unharmed D s (pr_os w1)" and "D \<subseteq> mapped s"
    and "syscall (vm_munmap V temp sz) w1 = (r, w2)"
  shows "unharmed D s (pr_os w2)"
proof -
  have "unharmed D (pr_os w1) (pr_os w2)"
    by (rule munmap_any [OF assms(4)]) (use assms(1-3) in \<open>auto simp: buffered_def unharmed_def\<close>)
  then show ?thesis using assms(2) unharmed_trans by blast
qed

lemma relocate_restore_spec:
  assumes "buffered s src temp sz w" and "relocate_restore V src temp sz w = (r, w')"
  shows "unharmed (mapped s - {src..<src + sz}) s (pr_os w') \<and> r = Inl (Unknown (pr_errno w'))"
proof -
  obtain x w1 where x: "syscall (vm_mmap_fixed V src sz) w = (x, w1)" by fastforce
  let ?w2 = "if x \<noteq> None then copy_to temp src sz w1 else w1"
  obtain y w3 where y: "syscall (vm_munmap V temp sz) ?w2 = (y, w3)" by fastforce
  have "unharmed (mapped s - {src..<src + sz}) s (pr_os ?w2)"
    using buffered_restored [OF assms(1), of _ w1] buffered_refused(1) [OF assms(1), of w1] x unharmed_subset by (cases x) auto
  from buffered_release [OF assms(1) this _ y] show ?thesis
    using assms(2) x y by (auto simp: relocate_restore_def Let_def)
qed

lemma relocate_finish_spec:
  assumes "buffered s src temp sz w" and "relocate_finish V src temp sz w = (r, w')"
  shows "unharmed (mapped s - {src..<src + sz}) s (pr_os w') \<and>
    (r = Inr Success \<and> unharmed (mapped s) s (pr_os w') \<or> r = Inl (Unknown (pr_errno w')))"
proof -
  obtain x w1 where x: "syscall (vm_mmap_fixed V src sz) w = (x, w1)" by fastforce
  show ?thesis
  proof (cases x)
    case None
    obtain y w2 where y: "syscall (vm_munmap V temp sz) w1 = (y, w2)" by fastforce
    from buffered_release [OF assms(1) buffered_refused(1) [OF assms(1)] _ y] x None
    show ?thesis using assms(2) y by (auto simp: relocate_finish_def Let_def)
  next
    case (Some q)
    obtain y w2 where y: "syscall (vm_munmap V temp sz) (copy_to temp src sz w1) = (y, w2)" by fastforce
    from buffered_release [OF assms(1) buffered_restored [OF assms(1)] _ y] x Some
    have "unharmed (mapped s) s (pr_os w2)" by blast
    then show ?thesis using assms(2) x y Some unharmed_subset by (auto simp: relocate_finish_def Let_def)
  qed
qed

lemma buffered_start:
  assumes "{src..<src + sz} \<subseteq> mapped (pr_os w)" and "sz mod 4096 = 0"
    and "{temp..<temp + sz} \<inter> mapped (pr_os w) = {}" and "mapped (pr_os w1) = mapped (pr_os w) \<union> {temp..<temp + sz}"
    and "\<forall>a \<in> mapped (pr_os w). mem (pr_os w1) a = mem (pr_os w) a"
    and "unharmed (mapped (pr_os w1) - {src..<src + sz}) (pr_os (copy_to src temp sz w1)) (pr_os w3)"
  shows "buffered (pr_os w) src temp sz w3"
proof -
  let ?m = "mem (pr_os (copy_to src temp sz w1))"
  have m: "?m a = (if temp \<le> a \<and> a < temp + sz then mem (pr_os w1) (src + (a - temp)) else mem (pr_os w1) a)" for a
    by (simp add: copy_to_def copy_nonoverlapping_def)
  have u: "mem (pr_os w3) a = ?m a" "a \<in> mapped (pr_os w3)" if "a \<in> mapped (pr_os w1)" "a \<notin> {src..<src + sz}" for a
    using assms(6) that by (auto simp: unharmed_def)
  have t: "temp + i \<in> mapped (pr_os w1)" "temp + i \<notin> {src..<src + sz}" if "i < sz" for i
    using that assms(1,3,4) by (auto simp: disjoint_iff subset_iff)
  have "mem (pr_os w3) (temp + i) = mem (pr_os w) (src + i)" if "i < sz" for i
    using that u(1) [OF t] assms(1,5) by (simp add: m subset_iff)
  moreover have "temp + i \<in> mapped (pr_os w3)" if "i < sz" for i by (rule u(2) [OF t]) (rule that)+
  then have "{temp..<temp + sz} \<subseteq> mapped (pr_os w3)" by (metis atLeastLessThan_iff le_iff_add nat_add_left_cancel_less subsetI)
  moreover have "unharmed (mapped (pr_os w) - {src..<src + sz}) (pr_os w) (pr_os w3)"
    unfolding unharmed_def
  proof (intro conjI subsetI ballI)
    fix a assume a: "a \<in> mapped (pr_os w) - {src..<src + sz}"
    then have "a \<in> mapped (pr_os w1)" "a \<notin> {src..<src + sz}" "\<not> (temp \<le> a \<and> a < temp + sz)" using assms(3,4) by auto
    with u [of a] m [of a] a assms(5) show "a \<in> mapped (pr_os w3)" "mem (pr_os w3) a = mem (pr_os w) a" by simp_all
  qed
  ultimately show ?thesis using assms(1-3) by (simp add: buffered_def)
qed

text \<open>All outcomes of a relocation of mapped pages.\<close>

lemma try_relocate_spec:
  assumes "try_relocate_page V src sz w = (r, w')" and "{src..<src + sz} \<subseteq> mapped (pr_os w)"
  shows "unharmed (mapped (pr_os w) - {src..<src + sz}) (pr_os w) (pr_os w') \<and>
    (case r of
       Inr c \<Rightarrow> c = Success \<and> unharmed (mapped (pr_os w)) (pr_os w) (pr_os w')
     | Inl e \<Rightarrow> e = InvalidAddress \<and> (sz = 0 \<or> sz mod 4096 \<noteq> 0) \<and> w' = w \<or>
         e = OutOfMemory \<and> pr_os w' = pr_os w \<or> e = Unknown (pr_errno w'))"
proof (cases "sz = 0 \<or> sz mod 4096 \<noteq> 0")
  case True
  then show ?thesis using assms(1) by (auto simp: try_relocate_page_def PAGE_SIZE_def unharmed_def)
next
  case False
  obtain x w1 where x: "syscall (vm_mmap V sz) w = (x, w1)" by fastforce
  show ?thesis
  proof (cases x)
    case None
    then have "pr_os w1 = pr_os w" using x vm_mmap_err [of sz "pr_os w"] by (auto simp: syscall_def split: prod.splits sum.splits)
    then show ?thesis using assms(1) False None x by (auto simp: try_relocate_page_def PAGE_SIZE_def unharmed_def)
  next
    case (Some temp)
    have "pages_granted (sz div 4096) (pr_os w) temp (pr_os w1)"
      using x Some False vm_mmap_ok [of sz "pr_os w"] by (auto simp: syscall_def split: prod.splits sum.splits)
    then have g: "{temp..<temp + sz} \<inter> mapped (pr_os w) = {}" "mapped (pr_os w1) = mapped (pr_os w) \<union> {temp..<temp + sz}"
      "\<forall>a \<in> mapped (pr_os w). mem (pr_os w1) a = mem (pr_os w) a"
      using False by (auto simp: pages_granted_def)
    define w2 where "w2 = copy_to src temp sz w1"
    obtain y w3 where y: "syscall (vm_munmap V src sz) w2 = (y, w3)" by fastforce
    have "unharmed (mapped (pr_os w1) - {src..<src + sz}) (pr_os w2) (pr_os w3)"
      by (rule munmap_any [OF y]) (use False in \<open>auto simp: w2_def copy_to_def\<close>)
    from buffered_start [OF assms(2) _ g this [unfolded w2_def]] False show ?thesis
      using assms(1) x y Some relocate_restore_spec [of "pr_os w" src temp sz w3 r w']
        relocate_finish_spec [of "pr_os w" src temp sz w3 r w']
      by (cases y) (auto simp: try_relocate_page_def PAGE_SIZE_def w2_def)
  qed
qed

end

subsection \<open>A kernel with these laws\<close>

text \<open>The first-fit kernel with fixed mappings, which it may refuse for lack of memory.\<close>

definition vm_fit :: "nat \<Rightarrow> bool \<Rightarrow> vm_calls" where
  "vm_fit n allow = \<lparr>
     vm_mmap = (\<lambda>len s. case sys_mmap (first_fit n) s len of (None, s') \<Rightarrow> (Inl 12, s') | (Some p, s') \<Rightarrow> (Inr p, s')),
     vm_mmap_fixed = (\<lambda>p len s. if allow
       then (Inr p, \<lparr>mem = (\<lambda>a. if p \<le> a \<and> a < p + len then 0 else mem s a), mapped = mapped s \<union> {p..<p + len}\<rparr>)
       else (Inl 12, s)),
     vm_munmap = (\<lambda>p len s. case sys_munmap (first_fit n) s p len of (r, s') \<Rightarrow> (if r < 0 then Inl 22 else Inr (), s')),
     vm_mremap = (\<lambda>p old new flags q s. (Inl 12, s)),
     vm_process_writev = (\<lambda>pid l r s. (Inl 1, s)),
     vm_process_readv = (\<lambda>pid l r s. (Inl 1, s))\<rparr>"

interpretation vf: vm_kernel "vm_fit n allow"
proof (unfold_locales, goal_cases)
  case (1 len s e s')
  then show ?case using ff.mmap_failed by (auto simp: vm_fit_def split: prod.splits option.splits)
next
  case (2 len s p s')
  then have m: "sys_mmap (first_fit n) s len = (Some p, s')" by (auto simp: vm_fit_def split: prod.splits option.splits)
  from 2 have "len div 4096 * 4096 = len" by auto
  then show ?case
    using 2 ff.mmap_aligned [OF m] ff.mmap_nonnull [OF m] ff.mmap_user_half [OF m] ff.mmap_fresh [OF m]
      ff.mmap_mapped [OF m] ff.mmap_zeroed [OF m] ff.mmap_frame [OF m] by (simp add: pages_granted_def)
qed (auto simp: vm_fit_def fit_step_def unharmed_def split: if_splits prod.splits)

subsection \<open>Properties of compaction\<close>


lemma syscall_Some: "syscall f w = (Some x, w') \<longleftrightarrow> (\<exists>s'. f (pr_os w) = (Inr x, s') \<and> w' = w\<lparr>pr_os := s'\<rparr>)"
  by (auto simp: syscall_def split: prod.splits sum.splits)

lemma syscall_unfailing:
  assumes "\<And>s. fst (f s) = Inr ()"
  shows "\<exists>s'. f (pr_os w) = (Inr (), s') \<and> syscall f w = (Some (), w\<lparr>pr_os := s'\<rparr>)"
  using assms [of "pr_os w"] by (cases "f (pr_os w)") (simp add: syscall_def)

lemma pr_os_copy: "mapped (pr_os (copy_to a b n w)) = mapped (pr_os w)"
  by (simp add: copy_to_def)

text \<open>A relocation leaks no memory if \<open>munmap\<close> does not fail.\<close>

lemma relocate_no_leak:
  assumes "vm_kernel V" and "try_relocate_page V src sz w = (Inr c, w')" and "{src..<src + sz} \<subseteq> mapped (pr_os w)"
    and un: "\<And>p len s. fst (vm_munmap V p len s) = Inr ()"
  shows "mapped (pr_os w') = mapped (pr_os w)"
proof -
  note laws = vm_kernel.vm_mmap_ok [OF assms(1)] vm_kernel.vm_munmap_ok [OF assms(1)] vm_kernel.vm_fixed_ok [OF assms(1)]
  from assms(2) have sz: "0 < sz" "sz mod 4096 = 0" by (auto simp: try_relocate_page_def PAGE_SIZE_def split: if_splits)
  obtain temp w1 where t: "syscall (vm_mmap V sz) w = (Some temp, w1)"
    using assms(2) sz by (auto simp: try_relocate_page_def PAGE_SIZE_def split: prod.splits option.splits)
  then have g: "{temp..<temp + sz} \<inter> mapped (pr_os w) = {}" "mapped (pr_os w1) = mapped (pr_os w) \<union> {temp..<temp + sz}"
    using laws(1) [of sz "pr_os w" temp "pr_os w1"] sz by (auto simp: syscall_Some pages_granted_def disjoint_iff)
  obtain s2 where u: "vm_munmap V src sz (pr_os (copy_to src temp sz w1)) = (Inr (), s2)"
    "syscall (vm_munmap V src sz) (copy_to src temp sz w1) = (Some (), (copy_to src temp sz w1)\<lparr>pr_os := s2\<rparr>)"
    using syscall_unfailing [of "vm_munmap V src sz", OF un] by blast
  let ?w2 = "(copy_to src temp sz w1)\<lparr>pr_os := s2\<rparr>"
  have "relocate_finish V src temp sz ?w2 = (Inr c, w')" using assms(2) sz t u(2) by (simp add: try_relocate_page_def PAGE_SIZE_def)
  then obtain q w3 where f: "syscall (vm_mmap_fixed V src sz) ?w2 = (Some q, w3)"
    and w': "w' = snd (syscall (vm_munmap V temp sz) (copy_to temp src sz w3))"
    by (auto simp: relocate_finish_def Let_def split: prod.splits option.splits)
  obtain s4 where v: "vm_munmap V temp sz (pr_os (copy_to temp src sz w3)) = (Inr (), s4)" "pr_os w' = s4"
    using syscall_unfailing [of "vm_munmap V temp sz" "copy_to temp src sz w3", OF un] w' by auto
  have "mapped s2 = mapped (pr_os w1) - {src..<src + sz}" using laws(2) [OF u(1) sz(2)] by (simp add: pr_os_copy)
  moreover have "mapped (pr_os w3) = mapped s2 \<union> {src..<src + sz}"
    using f laws(3) [of src sz s2 q] sz(2) by (auto simp: syscall_Some)
  moreover have "mapped s4 = mapped (pr_os w3) - {temp..<temp + sz}" using laws(2) [OF v(1) sz(2)] by (simp add: pr_os_copy)
  ultimately show ?thesis using g assms(3) v(2) by blast
qed

text \<open>
  C35. Relocating mapped pages, with every system call allowed to fail. A successful relocation leaves every byte of the process mapped with its value, and leaks nothing if
  \<open>munmap\<close> does not fail. Sizes that are zero or not a multiple of the page size are refused without any effect, and
  so is a relocation for which no temporary buffer can be mapped. Any other failure is reported with the last error number;
  then all memory outside the region is intact, while the region itself can be gone, as the witness shows.
\<close>

theorem relocate_spec:
  assumes "vm_kernel V" and "compact_pages V src sz w = (r, w')" and "{src..<src + sz} \<subseteq> mapped (pr_os w)"
  shows "unharmed (mapped (pr_os w) - {src..<src + sz}) (pr_os w) (pr_os w') \<and>
    (case r of
       Inr c \<Rightarrow> c = Success \<and> unharmed (mapped (pr_os w)) (pr_os w) (pr_os w') \<and>
         ((\<forall>p len s. fst (vm_munmap V p len s) = Inr ()) \<longrightarrow> mapped (pr_os w') = mapped (pr_os w))
     | Inl e \<Rightarrow> e = InvalidAddress \<and> (sz = 0 \<or> sz mod 4096 \<noteq> 0) \<and> w' = w \<or>
         e = OutOfMemory \<and> pr_os w' = pr_os w \<or> e = Unknown (pr_errno w'))"
proof -
  have t: "try_relocate_page V src sz w = (r, w')" using assms(2) by (simp add: compact_pages_def)
  show ?thesis
    using vm_kernel.try_relocate_spec [OF assms(1) t assms(3)] relocate_no_leak [OF assms(1) _ assms(3), of _ w'] t
    by (auto split: sum.splits)
qed

theorem relocate_spec_witness:
  "\<exists>w'. compact_pages (vm_fit 2 False) 4096 4096 \<lparr>pr_os = pages_to 1 (\<lambda>_. 7), pr_errno = 0\<rparr> = (Inl (Unknown 12), w') \<and>
    unharmed (mapped (pages_to 1 (\<lambda>_. 7)) - {4096..<8192}) (pages_to 1 (\<lambda>_. 7)) (pr_os w') \<and> mapped (pr_os w') \<inter> {4096..<8192} = {}"
proof -
  let ?w = "\<lparr>pr_os = pages_to 1 (\<lambda>_. 7), pr_errno = 0\<rparr>"
  obtain r w' where run: "compact_pages (vm_fit 2 False) 4096 4096 ?w = (r, w')" by fastforce
  have m: "vm_mmap (vm_fit 2 False) 4096 (pages_to 1 (\<lambda>_. 7)) = (Inr 8192, pages_to 2 (\<lambda>a. if 8192 \<le> a \<and> a < 12288 then 0 else 7))"
    by (simp add: vm_fit_def fit_step_def pages_to_def upt_conv_Cons ivl_disj_un_two fun_eq_iff)
  have u: "vm_munmap (vm_fit 2 False) p len s =
      (if p mod 4096 = 0 \<and> 0 < len then (Inr (), s\<lparr>mapped := mapped s - {p..<p + len}\<rparr>) else (Inl 22, s))" for p len s
    by (simp add: vm_fit_def fit_step_def)
  have f: "vm_mmap_fixed (vm_fit 2 False) p len s = (Inl 12, s)" for p len s by (simp add: vm_fit_def)
  have "r = Inl (Unknown 12) \<and> mapped (pr_os w') \<inter> {4096..<8192} = {}"
    using run by (auto simp: compact_pages_def try_relocate_page_def relocate_finish_def PAGE_SIZE_def syscall_def copy_to_def m [unfolded One_nat_def] u f)
  then show ?thesis
    using relocate_spec [OF vf.vm_kernel_axioms run] run by auto
qed

subsection \<open>Properties of the page map\<close>

lemma entry_bit: "drop_bit n r AND 1 = 1 \<longleftrightarrow> bit r n" for r :: "64 word"
proof -
  have "drop_bit n r AND 1 = of_bool (bit r n)" by (simp add: and_one_eq mod_2_eq_odd bit_iff_odd_drop_bit)
  then show ?thesis by simp
qed

lemma frame_mask: "page_frame_number e = take_bit 55 (raw e)"
  by (simp add: page_frame_number_def take_bit_eq_mask mask_eq_exp_minus_1)

lemma frame_times:
  assumes "unat (page_frame_number e) < 2 ^ 52"
  shows "unat (page_frame_number e * word_of_nat PAGE_SIZE) = unat (page_frame_number e) * 4096"
proof -
  have "unat (page_frame_number e) * 4096 < 2 ^ 64" using assms by simp
  then show ?thesis by (simp add: PAGE_SIZE_def unat_word_ariths)
qed

text \<open>
  C36. Queries of the page map, whatever \<open>pread\<close> does: \<open>pm i\<close> is the entry of page \<open>i\<close> if \<open>pread\<close> of eight bytes at its place reads all of them, and \<open>None\<close>
  if the call fails or reads fewer, as at the end of the file. The tracker returns the entry of the page of the address, and nothing after a failed or short
  read or without the feature \<open>std\<close>; the flags are bits 63, 62 and 61 of the entry and the frame number its low 55 bits; an address has a physical
  address exactly if the entry of its page was read and says present and not swapped, and it is the start of the frame, without overflow for
  frames below \<open>2 ^ 52\<close>. Two addresses are on the same physical page exactly if both entries were read and both pages are present with the same frame
  number: where the kernel hides frame numbers (it reads them as 0 for unprivileged processes) every two present pages are reported to be the same.
\<close>

theorem pagemap_spec:
  assumes "PageTableTracker_new True fd = Some t"
    and "\<forall>i < 2 ^ 52. case pm i of Some e \<Rightarrow> pread fd 8 (int i * 8) = (8, e) | None \<Rightarrow> fst (pread fd 8 (int i * 8)) \<noteq> 8"
    and "a < 2 ^ 64" "b < 2 ^ 64" and "\<forall>e. pm (a div 4096) = Some e \<longrightarrow> unat (take_bit 55 e) < 2 ^ 52"
  shows "query_page True pread t a = map_option PageMapEntry_new (pm (a div 4096)) \<and> query_page False pread t a = None \<and>
    (\<forall>e. is_present (PageMapEntry_new e) = bit e 63 \<and> is_swapped (PageMapEntry_new e) = bit e 62 \<and>
      is_file_mapped (PageMapEntry_new e) = bit e 61 \<and> page_frame_number (PageMapEntry_new e) = take_bit 55 e) \<and>
    map_option unat (Tracker_physical_address True pread t a) =
      (case pm (a div 4096) of
         Some e \<Rightarrow> if bit e 63 \<and> \<not> bit e 62 then Some (unat (take_bit 55 e) * 4096) else None
       | None \<Rightarrow> None) \<and>
    (same_physical_page True pread t a b \<longleftrightarrow>
      (\<exists>e f. pm (a div 4096) = Some e \<and> pm (b div 4096) = Some f \<and> bit e 63 \<and> bit f 63 \<and> take_bit 55 e = take_bit 55 f))"
proof -
  have fd: "pagemap_fd t = Some fd" using assms(1) by (auto simp: PageTableTracker_new_def open_pagemap_def split: if_splits)
  have q: "query_page True pread t x = map_option PageMapEntry_new (pm (x div 4096))" if "x < 2 ^ 64" for x
  proof -
    have "x div 4096 < 2 ^ 52" using that by (simp add: less_mult_imp_div_less)
    with assms(2) have "case pm (x div 4096) of Some e \<Rightarrow> pread fd 8 (int (x div 4096) * 8) = (8, e)
      | None \<Rightarrow> fst (pread fd 8 (int (x div 4096) * 8)) \<noteq> 8" by blast
    then show ?thesis
      by (cases "pm (x div 4096)"; cases "pread fd 8 (int (x div 4096) * 8)")
        (simp_all add: query_page_def fd read_pagemap_entry_def PAGE_SIZE_def PAGEMAP_ENTRY_SIZE_def)
  qed
  have flags: "is_present (PageMapEntry_new e) = bit e 63" "is_swapped (PageMapEntry_new e) = bit e 62"
    "is_file_mapped (PageMapEntry_new e) = bit e 61" "page_frame_number (PageMapEntry_new e) = take_bit 55 e" for e
    by (simp_all add: PageMapEntry_new_def is_present_def is_swapped_def is_file_mapped_def entry_bit frame_mask)
  have "unat (take_bit 55 e * word_of_nat PAGE_SIZE) = unat (take_bit 55 e) * 4096" if "pm (a div 4096) = Some e" for e
    using frame_times [of "PageMapEntry_new e"] assms(5) that by (simp add: flags)
  then show ?thesis
    using q [OF assms(3)] q [OF assms(4)]
    by (simp add: flags Tracker_physical_address_def same_physical_page_def PageMapEntry_physical_address_def query_page_def [of False]
      split: option.splits)
qed

text \<open>A file with the entries of three pages: two present ones without frame numbers and one that is swapped out.\<close>

definition demo_pagemap :: "64 word list" where
  "demo_pagemap = [push_bit 63 1, push_bit 63 1, push_bit 62 1]"

definition demo_pread :: pread where
  "demo_pread fd n off = (if nat (off div 8) < 3 then (8, demo_pagemap ! nat (off div 8)) else (0, 0))"

theorem pagemap_spec_witness:
  "\<exists>t. PageTableTracker_new True 3 = Some t \<and> same_physical_page True demo_pread t 0x0010 0x1010 \<and>
     Tracker_physical_address True demo_pread t 0x2000 = None \<and> query_page True demo_pread t 0x3000 = None"
proof (intro exI conjI)
  let ?pm = "\<lambda>i. if i < 3 then Some (demo_pagemap ! i) else None" and ?t = "\<lparr>pagemap_fd = Some 3\<rparr>"
  show t: "PageTableTracker_new True 3 = Some ?t" by (simp add: PageTableTracker_new_def open_pagemap_def)
  have reads: "\<forall>i < 2 ^ 52. case ?pm i of Some e \<Rightarrow> demo_pread 3 8 (int i * 8) = (8, e) | None \<Rightarrow> fst (demo_pread 3 8 (int i * 8)) \<noteq> 8"
    by (simp add: demo_pread_def)
  note spec = pagemap_spec [of 3 ?t demo_pread ?pm, OF t reads]
  have b: "bit (push_bit 63 1 :: 64 word) 63" "\<not> bit (push_bit 62 1 :: 64 word) 63" "take_bit 55 (push_bit 63 1 :: 64 word) = 0"
    "take_bit 55 (push_bit 62 1 :: 64 word) = 0"
    by (simp_all add: bit_simps take_bit_push_bit)
  show "same_physical_page True demo_pread ?t 0x0010 0x1010"
    using spec [of "0x0010" "0x1010"] b by (simp add: demo_pagemap_def)
  show "Tracker_physical_address True demo_pread ?t 0x2000 = None"
    using spec [of "0x2000" "0x1010"] b by (simp add: demo_pagemap_def)
  show "query_page True demo_pread ?t 0x3000 = None"
    using spec [of "0x3000" "0x1010"] by simp
qed

end
