(* ===== verification/Exporter.thy ===== *)
theory Exporter
  imports GlobalAlloc Float64
begin

text \<open>
  The Prometheus exporter (\<open>aethalloc-metrics\<close>): the library of \<open>lib.rs\<close>, which reads the counters of the allocator through the
  symbol \<open>aethalloc_get_metrics\<close> of \<open>libaethalloc.so\<close>, and the program of \<open>main.rs\<close>. The dynamic library is a table of symbols, the outcome of
  \<open>read\<close> on a connection is the bytes it stored or an error; what is written to a connection is the result. The texts \<open>main.rs\<close> prints to the terminal
  are left out.
\<close>

definition DEFAULT_PORT :: nat where
  "DEFAULT_PORT = 9091"

definition MetricsSnapshot_default :: MetricsSnapshot where
  "MetricsSnapshot_default = \<lparr>s_allocs = 0, s_frees = 0, s_cache_hits = 0, s_cache_misses = 0, s_direct_allocs = 0\<rparr>"

definition NL :: char where
  "NL = CHR 0x0A"

definition CRLF :: string where
  "CRLF = [CHR 0x0D, CHR 0x0A]"

subsection \<open>The text of the metrics\<close>

definition get_metrics :: "(string \<Rightarrow> MetricsSnapshot option) option \<Rightarrow> MetricsSnapshot option" where
  "get_metrics lib = (case lib of None \<Rightarrow> None | Some symbols \<Rightarrow> symbols ''aethalloc_get_metrics'')"

text \<open>The three \<open>push_str\<close> calls for one metric.\<close>

definition push_metric :: "string \<Rightarrow> string \<Rightarrow> string \<Rightarrow> string \<Rightarrow> string" where
  "push_metric name help kind v =
     ''# HELP '' @ name @ '' '' @ help @ NL # ''# TYPE '' @ name @ '' '' @ kind @ NL # name @ '' '' @ v @ [NL]"

definition hit_rate :: "MetricsSnapshot \<Rightarrow> rat" where
  "hit_rate s = (let total = wadd (s_cache_hits s) (s_cache_misses s) in
     if total > 0
     then f64_round (f64_round (f64_round (of_nat (s_cache_hits s)) / f64_round (of_nat total)) * 100)
     else 0)"

definition push_counters :: "MetricsSnapshot \<Rightarrow> string" where
  "push_counters s =
     push_metric ''aethalloc_allocs_total'' ''Total allocations'' ''counter'' (show_nat (s_allocs s)) @
     push_metric ''aethalloc_frees_total'' ''Total deallocations'' ''counter'' (show_nat (s_frees s)) @
     push_metric ''aethalloc_cache_hits_total'' ''Cache hits'' ''counter'' (show_nat (s_cache_hits s)) @
     push_metric ''aethalloc_cache_misses_total'' ''Cache misses'' ''counter'' (show_nat (s_cache_misses s)) @
     push_metric ''aethalloc_direct_allocs_total'' ''Direct (large) allocations'' ''counter'' (show_nat (s_direct_allocs s))"

definition push_active :: "MetricsSnapshot \<Rightarrow> string" where
  "push_active s = push_metric ''aethalloc_active_blocks'' ''Estimated active blocks'' ''gauge'' (show_nat (s_allocs s - s_frees s))"

definition format_metrics :: "(string \<Rightarrow> MetricsSnapshot option) option \<Rightarrow> string" where
  "format_metrics lib = (case get_metrics lib of
       None \<Rightarrow> ''# ERROR: libaethalloc.so not loaded'' @ [NL]
     | Some s \<Rightarrow> push_counters s @
         push_metric ''aethalloc_cache_hit_rate'' ''Cache hit rate percentage'' ''gauge'' (format_2 (hit_rate s)) @
         push_active s)"

definition format_prometheus_metrics :: "MetricsSnapshot \<Rightarrow> string" where
  "format_prometheus_metrics s = push_counters s @
     push_metric ''aethalloc_cache_hit_rate_percent'' ''Cache hit rate percentage'' ''gauge'' (format_2 (hit_rate s)) @
     push_active s"

subsection \<open>Requests and responses\<close>

definition request_path :: "string \<Rightarrow> nat list" where
  "request_path buf =
     (let request = (case utf8_decode (codes buf) of Some cs \<Rightarrow> cs | None \<Rightarrow> []);
          line = (case first_line request of Some l \<Rightarrow> l | None \<Rightarrow> [])
      in case split_whitespace line of _ # p # _ \<Rightarrow> p | _ \<Rightarrow> codes ''/'')"

definition http_response :: "string \<Rightarrow> string \<Rightarrow> string" where
  "http_response status body =
     ''HTTP/1.1 '' @ status @ CRLF @ ''Content-Type: text/plain; version=0.0.4'' @ CRLF @
     ''Content-Length: '' @ show_nat (length body) @ CRLF @ CRLF @ body"

text \<open>The status and the body for a path, with the text of the metrics as \<open>exposition\<close>.\<close>

definition route :: "nat list \<Rightarrow> string \<Rightarrow> string \<times> string" where
  "route path exposition =
     (if path = codes ''/metrics'' then (''200 OK'', exposition)
      else if path = codes ''/health'' \<or> path = codes ''/'' then (''200 OK'', ''OK'' @ [NL])
      else (''404 Not Found'', ''Not Found'' @ [NL]))"

definition handle_client :: "(string \<Rightarrow> MetricsSnapshot option) option \<Rightarrow> string option \<Rightarrow> string option" where
  "handle_client lib input = (case input of
       None \<Rightarrow> None
     | Some buf \<Rightarrow> (case route (request_path buf) (format_metrics lib) of (status, body) \<Rightarrow> Some (http_response status body)))"

definition main_handle_client :: "MetricsSnapshot \<Rightarrow> string option \<Rightarrow> string option" where
  "main_handle_client snap input = (case input of
       None \<Rightarrow> None
     | Some buf \<Rightarrow> (case route (request_path buf) (format_prometheus_metrics snap) of
         (status, body) \<Rightarrow> Some (http_response status body)))"

subsection \<open>The servers\<close>

text \<open>
  \<open>bound\<close> says whether \<open>bind\<close> succeeds; a connection is \<open>None\<close> if it could not be accepted. Over the life of the library's server every client sees the symbols as
  they are when it is served.
\<close>

type_synonym connection = "string option option"

definition run_server :: "bool \<Rightarrow> ((string \<Rightarrow> MetricsSnapshot option) option \<times> connection) list \<Rightarrow> string option list" where
  "run_server bound incoming = (if bound
     then map (\<lambda>(lib, conn). case conn of Some input \<Rightarrow> handle_client lib input | None \<Rightarrow> None) incoming else [])"

definition main_run_server :: "bool \<Rightarrow> MetricsSnapshot \<Rightarrow> connection list \<Rightarrow> string option list" where
  "main_run_server bound snap incoming = (if bound
     then map (\<lambda>conn. case conn of Some input \<Rightarrow> main_handle_client snap input | None \<Rightarrow> None) incoming else [])"

definition env_port :: "string option \<Rightarrow> nat" where
  "env_port env = (case env of None \<Rightarrow> DEFAULT_PORT
     | Some p \<Rightarrow> (case parse_uint 65535 p of Some n \<Rightarrow> n | None \<Rightarrow> DEFAULT_PORT))"

text \<open>The thread that \<open>start_metrics_server\<close> spawns: the server of the library on the port of the environment.\<close>

definition start_metrics_server ::
  "string option \<Rightarrow> (nat \<Rightarrow> bool) \<Rightarrow> ((string \<Rightarrow> MetricsSnapshot option) option \<times> connection) list \<Rightarrow> string option list" where
  "start_metrics_server env binds incoming = run_server (binds (env_port env)) incoming"

datatype start = Serve nat | Exit nat

fun parse_args :: "nat \<Rightarrow> string list \<Rightarrow> start" where
  "parse_args port [] = Serve port"
| "parse_args port (arg # args) =
     (if arg = ''-p'' \<or> arg = ''--port''
      then (case args of v # rest \<Rightarrow> parse_args (case parse_uint 65535 v of Some n \<Rightarrow> n | None \<Rightarrow> DEFAULT_PORT) rest | [] \<Rightarrow> Exit 1)
      else if arg = ''-h'' \<or> arg = ''--help'' then Exit 0
      else Exit 1)"

definition main_start :: "string option \<Rightarrow> string list \<Rightarrow> start" where
  "main_start env args = parse_args (env_port env) (drop 1 args)"

text \<open>The whole program: the responses of the server, if it starts.\<close>

definition main :: "string option \<Rightarrow> string list \<Rightarrow> (nat \<Rightarrow> bool) \<Rightarrow> connection list \<Rightarrow> nat + string option list" where
  "main env args binds incoming = (case main_start env args of
       Exit code \<Rightarrow> Inl code
     | Serve port \<Rightarrow> Inr (main_run_server (binds port) MetricsSnapshot_default incoming))"

end
