(* ===== verification/ExporterProps.thy ===== *)
theory ExporterProps
  imports Exporter
begin

text \<open>
  What a client of the exporter sees. The client's side is defined here: reading the samples of the text format, splitting a response
  at the empty line and reading the content length. The properties say that reading gives back what the exporter was given.
\<close>

subsection \<open>Reading the text format\<close>

primrec lines_from :: "string \<Rightarrow> string \<Rightarrow> string list" where
  "lines_from l [] = (if l = [] then [] else [l])"
| "lines_from l (c # cs) = (if c = NL then l # lines_from [] cs else lines_from (l @ [c]) cs)"

definition samples :: "string \<Rightarrow> (string \<times> string) list" where
  "samples text = map (\<lambda>l. (takeWhile (\<lambda>c. c \<noteq> CHR '' '') l, tl (dropWhile (\<lambda>c. c \<noteq> CHR '' '') l)))
     (filter (\<lambda>l. l \<noteq> [] \<and> hd l \<noteq> CHR ''#'') (lines_from [] text))"

definition no_nl :: "string \<Rightarrow> bool" where
  "no_nl s \<longleftrightarrow> NL \<notin> set s"

lemma no_nl_simps [simp]: "no_nl []" "no_nl (c # s) \<longleftrightarrow> c \<noteq> CHR 0x0A \<and> no_nl s" "no_nl (s @ s') \<longleftrightarrow> no_nl s \<and> no_nl s'"
  by (auto simp: no_nl_def NL_def)

lemma lines_from_line: "no_nl xs \<Longrightarrow> lines_from l (xs @ NL # r) = (l @ xs) # lines_from [] r"
  by (induction xs arbitrary: l) (auto simp: NL_def)

lemma cut_at: "x \<notin> set a \<Longrightarrow> takeWhile (\<lambda>c. c \<noteq> x) (a @ x # v) = a \<and> dropWhile (\<lambda>c. c \<noteq> x) (a @ x # v) = x # v"
  by (induction a) auto

text \<open>The name of a metric has no white space and does not start a comment.\<close>

definition plain_name :: "string \<Rightarrow> bool" where
  "plain_name n \<longleftrightarrow> n \<noteq> [] \<and> hd n \<noteq> CHR ''#'' \<and> CHR '' '' \<notin> set n \<and> no_nl n"

lemma samples_push_metric:
  assumes n: "plain_name name" and "no_nl help" "no_nl kind" "no_nl v"
  shows "samples (push_metric name help kind v @ r) = (name, v) # samples r"
proof -
  have ln: "lines_from [] (push_metric name help kind v @ r) =
      (''# HELP '' @ name @ '' '' @ help) # (''# TYPE '' @ name @ '' '' @ kind) # (name @ '' '' @ v) # lines_from [] r"
    using lines_from_line [of "''# HELP '' @ name @ '' '' @ help" "[]"] lines_from_line [of "''# TYPE '' @ name @ '' '' @ kind" "[]"]
      lines_from_line [of "name @ '' '' @ v" "[]"] assms
    by (simp add: push_metric_def plain_name_def)
  have "takeWhile (\<lambda>c. c \<noteq> CHR '' '') (name @ '' '' @ v) = name" "dropWhile (\<lambda>c. c \<noteq> CHR '' '') (name @ '' '' @ v) = '' '' @ v"
    using n cut_at [of "CHR '' ''" name v] by (simp_all add: plain_name_def)
  then show ?thesis using n unfolding samples_def ln by (simp add: plain_name_def hd_append)
qed

lemma no_nl_show_nat [simp]: "no_nl (show_nat n)"
  unfolding no_nl_def by (rule show_nat_low) (simp add: NL_def)

lemma no_nl_format_2 [simp]: "no_nl (format_2 x)"
proof -
  have "digit d \<noteq> CHR 0x0A" if "d < 10" for d using that by (rule digit_neq) simp
  then show ?thesis by (simp add: format_2_def Let_def)
qed

lemmas metric_samples = samples_push_metric plain_name_def

lemma samples_counters:
  "samples (push_counters s @ r) =
     [(''aethalloc_allocs_total'', show_nat (s_allocs s)), (''aethalloc_frees_total'', show_nat (s_frees s)),
      (''aethalloc_cache_hits_total'', show_nat (s_cache_hits s)), (''aethalloc_cache_misses_total'', show_nat (s_cache_misses s)),
      (''aethalloc_direct_allocs_total'', show_nat (s_direct_allocs s))] @ samples r"
  unfolding push_counters_def append_assoc by (simp add: metric_samples)

lemma samples_active: "samples (push_active s) = [(''aethalloc_active_blocks'', show_nat (s_allocs s - s_frees s))]"
  using samples_push_metric [of "''aethalloc_active_blocks''" "''Estimated active blocks''" "''gauge''" _ "[]"]
  by (simp add: push_active_def plain_name_def) (simp add: samples_def)

text \<open>The samples of both texts.\<close>

lemma samples_format_metrics:
  assumes "get_metrics lib = Some s"
  shows "samples (format_metrics lib) =
     [(''aethalloc_allocs_total'', show_nat (s_allocs s)), (''aethalloc_frees_total'', show_nat (s_frees s)),
      (''aethalloc_cache_hits_total'', show_nat (s_cache_hits s)), (''aethalloc_cache_misses_total'', show_nat (s_cache_misses s)),
      (''aethalloc_direct_allocs_total'', show_nat (s_direct_allocs s)), (''aethalloc_cache_hit_rate'', format_2 (hit_rate s)),
      (''aethalloc_active_blocks'', show_nat (s_allocs s - s_frees s))]"
  using assms by (simp add: format_metrics_def samples_counters metric_samples samples_active)

lemma samples_format_prometheus:
  "samples (format_prometheus_metrics s) =
     [(''aethalloc_allocs_total'', show_nat (s_allocs s)), (''aethalloc_frees_total'', show_nat (s_frees s)),
      (''aethalloc_cache_hits_total'', show_nat (s_cache_hits s)), (''aethalloc_cache_misses_total'', show_nat (s_cache_misses s)),
      (''aethalloc_direct_allocs_total'', show_nat (s_direct_allocs s)), (''aethalloc_cache_hit_rate_percent'', format_2 (hit_rate s)),
      (''aethalloc_active_blocks'', show_nat (s_allocs s - s_frees s))]"
  by (simp add: format_prometheus_metrics_def samples_counters metric_samples samples_active)

subsection \<open>Reading a response\<close>

text \<open>The head of a response ends at the first empty line; the length of the body is what the field \<open>Content-Length\<close> says.\<close>

fun split_head :: "string \<Rightarrow> (string \<times> string) option" where
  "split_head [] = None"
| "split_head (c # cs) =
     (if take 4 (c # cs) = CRLF @ CRLF then Some ([], drop 3 cs) else map_option (apfst ((#) c)) (split_head cs))"

definition read_nat :: "string \<Rightarrow> nat option" where
  "read_nat s = parse_uint (10 ^ length s) s"

definition field_length :: "string list \<Rightarrow> nat option" where
  "field_length ls = (case filter (\<lambda>l. take 16 l = ''Content-Length: '') ls of
       [l] \<Rightarrow> read_nat (drop 16 l) | _ \<Rightarrow> None)"

definition http_read :: "string \<Rightarrow> (string \<times> nat option \<times> string) option" where
  "http_read r = (case split_head r of None \<Rightarrow> None
     | Some (h, body) \<Rightarrow> let ls = map (takeWhile (\<lambda>c. c \<noteq> CHR 0x0D)) (lines_from [] h) in Some (hd ls, field_length ls, body))"

lemma show_nat_length: "n < 10 ^ length (show_nat n)"
proof (induction n rule: show_nat.induct)
  case (1 n)
  show ?case
  proof (cases "n < 10")
    case False
    have "n div 10 < 10 ^ length (show_nat (n div 10))" by (rule 1 [OF False])
    then show ?thesis using False show_nat.simps [of n] by simp
  qed (simp add: show_nat.simps [of n])
qed

lemma read_show [simp]: "read_nat (show_nat n) = Some n"
  using show_nat_length [of n] by (simp add: read_nat_def parse_show_nat)

definition no_cr :: "string \<Rightarrow> bool" where
  "no_cr s \<longleftrightarrow> CHR 0x0D \<notin> set s"

lemma no_cr_simps [simp]: "no_cr []" "no_cr (c # s) \<longleftrightarrow> c \<noteq> CHR 0x0D \<and> no_cr s" "no_cr (s @ s') \<longleftrightarrow> no_cr s \<and> no_cr s'"
  by (auto simp: no_cr_def)

lemma no_cr_show_nat [simp]: "no_cr (show_nat n)"
  unfolding no_cr_def by (rule show_nat_low) simp

lemma split_head_line: "no_cr l \<Longrightarrow> split_head (l @ r) = map_option (apfst ((@) l)) (split_head r)"
proof (induction l)
  case Nil
  show ?case by (cases "split_head r") auto
next
  case (Cons c l)
  then show ?case by (cases "split_head r") (auto simp: CRLF_def)
qed

lemma split_head_crlf: "c \<noteq> CHR 0x0D \<Longrightarrow> split_head (CRLF @ c # r) = map_option (apfst ((@) CRLF)) (split_head (c # r))"
  by (cases "split_head (c # r)") (auto simp: CRLF_def simp del: split_head.simps(2) simp: split_head.simps(2) [of "CHR 0x0D"] split_head.simps(2) [of "CHR 0x0A"])

lemma split_head_end: "split_head (CRLF @ CRLF @ body) = Some ([], body)"
  by (simp add: CRLF_def)

lemma split_head_response:
  assumes "no_cr status"
  shows "split_head (http_response status body) =
    Some (''HTTP/1.1 '' @ status @ CRLF @ ''Content-Type: text/plain; version=0.0.4'' @ CRLF @ ''Content-Length: '' @ show_nat (length body), body)"
proof -
  let ?t = "''Content-Type: text/plain; version=0.0.4''" and ?l = "''Content-Length: '' @ show_nat (length body)"
  have l: "split_head (?l @ CRLF @ CRLF @ body) = Some (?l, body)"
    using split_head_line [of ?l "CRLF @ CRLF @ body"] split_head_end [of body] by simp
  have "split_head (CRLF @ ?l @ CRLF @ CRLF @ body) = Some (CRLF @ ?l, body)"
    using split_head_crlf [of "CHR ''C''" "''ontent-Length: '' @ show_nat (length body) @ CRLF @ CRLF @ body"] l by simp
  then have t: "split_head (?t @ CRLF @ ?l @ CRLF @ CRLF @ body) = Some (?t @ CRLF @ ?l, body)"
    using split_head_line [of ?t "CRLF @ ?l @ CRLF @ CRLF @ body"] by simp
  have "split_head (CRLF @ ?t @ CRLF @ ?l @ CRLF @ CRLF @ body) = Some (CRLF @ ?t @ CRLF @ ?l, body)"
    using split_head_crlf [of "CHR ''C''" "''ontent-Type: text/plain; version=0.0.4'' @ CRLF @ ?l @ CRLF @ CRLF @ body"] t by simp
  then show ?thesis
    using split_head_line [of "''HTTP/1.1 '' @ status"] assms by (simp add: http_response_def)
qed

lemma take_no_cr: "no_cr l \<Longrightarrow> takeWhile (\<lambda>c. c \<noteq> CHR 0x0D) (l @ CHR 0x0D # r) = l" "no_cr l \<Longrightarrow> takeWhile (\<lambda>c. c \<noteq> CHR 0x0D) l = l"
  by (induction l) auto

lemma lines_from_last: "no_nl l \<Longrightarrow> a @ l \<noteq> [] \<Longrightarrow> lines_from a l = [a @ l]"
  by (induction l arbitrary: a) (auto simp: NL_def)

lemma http_read_response:
  assumes "no_cr status" and "no_nl status"
  shows "http_read (http_response status body) = Some (''HTTP/1.1 '' @ status, Some (length body), body)"
proof -
  let ?s = "''HTTP/1.1 '' @ status" and ?t = "''Content-Type: text/plain; version=0.0.4''"
    and ?l = "''Content-Length: '' @ show_nat (length body)"
  have crlf: "x @ CRLF @ r = (x @ [CHR 0x0D]) @ NL # r" for x r by (simp add: CRLF_def NL_def)
  have "lines_from [] (?s @ CRLF @ ?t @ CRLF @ ?l) = [?s @ [CHR 0x0D], ?t @ [CHR 0x0D], ?l]"
    unfolding crlf [of ?s] crlf [of ?t] using lines_from_line [of "?s @ [CHR 0x0D]" "[]"] lines_from_line [of "?t @ [CHR 0x0D]" "[]"]
      lines_from_last [of ?l "[]"] assms(2) by simp
  moreover define h where "h = ?s @ CRLF @ ?t @ CRLF @ ?l"
  ultimately have ls: "map (takeWhile (\<lambda>c. c \<noteq> CHR 0x0D)) (lines_from [] h) = [?s, ?t, ?l]"
    using take_no_cr(1) [of ?s "[]"] take_no_cr(1) [of ?t "[]"] take_no_cr(2) [of ?l] assms(1) by simp
  have n: "field_length [?s, ?t, ?l] = Some (length body)" by (simp add: field_length_def)
  have "split_head (http_response status body) = Some (h, body)" using split_head_response [OF assms(1), of body] by (simp add: h_def)
  then show ?thesis unfolding http_read_def by (simp only: option.case prod.case ls Let_def n list.sel)
qed

subsection \<open>Reading a request\<close>

definition printable :: "string \<Rightarrow> bool" where
  "printable s \<longleftrightarrow> (\<forall>c \<in> set (codes s). 33 \<le> c \<and> c \<le> 126)"

lemma printable_words:
  assumes "printable s" and "c \<in> set (codes s)"
  shows "\<not> is_whitespace c" and "c < 0x80" and "c \<noteq> 10"
  using assms by (auto simp: printable_def is_whitespace_def)

lemma first_line_prefix:
  assumes "10 \<notin> set p" and "p \<noteq> []" and "last p \<noteq> 13"
  shows "\<exists>l. first_line (p @ r) = Some (p @ l)"
proof -
  have t: "takeWhile (\<lambda>c. c \<noteq> 10) (p @ r) = p @ takeWhile (\<lambda>c. c \<noteq> 10) r" using assms(1) by (intro takeWhile_append2) auto
  show ?thesis
  proof (cases "takeWhile (\<lambda>c. c \<noteq> 10) r = []")
    case True
    then show ?thesis using assms t by (simp add: first_line_def)
  next
    case False
    then show ?thesis using assms t by (auto simp: first_line_def Let_def butlast_append)
  qed
qed

lemma request_path_target:
  assumes "printable m" "m \<noteq> []" "printable t" "t \<noteq> []" and "utf8_decode (codes rest) \<noteq> None"
  shows "request_path (m @ '' '' @ t @ '' '' @ rest) = codes t"
proof -
  let ?p = "codes (m @ '' '' @ t @ '' '')"
  obtain cs where cs: "utf8_decode (codes rest) = Some cs" using assms(5) by blast
  have "utf8_decode (?p @ codes rest) = Some (?p @ cs)"
    by (subst utf8_decode_ascii) (use printable_words(2) [OF assms(1)] printable_words(2) [OF assms(3)] cs in auto)
  then have d: "utf8_decode (codes (m @ '' '' @ t @ '' '' @ rest)) = Some (?p @ cs)" by simp
  have "10 \<notin> set ?p" using printable_words(3) [OF assms(1)] printable_words(3) [OF assms(3)] by auto
  moreover have "?p \<noteq> []" "last ?p \<noteq> 13" by simp_all
  ultimately obtain l where l: "first_line (?p @ cs) = Some (?p @ l)" using first_line_prefix [of ?p cs] by blast
  have sp: "is_whitespace 32" by (simp add: is_whitespace_def)
  have "split_whitespace (codes m @ 32 # codes t @ 32 # l) = codes m # codes t # split_whitespace (32 # l)"
    using split_whitespace_word [of "codes m" 32 "codes t @ 32 # l"] split_whitespace_word [of "codes t" 32 l]
      split_whitespace_skip [OF sp, of "codes t @ 32 # l"] printable_words(1) [OF assms(1)] printable_words(1) [OF assms(3)] assms(2,4) sp
    by simp
  moreover have "?p @ l = codes m @ 32 # codes t @ 32 # l" by simp
  ultimately show ?thesis unfolding request_path_def Let_def d option.case l by (simp only: list.case)
qed

subsection \<open>The hit rate\<close>

lemma f64_round_near:
  assumes "0 \<le> x" "x \<le> m" shows "\<bar>f64_round x - x\<bar> \<le> m / 2 ^ 53"
  by (rule order_trans [OF float_round_error [OF assms(1)]]) (use assms(2) in \<open>simp add: divide_right_mono\<close>)

text \<open>A quotient of two rounded numbers.\<close>

lemma rounded_quotient:
  fixes a b x y e :: rat
  assumes "0 < y" "0 \<le> x" "x \<le> y" and "\<bar>a - x\<bar> \<le> e * x" "\<bar>b - y\<bar> \<le> e * y" and "0 \<le> e" "e \<le> 1 / 2"
  shows "\<bar>a / b - x / y\<bar> \<le> 4 * e" and "0 < b"
proof -
  have "e * y \<le> 1 / 2 * y" by (rule mult_right_mono) (use assms in simp_all)
  then have b: "y / 2 \<le> b" "0 < b" using assms(1,5) by linarith+
  then show "0 < b" by simp
  have p: "0 < b * y" using b assms(1) by simp
  have "\<bar>a * y - x * b\<bar> = \<bar>(a - x) * y + x * (y - b)\<bar>" by (simp add: algebra_simps)
  also have "\<dots> \<le> \<bar>(a - x) * y\<bar> + \<bar>x * (y - b)\<bar>" by (rule abs_triangle_ineq)
  also have "\<dots> = \<bar>a - x\<bar> * y + x * \<bar>b - y\<bar>" using assms(1,2) by (simp add: abs_mult abs_minus_commute)
  also have "\<dots> \<le> e * x * y + x * (e * y)" by (intro add_mono mult_right_mono mult_left_mono) (use assms in simp_all)
  also have "\<dots> = 2 * e * x * y" by simp
  also have "\<dots> \<le> 2 * e * y * y" by (intro mult_right_mono mult_left_mono) (use assms in simp_all)
  also have "\<dots> = 4 * e * (y / 2 * y)" by simp
  also have "\<dots> \<le> 4 * e * (b * y)" by (intro mult_left_mono mult_right_mono b) (use assms in simp_all)
  finally have "\<bar>a * y - x * b\<bar> \<le> 4 * e * (b * y)" .
  moreover have "a / b - x / y = (a * y - x * b) / (b * y)" using b assms(1) by (simp add: field_simps)
  ultimately show "\<bar>a / b - x / y\<bar> \<le> 4 * e" using p by (simp add: abs_divide pos_divide_le_eq)
qed

lemma rate_bounds:
  fixes x y :: rat
  assumes y: "0 < y" "0 \<le> x" "x \<le> y"
  defines "r \<equiv> f64_round (f64_round (f64_round x / f64_round y) * 100)"
  shows "0 \<le> r" and "r \<le> 100" and "\<bar>r - 100 * x / y\<bar> \<le> 1 / 1000"
proof -
  let ?e = "1 / 2 ^ 53 :: rat" and ?a = "f64_round x" and ?b = "f64_round y"
  let ?q = "f64_round (?a / ?b)"
  have nn: "0 \<le> f64_round z" if "0 \<le> z" for z using float_round_mono [OF that, of 52] by simp
  have ab: "\<bar>?a - x\<bar> \<le> ?e * x" "\<bar>?b - y\<bar> \<le> ?e * y" using float_round_error [of x 52] float_round_error [of y 52] y by simp_all
  note rq = rounded_quotient [OF y ab]
  have b: "0 < ?b" by (rule rq(2)) simp_all
  have le: "?a / ?b \<le> 1" using float_round_mono [OF y(3), of 52] b by simp
  have a0: "0 \<le> ?a / ?b" using nn [OF y(2)] b by simp
  have q: "0 \<le> ?q" "?q \<le> 1" using nn [OF a0] float_round_mono [OF le, of 52] by simp_all
  then have q100: "0 \<le> ?q * 100" "?q * 100 \<le> 100" by simp_all
  show "0 \<le> r" unfolding r_def by (rule nn [OF q100(1)])
  show "r \<le> 100" unfolding r_def using float_round_mono [OF q100(2), of 52] by simp
  have e: "\<bar>?a / ?b - x / y\<bar> \<le> 4 * ?e" by (rule rq(1)) simp_all
  have "\<bar>?q - ?a / ?b\<bar> \<le> ?e" by (rule f64_round_near [OF a0 le])
  moreover have "\<bar>r - ?q * 100\<bar> \<le> 100 * ?e" unfolding r_def using f64_round_near [OF q100] by simp
  moreover have "\<bar>w - 100 * z\<bar> \<le> 1 / 1000"
    if "\<bar>v - z\<bar> \<le> 4 * d" "\<bar>u - v\<bar> \<le> d" "\<bar>w - u * 100\<bar> \<le> 100 * d" "d \<le> 1 / 1000000" for u v w z d :: rat
    using that by linarith
  moreover have "?e \<le> 1 / 1000000" by simp
  ultimately have "\<bar>r - 100 * (x / y)\<bar> \<le> 1 / 1000" using e by blast
  then show "\<bar>r - 100 * x / y\<bar> \<le> 1 / 1000" by simp
qed

text \<open>
  C40. The exported hit rate is right. As long as the number of cached allocations fits 64 bits and is not zero, the percentage that is
  printed with two decimals is at most 100.00 and differs by less than 0.01 from the exact percentage of hits, in spite of the
  five roundings on the way.
\<close>

theorem hit_rate_accurate:
  assumes "0 < s_cache_hits s + s_cache_misses s" and "s_cache_hits s + s_cache_misses s < 2 ^ 64"
  shows "hundredths (hit_rate s) \<le> 10000 \<and>
    \<bar>of_nat (hundredths (hit_rate s)) / 100 - 100 * of_nat (s_cache_hits s) / of_nat (s_cache_hits s + s_cache_misses s)\<bar> < (1 / 100 :: rat)"
proof -
  let ?x = "of_nat (s_cache_hits s) :: rat" and ?y = "of_nat (s_cache_hits s + s_cache_misses s) :: rat"
  have y: "0 < ?y" "0 \<le> ?x" "?x \<le> ?y" using assms(1) by (simp_all only: of_nat_0_less_iff of_nat_le_iff of_nat_0_le_iff le_add1)
  have r: "hit_rate s = f64_round (f64_round (f64_round ?x / f64_round ?y) * 100)"
    using assms by (simp add: hit_rate_def wadd_in_range Let_def)
  note b = rate_bounds [OF y, folded r]
  have "round_even (of_int 0) \<le> round_even (hit_rate s * 100)" "round_even (hit_rate s * 100) \<le> round_even (of_int 10000)"
    by (rule round_even_mono, use b in simp)+
  then have h: "0 \<le> round_even (hit_rate s * 100)" "round_even (hit_rate s * 100) \<le> 10000"
    unfolding round_even_int by blast+
  then have "(of_nat (hundredths (hit_rate s)) :: rat) = of_int (round_even (hit_rate s * 100))" by (simp add: hundredths_def)
  then have "\<bar>of_nat (hundredths (hit_rate s)) - hit_rate s * 100\<bar> \<le> 1 / 2" using round_even_near [of "hit_rate s * 100"] by simp
  then have "\<bar>of_nat (hundredths (hit_rate s)) / 100 - 100 * ?x / ?y\<bar> < 1 / 100" using b(3) by linarith
  moreover have "hundredths (hit_rate s) \<le> 10000" using h by (simp add: hundredths_def)
  ultimately show ?thesis by blast
qed

definition demo_snapshot :: MetricsSnapshot where
  "demo_snapshot = \<lparr>s_allocs = 12, s_frees = 5, s_cache_hits = 2, s_cache_misses = 1, s_direct_allocs = 9\<rparr>"

theorem hit_rate_accurate_witness:
  "hundredths (hit_rate demo_snapshot) \<in> {6666, 6667}"
proof -
  have s: "s_cache_hits demo_snapshot = 2" "s_cache_misses demo_snapshot = 1" by (simp_all add: demo_snapshot_def)
  have b: "\<bar>of_nat (hundredths (hit_rate demo_snapshot)) / 100 - 100 * 2 / 3\<bar> < (1 / 100 :: rat)"
    using hit_rate_accurate [of demo_snapshot] unfolding s by simp
  have "(6665 :: rat) < of_nat (hundredths (hit_rate demo_snapshot))" "of_nat (hundredths (hit_rate demo_snapshot)) < (6668 :: rat)"
    using b by linarith+
  then have "6665 < hundredths (hit_rate demo_snapshot)" "hundredths (hit_rate demo_snapshot) < 6668"
    by linarith+
  then show ?thesis by auto
qed

subsection \<open>What a scrape returns\<close>

definition scrape :: "string \<Rightarrow> string \<Rightarrow> nat option" where
  "scrape text name = (case map_of (samples text) name of None \<Rightarrow> None | Some v \<Rightarrow> read_nat v)"

text \<open>
  C38. Round trip of the metrics. When the library of the allocator is loaded, the text the exporter produces has exactly seven samples with different
  names, and reading them back gives the five counters of the allocator and, as the number of active blocks, the allocations less the
  frees, or 0 where the frees are ahead.
\<close>

theorem exported_counters:
  assumes "get_metrics lib = Some s"
  shows "length (samples (format_metrics lib)) = 7 \<and> distinct (map fst (samples (format_metrics lib))) \<and>
    scrape (format_metrics lib) ''aethalloc_allocs_total'' = Some (s_allocs s) \<and>
    scrape (format_metrics lib) ''aethalloc_frees_total'' = Some (s_frees s) \<and>
    scrape (format_metrics lib) ''aethalloc_cache_hits_total'' = Some (s_cache_hits s) \<and>
    scrape (format_metrics lib) ''aethalloc_cache_misses_total'' = Some (s_cache_misses s) \<and>
    scrape (format_metrics lib) ''aethalloc_direct_allocs_total'' = Some (s_direct_allocs s) \<and>
    scrape (format_metrics lib) ''aethalloc_active_blocks'' = Some (s_allocs s - s_frees s)"
  by (simp add: scrape_def samples_format_metrics [OF assms] read_show)

definition demo_lib :: "(string \<Rightarrow> MetricsSnapshot option) option" where
  "demo_lib = Some (\<lambda>name. if name = ''aethalloc_get_metrics'' then Some demo_snapshot else None)"

lemma demo_lib_metrics: "get_metrics demo_lib = Some demo_snapshot"
  by (simp add: get_metrics_def demo_lib_def)

theorem exported_counters_witness:
  "scrape (format_metrics demo_lib) ''aethalloc_allocs_total'' = Some 12 \<and> scrape (format_metrics demo_lib) ''aethalloc_active_blocks'' = Some 7"
  using exported_counters [OF demo_lib_metrics] by (simp add: demo_snapshot_def)

text \<open>What a client reads for a target.\<close>

definition answer :: "string \<Rightarrow> string \<Rightarrow> string \<times> nat option \<times> string" where
  "answer t exposition =
     (if t = ''/metrics'' then (''HTTP/1.1 200 OK'', Some (length exposition), exposition)
      else if t = ''/health'' \<or> t = ''/'' then (''HTTP/1.1 200 OK'', Some 3, ''OK'' @ [NL])
      else (''HTTP/1.1 404 Not Found'', Some 10, ''Not Found'' @ [NL]))"

text \<open>
  C39. Requests are answered as their target says. A request line with a method and a target in printable characters, followed by any valid text, gets a
  response that a client reads as exactly one body with the announced length: the metrics for \<open>/metrics\<close>, a health report for
  \<open>/health\<close> and \<open>/\<close>, and the status 404 for every other target, from the library and from the program alike. A request
  that is not valid UTF-8 is answered like a request for \<open>/\<close>, and a connection that cannot be read gets no answer, again by both.
\<close>

theorem exporter_serves:
  assumes "printable m" "m \<noteq> []" "printable t" "t \<noteq> []" and "utf8_decode (codes rest) \<noteq> None"
    and "utf8_decode (codes bad) = None"
  shows "map_option http_read (handle_client lib (Some (m @ '' '' @ t @ '' '' @ rest))) = Some (Some (answer t (format_metrics lib))) \<and>
    map_option http_read (main_handle_client s (Some (m @ '' '' @ t @ '' '' @ rest))) = Some (Some (answer t (format_prometheus_metrics s))) \<and>
    map_option http_read (handle_client lib (Some bad)) = Some (Some (''HTTP/1.1 200 OK'', Some 3, ''OK'' @ [NL])) \<and>
    map_option http_read (main_handle_client s (Some bad)) = Some (Some (''HTTP/1.1 200 OK'', Some 3, ''OK'' @ [NL])) \<and>
    handle_client lib None = None \<and> main_handle_client s None = None"
proof -
  have inj: "codes t = codes u \<longleftrightarrow> t = u" for u :: string by (simp add: inj_map_eq_map inj_of_char)
  have p: "request_path (m @ '' '' @ t @ '' '' @ rest) = codes t" by (rule request_path_target [OF assms(1-5)])
  have 1: "map_option http_read (handle_client lib (Some (m @ '' '' @ t @ '' '' @ rest))) = Some (Some (answer t (format_metrics lib)))"
    unfolding handle_client_def option.case p route_def inj answer_def by (simp add: http_read_response)
  have 2: "map_option http_read (main_handle_client s (Some (m @ '' '' @ t @ '' '' @ rest))) = Some (Some (answer t (format_prometheus_metrics s)))"
    unfolding main_handle_client_def option.case p route_def inj answer_def by (simp add: http_read_response)
  have "request_path bad = codes ''/''"
    using assms(6) split_whitespace.simps [of "[]"] by (simp add: request_path_def first_line_def Let_def)
  then have 3: "map_option http_read (handle_client lib (Some bad)) = Some (Some (''HTTP/1.1 200 OK'', Some 3, ''OK'' @ [NL]))"
    "map_option http_read (main_handle_client s (Some bad)) = Some (Some (''HTTP/1.1 200 OK'', Some 3, ''OK'' @ [NL]))"
    by (simp_all add: handle_client_def main_handle_client_def route_def http_read_response)
  have "handle_client lib None = None" "main_handle_client s None = None" by (simp_all add: handle_client_def main_handle_client_def)
  with 1 2 3 show ?thesis by blast
qed

theorem exporter_serves_witness:
  "map_option http_read (handle_client demo_lib (Some ''GET /nothing HTTP/1.1'')) =
     Some (Some (''HTTP/1.1 404 Not Found'', Some 10, ''Not Found'' @ [NL]))"
proof -
  have "printable ''GET''" "printable ''/nothing''" by (simp_all add: printable_def)
  moreover have "utf8_decode (codes ''HTTP/1.1'') \<noteq> None" "utf8_decode (codes [CHR 0xFF]) = None" by simp_all
  ultimately show ?thesis using exporter_serves [of "''GET''" "''/nothing''" "''HTTP/1.1''" "[CHR 0xFF]" demo_lib] by (simp add: answer_def)
qed

subsection \<open>Starting the program\<close>

definition port_or_default :: "string \<Rightarrow> nat" where
  "port_or_default v = (case parse_uint 65535 v of Some n \<Rightarrow> n | None \<Rightarrow> 9091)"

lemma parse_uint_le: "parse_uint mx s = Some w \<Longrightarrow> w \<le> mx"
  using read_digits_le [of mx 0] by (auto simp: parse_uint_def Let_def split: if_splits list.splits)

lemma parse_args_step: "opt \<in> {''-p'', ''--port''} \<Longrightarrow> parse_args p (opt # v # args) = parse_args (port_or_default v) args"
  by (cases "parse_uint 65535 v") (auto simp: port_or_default_def DEFAULT_PORT_def)

definition option_args :: "(string \<times> string) list \<Rightarrow> string list" where
  "option_args os = concat (map (\<lambda>(opt, v). [opt, v]) os)"

lemma option_args_simps [simp]: "option_args [] = []" "option_args ((opt, v) # os) = opt # v # option_args os"
  by (simp_all add: option_args_def)

lemma parse_args_options:
  "\<forall>(opt, v) \<in> set os. opt \<in> {''-p'', ''--port''} \<Longrightarrow>
    parse_args p (option_args os @ args) = parse_args (last (p # map (port_or_default \<circ> snd) os)) args"
proof (induction os arbitrary: p)
  case (Cons x os)
  obtain opt v where x: "x = (opt, v)" by fastforce
  then show ?case using Cons parse_args_step [of opt p v] by (simp add: x)
qed simp

lemma parse_args_port: "parse_args p args = Serve q \<Longrightarrow> p \<le> 65535 \<Longrightarrow> q \<le> 65535"
proof (induction p args rule: parse_args.induct)
  case (2 p arg args)
  show ?case
  proof (cases "arg = ''-p'' \<or> arg = ''--port''")
    case True
    with 2(2) obtain v rest where a: "args = v # rest" by (cases args) auto
    have "(case parse_uint 65535 v of Some n \<Rightarrow> n | None \<Rightarrow> DEFAULT_PORT) \<le> 65535"
      using parse_uint_le [of 65535 v] by (auto simp: DEFAULT_PORT_def split: option.split)
    then show ?thesis using 2(1) [OF True a] 2(2) True a by simp
  qed (use 2 in \<open>auto split: if_splits\<close>)
qed simp

text \<open>
  The arguments of the program. Any number of \<open>-p\<close> or \<open>--port\<close> options with their values set the port, and the last of them counts: its value
  if that is a decimal number of 16 bits, 9091 otherwise; without an option it is the port of the environment.
  After such options a missing value and any unknown argument exit with 1 and a request for help with 0.
  The port that is served always fits 16 bits.
\<close>

theorem main_arguments:
  assumes "\<forall>(opt, v) \<in> set os. opt \<in> {''-p'', ''--port''}" and "arg \<notin> {''-p'', ''--port'', ''-h'', ''--help''}"
  shows "main_start env (prog # option_args os) = Serve (if os = [] then env_port env else port_or_default (snd (last os))) \<and>
    main_start env (prog # option_args os @ [''-p'']) = Exit 1 \<and> main_start env (prog # option_args os @ [''--port'']) = Exit 1 \<and>
    main_start env (prog # option_args os @ arg # tail) = Exit 1 \<and>
    main_start env (prog # option_args os @ ''-h'' # tail) = Exit 0 \<and> main_start env (prog # option_args os @ ''--help'' # tail) = Exit 0 \<and>
    (\<forall>p. main_start env args = Serve p \<longrightarrow> p < 2 ^ 16)"
proof -
  note o = parse_args_options [OF assms(1), of "env_port env"]
  have l: "last (p # map (port_or_default \<circ> snd) os) = (if os = [] then p else port_or_default (snd (last os)))" for p
    by (simp add: last_map)
  have e: "env_port env \<le> 65535"
    using parse_uint_le [of 65535] by (auto simp: env_port_def DEFAULT_PORT_def split: option.split)
  have "p < 2 ^ 16" if "main_start env args = Serve p" for p
    using parse_args_port [OF that [unfolded main_start_def] e] by simp
  then show ?thesis using o [of "[]"] o [of "[''-p'']"] o [of "[''--port'']"] o [of "arg # tail"] o [of "''-h'' # tail"] o [of "''--help'' # tail"]
      assms(2) unfolding l by (simp add: main_start_def)
qed

theorem main_arguments_witness:
  "main_start None [''aethalloc-metrics'', ''-p'', ''80''] = Serve 80"
proof -
  have "parse_uint 65535 ''80'' = Some 80" by (simp add: parse_uint_def digit_value_def)
  then show ?thesis using main_arguments [of "[(''-p'', ''80'')]" "''x''" None "''aethalloc-metrics''"] by (simp add: port_or_default_def)
qed

end
