(* ===== verification/Spec2Isabelle.thy ===== *)
theory Spec2Isabelle
  imports Slab Progress CMetrics RingBuffer BuddyFree ThreadLocal Treiber NodeRace GlobalPool HwTags Vmpc
    ExporterProps
begin

text \<open>
  AethAlloc is a memory allocator for Linux programs, written in Rust. A program reaches it through
  the C functions of \<open>aethalloc-abi/src/lib.rs\<close>, which call the global allocator of
  \<open>aethalloc-abi/src/global.rs\<close>. Small requests are served from magazines, arrays of up to 64 free blocks that every
  thread keeps per size class; full magazines travel between threads through the lock-free pools of
  \<open>aethalloc-core/src/magazine.rs\<close>; large requests are mapped directly. Memory comes from \<open>mmap\<close> through
  \<open>aethalloc-core/src/page.rs\<close>. Besides this path the repository has further allocators of the core crate (slabs, buddy blocks,
  a thread-local cache, global slab pools), a ring buffer to a support core (\<open>aethalloc-amo\<close>), tag managers for pointer
  tagging hardware (\<open>aethalloc-hess\<close>), page compaction (\<open>aethalloc-vmpc\<close>) and a metrics exporter
  (\<open>aethalloc-metrics\<close>).

  \<^bold>\<open>Foundations.\<close> \<open>Prelude\<close> has the 64-bit arithmetic of the release profile and the bit-counting methods of Rust. \<open>Memory\<close> has
  byte-addressed memory, little-endian access and the accounting of memory as multisets of extents: \<open>exclusive M\<close> says that no
  address is in two extents of \<open>M\<close>. \<open>Page\<close> models \<open>page.rs\<close>; the system calls are the parameter \<open>K\<close> of
  every definition that maps memory, and the locale \<open>kernel\<close> states what \<open>mmap\<close> and \<open>munmap\<close> promise (\<open>mmap\<close> may fail at any
  time; \<open>munmap\<close> of whole pages is taken to succeed). The locale is interpreted on an
  executable first-fit kernel, on which the witnesses run. \<open>SizeClass\<close> models \<open>size_class.rs\<close>.

  \<^bold>\<open>Contracts.\<close> \<open>Heap_Contract\<close> has the contract every allocator offers (locale \<open>heap_allocator\<close>): over any sequence of
  allocations, releases and writes the held blocks are disjoint and mapped and keep their bytes. It is established for the global allocator
  (\<open>HeapContract\<close>), its build without magazines (\<open>SimpleContract\<close>), the slab (\<open>Slab\<close>), the buddy allocator (\<open>BuddyFree\<close>) and the thread-local cache (\<open>ThreadLocal\<close>). \<open>Stack_Contract\<close>
  and \<open>Queue_Contract\<close> have the contracts of stacks and bounded queues, \<open>Tag_Contract\<close> those of tag managers, and \<open>Links\<close> the lists that
  run through the first word of free blocks.

  \<^bold>\<open>The global allocator.\<close> \<open>Magazine\<close> models \<open>magazine.rs\<close> and \<open>GlobalAlloc\<close> models \<open>global.rs\<close> in its default build
  (feature \<open>magazine-caching\<close>): headers in front of blocks, thread caches as a list indexed by the thread, pool nodes in
  a store indexed by address. A step is one whole call of a thread. \<open>HeapInvariant\<close> states the ownership
  invariant, \<open>HeapAlloc\<close>, \<open>HeapPools\<close> and \<open>HeapSound\<close> prove that every path of allocation and release keeps it,
  \<open>HeapContract\<close> derives the contract and \<open>AllocProps\<close> has the properties of runs.

  \<^bold>\<open>The build without magazines.\<close> \<open>SimpleCache\<close> models the items of \<open>global.rs\<close> under \<open>not(feature = "magazine-caching")\<close>: the lists of free blocks
  of every thread and the global lists to which a thread moves half of a list that has 4096 blocks. \<open>Ledger\<close> has the accounting of free, owned and
  held extents, \<open>SimpleInv\<close> the invariant of the lists, \<open>SimpleSound\<close> and \<open>SimpleContract\<close> the proof that every path keeps it and the
  contract, \<open>SimpleProps\<close> the properties of runs. The source of this build uses \<open>AtomicPtr\<close> without importing it, so it does not compile as it
  is; the model is of the code as written.

  \<^bold>\<open>The C interface.\<close> \<open>lib.rs\<close> is the same in both builds: it calls the trait \<open>GlobalAlloc\<close>. \<open>Layout_Contract\<close> has the trait as a record of functions
  and a locale that extends the contract of allocators by alignment, region writes and recorded sizes, \<open>Builds\<close> shows both builds to satisfy it, and \<open>Abi\<close> models
  \<open>malloc\<close>, \<open>free\<close>, \<open>calloc\<close>, \<open>realloc\<close>, \<open>aligned_alloc\<close> and \<open>posix_memalign\<close> over any such allocator and proves their laws once. \<open>C_Spec\<close> is the
  specification a C programmer knows: an abstract machine with a list of blocks and the bytes with known values, which accepts or rejects a call with its result. It is
  proved that every run of a program that keeps to its own blocks is accepted. \<open>CProgram\<close> states this for both builds from the empty heap, and that
  stored bytes are read back. \<open>Progress\<close> shows that neither build returns null without need. The pointer argument of \<open>posix_memalign\<close> is taken to lie in a block of the program.

  \<^bold>\<open>Other allocators.\<close> \<open>Slab\<close> models \<open>slab.rs\<close>. \<open>Buddy\<close> and \<open>BuddyFree\<close> model \<open>buddy.rs\<close>: soundness, return of every call and complete
  merging hold in the runs whose regions were all mapped at multiples of their size (\<open>aligned_run\<close>; nothing beyond the locale \<open>kernel\<close> is asked of the system),
  and \<open>buddy_misaligned\<close> is a run on a region that is only page-aligned in which memory is handed out twice. To get there the allocator is studied on
  system calls that refuse misaligned regions (locale \<open>aligned_kernel\<close>), which \<open>aligned_grants\<close> makes of any others. \<open>ThreadLocal\<close> models \<open>thread_local.rs\<close>,
  \<open>GlobalPool\<close> models \<open>global_pool.rs\<close>.

  \<^bold>\<open>Concurrency.\<close> \<open>Treiber\<close> runs the compare-and-swap loops of \<open>global_pool.rs\<close> and \<open>magazine.rs\<close> for any number of threads, one shared access at a
  time: they refine a stack if no popped node is pushed again, and fail otherwise. \<open>NodeRace\<close> runs
  \<open>MetadataAllocator::alloc_node\<close> in the same way: the nodes of one page are handed out once, but not when a page is installed at the same time. \<open>RingBuffer\<close> models \<open>ring_buffer.rs\<close>, \<open>command.rs\<close> and
  \<open>support_core.rs\<close>, and runs one producer and one consumer, interleaved at their accesses: the ring refines a bounded queue and the two never touch the
  same slot. Memory is sequentially consistent in all three.

  \<^bold>\<open>Tagging and compaction.\<close> \<open>Tags\<close> and \<open>HwTags\<close> model the four tag managers; \<open>cpuid\<close> and the instructions of the inline assembly
  are parameters, with the descriptions of the architecture manuals as hypotheses (of \<open>ADDG\<close>, which the source uses in a form that has no encoding, nothing is
  assumed). \<open>Vmpc\<close> models \<open>page_table.rs\<close> and \<open>compactor.rs\<close> with
  system calls that may fail at any point (locale \<open>vm_kernel\<close>).

  \<^bold>\<open>The counters.\<close> Both builds count with the same functions of \<open>global.rs\<close>, on counters of a thread that are added to atomic global
  counters from time to time. \<open>Counters\<close> has this part of the state by itself and shows that counting and flushing conserve the sum of the global counter and those of all
  threads, modulo 2^64; \<open>HeapMetrics\<close> and \<open>SimpleMetrics\<close> show for either build that every path of allocation and release counts exactly once.
  \<open>CMetrics\<close> has the contract of a counted allocator (locale \<open>counted_allocator\<close>, which extends that of \<open>Layout_Contract\<close>) and derives from it what a list of C calls with
  their results adds to the counters. The property below carries this to the text a client of the exporter reads.

  \<^bold>\<open>The metrics exporter.\<close> \<open>Exporter\<close> models \<open>aethalloc-metrics/src/lib.rs\<close> and \<open>main.rs\<close>: the text of the metrics, the reading of
  requests, the responses, the port and the arguments. \<open>RustText\<close> has the text operations of the standard library and \<open>Float64\<close> the double-precision arithmetic of
  the hit rate, as rational numbers rounded to 53 bits. The dynamic library, the environment and the outcomes of the socket calls are arguments. \<open>ExporterProps\<close>
  has the client's side, which reads back what was exported.

  \<^bold>\<open>Loops.\<close> Loops over ranges and arrays are structural recursions; the loops that follow links in memory
  (\<open>clear_slot_loop\<close>, \<open>remove_from_free_list\<close>, \<open>full_depth_loop\<close>) return an option and the properties
  show that they return in the states they are used in; the loop of the support core has fuel, one unit per iteration, and is shown to drain the ring in as many iterations
  as it has entries and never to end. Compare-and-swap
  loops are one step when a call runs alone; their interleaving is the subject of \<open>Treiber\<close>.

  \<^bold>\<open>Not modelled.\<close> Weak memory orderings, terminal output, the test code and the panic handler are left out, as are items of
  \<open>aethalloc-hess\<close> that nothing calls: the enum \<open>TagStrategy\<close> and the accessors of \<open>TaggedAllocation\<close>.
\<close>

subsection \<open>From the allocator to the dashboard\<close>

text \<open>The library of the allocator as the exporter loads it: its symbol returns the snapshot of the global counters. A client asks the exporter for
  \<open>/metrics\<close>, reads the response, and if the body has the announced length takes the numbers of allocations and frees from it.\<close>

definition loaded :: "GlobalMetrics \<Rightarrow> (string \<Rightarrow> MetricsSnapshot option) option" where
  "loaded gm = Some (\<lambda>name. if name = ''aethalloc_get_metrics'' then Some (aethalloc_get_metrics gm) else None)"

definition scraped :: "GlobalMetrics \<Rightarrow> (nat \<times> nat) option" where
  "scraped gm =
     (case handle_client (loaded gm) (Some ''GET /metrics HTTP/1.1'') of
        None \<Rightarrow> None
      | Some r \<Rightarrow>
          (case http_read r of
             Some (status, Some n, body) \<Rightarrow>
               if n = length body
               then (case (scrape body ''aethalloc_allocs_total'', scrape body ''aethalloc_frees_total'') of
                       (Some a, Some f) \<Rightarrow> Some (a, f)
                     | _ \<Rightarrow> None)
               else None
           | _ \<Rightarrow> None))"

lemma loaded_metrics: "get_metrics (loaded gm) = Some (aethalloc_get_metrics gm)"
  by (simp add: get_metrics_def loaded_def)

lemma scraped_counters: "scraped gm = Some (g_allocs gm, g_frees gm)"
proof -
  let ?body = "format_metrics (loaded gm)"
  have "printable ''GET''" "printable ''/metrics''" "utf8_decode (codes ''HTTP/1.1'') \<noteq> None" by (simp_all add: printable_def)
  then have "request_path ''GET /metrics HTTP/1.1'' = codes ''/metrics''"
    using request_path_target [of "''GET''" "''/metrics''" "''HTTP/1.1''"] by simp
  then have "handle_client (loaded gm) (Some ''GET /metrics HTTP/1.1'') = Some (http_response ''200 OK'' ?body)"
    by (simp add: handle_client_def route_def)
  moreover have "http_read (http_response ''200 OK'' ?body) = Some (''HTTP/1.1 200 OK'', Some (length ?body), ?body)"
    using http_read_response [of "''200 OK''" ?body] by simp
  moreover have "scrape ?body ''aethalloc_allocs_total'' = Some (g_allocs gm)" "scrape ?body ''aethalloc_frees_total'' = Some (g_frees gm)"
    using samples_format_metrics [OF loaded_metrics, of gm]
    by (simp_all add: scrape_def aethalloc_get_metrics_def GlobalMetrics_snapshot_def)
  ultimately show ?thesis by (simp add: scraped_def)
qed

text \<open>What a client reads together with what the threads have not flushed yet: the allocations and the frees, at the width of the counters.\<close>

definition dashboard :: "meters \<Rightarrow> (nat \<times> nat) option" where
  "dashboard v =
     (case scraped (fst v) of
        None \<Rightarrow> None
      | Some (a, f) \<Rightarrow> Some ((a + sum_list (map t_allocs (snd v))) mod 2 ^ 64, (f + sum_list (map t_frees (snd v))) mod 2 ^ 64))"

lemma dashboard_totals: "dashboard v = Some (m_total g_allocs t_allocs v, m_total g_frees t_frees v)"
  by (simp add: dashboard_def scraped_counters m_total_def)

text \<open>
  C37. What the dashboard shows accounts for every call of the program, in both builds. A C program on any number of threads makes any calls of the library
  that keep to its own blocks; then a client asks the exporter for \<open>/metrics\<close> and reads the body of the response. The number of allocations it reads, plus
  what the threads have not flushed yet, is modulo 2^64 the number of calls that asked the allocator for a block (a \<open>malloc\<close> or
  \<open>realloc\<close> of size 0 does not, nor does a call refused before; a request that fails for want of memory does), and the number of frees is that of the
  non-null pointers given to \<open>free\<close> and to calls of \<open>realloc\<close> that succeeded or had size 0.
\<close>

theorem scrape_c_program:
  assumes "kernel K"
  shows "(\<forall>es a. c_run (magazine_build K) threads (c_start_magazine s threads) es a \<longrightarrow>
      dashboard (meters_of (ALLOCATOR a)) = Some (sum_list (map c_allocs es) mod 2 ^ 64, sum_list (map c_frees es) mod 2 ^ 64)) \<and>
    (\<forall>es b. c_run (simple_build K) threads (c_start_simple s threads) es b \<longrightarrow>
      dashboard (s_meters_of (ALLOCATOR b)) = Some (sum_list (map c_allocs es) mod 2 ^ 64, sum_list (map c_frees es) mod 2 ^ 64))"
  using kernel.c_totals [OF assms counters(1)] kernel.c_totals [OF assms counters(2)] by (simp add: dashboard_totals)

theorem scrape_c_program_witness:
  "dashboard (meters_of (ALLOCATOR (store (magazine_build (first_fit 9)) (\<lambda>m. m(4200 := 7)) demo_abi1))) = Some (1, 0) \<and>
   dashboard (s_meters_of (ALLOCATOR (store (simple_build (first_fit 9)) (\<lambda>m. m(4200 := 7)) demo_sabi))) = Some (1, 0)"
proof -
  have r: "reaches 4096 8 = 1" by (simp add: reaches_def Layout_from_size_align_def power_two_8)
  show ?thesis
    using scrape_c_program [OF ff.kernel_axioms, THEN conjunct1, rule_format, OF demo_run_magazine]
      scrape_c_program [OF ff.kernel_axioms, THEN conjunct2, rule_format, OF demo_run_simple] by (simp add: r)
qed

end
